(* ===== verification/Hydrax_Prelude.thy ===== *)
theory Hydrax_Prelude
  imports Main "HOL-Library.Word"
begin

text \<open>
  Shared vocabulary of the Hydrax development: the C integer types as words, the traps a
  kernel path can end in, the sequencing of fallible steps, the error numbers of
  \<open>include/errno.h\<close>, and the generic facts on words, bits and lists that the component
  theories use through the collections \<open>bit_simps\<close> and \<open>outcome_simps\<close>.
\<close>

unbundle bit_operations_syntax

named_theorems bit_simps \<open>facts that reduce masks and shifts to single bits\<close>
named_theorems outcome_simps \<open>facts that take sequenced fallible steps apart\<close>

section \<open>Types\<close>

type_synonym u8 = "8 word"
type_synonym u16 = "16 word"
type_synonym u32 = "32 word"

text \<open>\<open>int\<close> of the 32-bit ABI: the same bits, read with \<open>sint\<close> and compared with \<open>word_sless\<close>.\<close>
type_synonym i32 = "32 word"

text \<open>A pointer value; \<open>NULL\<close> is the zero word, as in \<open>arch.h\<close>.\<close>
type_synonym addr = "32 word"

abbreviation (input) NULL :: addr where "NULL \<equiv> 0"

text \<open>
  The ways a kernel path stops making sense: a failed \<open>assert\<close>, an access through \<open>NULL\<close>,
  an access outside an array, a \<open>panic\<close>, and a lock that the path itself already holds.
  A component returns \<open>Inl t\<close> where the C code would get there and \<open>Inr\<close> otherwise.
\<close>
datatype trap = Assert_Failed | Null_Deref | Out_Of_Bounds | Kernel_Panic | Self_Deadlock

type_synonym 'a outcome = "trap + 'a"

definition bindE :: "'a outcome \<Rightarrow> ('a \<Rightarrow> 'b outcome) \<Rightarrow> 'b outcome" where
  "bindE m f = (case m of Inl t \<Rightarrow> Inl t | Inr x \<Rightarrow> f x)"

definition assertE :: "bool \<Rightarrow> unit outcome" where
  "assertE b = (if b then Inr () else Inl Assert_Failed)"

text \<open>Array access with the C meaning of an index out of range: undefined, hence a trap.\<close>

definition readE :: "'a list \<Rightarrow> nat \<Rightarrow> 'a outcome" where
  "readE xs i = (if i < length xs then Inr (xs ! i) else Inl Out_Of_Bounds)"

definition writeE :: "'a list \<Rightarrow> nat \<Rightarrow> 'a \<Rightarrow> 'a list outcome" where
  "writeE xs i v = (if i < length xs then Inr (xs[i := v]) else Inl Out_Of_Bounds)"

text \<open>A C loop over a known sequence of values whose body can trap.\<close>

primrec foldE :: "('s \<Rightarrow> 'a \<Rightarrow> 's outcome) \<Rightarrow> 's \<Rightarrow> 'a list \<Rightarrow> 's outcome" where
  "foldE f s [] = Inr s"
| "foldE f s (x # xs) = bindE (f s x) (\<lambda>s'. foldE f s' xs)"

text \<open>
  A path that may also block or run for ever: \<open>None\<close> when it has not returned, otherwise the
  outcome it returned with.
\<close>

type_synonym 'a run = "'a outcome option"

definition bindR :: "'a run \<Rightarrow> ('a \<Rightarrow> 'b run) \<Rightarrow> 'b run" where
  "bindR m f = (case m of None \<Rightarrow> None | Some (Inl t) \<Rightarrow> Some (Inl t) | Some (Inr x) \<Rightarrow> f x)"

section \<open>Procedures\<close>

text \<open>
  A kernel procedure on a state shared with the rest of the system: it is given what the others
  do each time it has to wait, and returns its value, the state and what was not used.
\<close>

type_synonym ('s, 'a) proc = "('s \<Rightarrow> 's) list \<Rightarrow> 's \<Rightarrow> ('a \<times> 's \<times> ('s \<Rightarrow> 's) list) run"

definition retP :: "'a \<Rightarrow> ('s, 'a) proc" where
  "retP x = (\<lambda>es s. Some (Inr (x, s, es)))"

definition trapP :: "trap \<Rightarrow> ('s, 'a) proc" where
  "trapP t = (\<lambda>es s. Some (Inl t))"

definition bindP :: "('s, 'a) proc \<Rightarrow> ('a \<Rightarrow> ('s, 'b) proc) \<Rightarrow> ('s, 'b) proc" where
  "bindP m f = (\<lambda>es s. bindR (m es s) (\<lambda>(x, s', es'). f x es' s'))"

definition getP :: "('s \<Rightarrow> 'a) \<Rightarrow> ('s, 'a) proc" where
  "getP g = (\<lambda>es s. Some (Inr (g s, s, es)))"

definition updP :: "('s \<Rightarrow> 's) \<Rightarrow> ('s, unit) proc" where
  "updP f = (\<lambda>es s. Some (Inr ((), f s, es)))"

text \<open>A fallible computation on the state, and an assertion about it.\<close>

definition liftP :: "('s \<Rightarrow> 'a outcome) \<Rightarrow> ('s, 'a) proc" where
  "liftP g = (\<lambda>es s. Some (bindE (g s) (\<lambda>x. Inr (x, s, es))))"

definition stepP :: "('s \<Rightarrow> 's outcome) \<Rightarrow> ('s, unit) proc" where
  "stepP g = (\<lambda>es s. Some (bindE (g s) (\<lambda>s'. Inr ((), s', es))))"

definition assertP :: "bool \<Rightarrow> ('s, unit) proc" where
  "assertP b = (if b then retP () else trapP Assert_Failed)"

primrec foldP :: "('a \<Rightarrow> ('s, unit) proc) \<Rightarrow> 'a list \<Rightarrow> ('s, unit) proc" where
  "foldP f [] = retP ()"
| "foldP f (x # xs) = bindP (f x) (\<lambda>_. foldP f xs)"

section \<open>Error numbers (errno.h)\<close>

definition ESUCCESS :: i32 where "ESUCCESS = 0"
definition EACCES :: i32 where "EACCES = -2"
definition EBADF :: i32 where "EBADF = -3"
definition EFAULT :: i32 where "EFAULT = -4"
definition ENAMETOOLONG :: i32 where "ENAMETOOLONG = -6"
definition ENOENT :: i32 where "ENOENT = -7"
definition ENOMEM :: i32 where "ENOMEM = -8"
definition ENOSYS :: i32 where "ENOSYS = -12"
definition ECHILD :: i32 where "ECHILD = -13"
definition EINVAL :: i32 where "EINVAL = -14"
definition EPERM :: i32 where "EPERM = -16"
definition ESRCH :: i32 where "ESRCH = -17"
definition EAGAIN :: i32 where "EAGAIN = -18"

lemmas errno_defs = ESUCCESS_def EACCES_def EBADF_def EFAULT_def ENAMETOOLONG_def ENOENT_def
  ENOMEM_def ENOSYS_def ECHILD_def EINVAL_def EPERM_def ESRCH_def EAGAIN_def

section \<open>Sequencing\<close>

lemma bindE_simps [simp]:
  "bindE (Inl t) f = Inl t"
  "bindE (Inr x) f = f x"
  by (simp_all add: bindE_def)

lemma bindE_eq_Inr [outcome_simps]:
  "bindE m f = Inr y \<longleftrightarrow> (\<exists>x. m = Inr x \<and> f x = Inr y)"
  by (cases m) auto

lemma bindE_cong [fundef_cong]:
  "m = m' \<Longrightarrow> (\<And>x. m' = Inr x \<Longrightarrow> f x = f' x) \<Longrightarrow> bindE m f = bindE m' f'"
  by (cases m') auto

lemma assertE_eq_Inr [outcome_simps]: "assertE b = Inr u \<longleftrightarrow> b"
  by (simp add: assertE_def)

lemma assertE_True [simp]: "assertE True = Inr ()" "b \<Longrightarrow> assertE b = Inr ()"
  by (simp_all add: assertE_def)

lemma readE_eq_Inr [outcome_simps]: "readE xs i = Inr v \<longleftrightarrow> i < length xs \<and> v = xs ! i"
  by (auto simp: readE_def)

lemma writeE_eq_Inr [outcome_simps]:
  "writeE xs i v = Inr ys \<longleftrightarrow> i < length xs \<and> ys = xs[i := v]"
  by (auto simp: writeE_def)

lemma readE_in [simp]: "i < length xs \<Longrightarrow> readE xs i = Inr (xs ! i)"
  by (simp add: readE_def)

lemma writeE_in [simp]: "i < length xs \<Longrightarrow> writeE xs i v = Inr (xs[i := v])"
  by (simp add: writeE_def)

lemma foldE_append: "foldE f s (xs @ ys) = bindE (foldE f s xs) (\<lambda>s'. foldE f s' ys)"
proof (induction xs arbitrary: s)
  case (Cons x xs)
  then show ?case by (cases "f s x") auto
qed simp

lemma bindR_simps [simp]:
  "bindR None f = None"
  "bindR (Some (Inl t)) f = Some (Inl t)"
  "bindR (Some (Inr x)) f = f x"
  by (simp_all add: bindR_def)

lemma bindR_eq_Inr [outcome_simps]:
  "bindR m f = Some (Inr y) \<longleftrightarrow> (\<exists>x. m = Some (Inr x) \<and> f x = Some (Inr y))"
  by (auto simp: bindR_def split: option.splits sum.splits)

text \<open>Recursive calls may stand inside the sequencing of fallible steps.\<close>

lemma bindR_bind: "bindR m f = Option.bind m (\<lambda>r. case r of Inl t \<Rightarrow> Some (Inl t) | Inr x \<Rightarrow> f x)"
  by (auto simp: bindR_def split: option.splits sum.splits)

lemma bindR_mono [partial_function_mono]:
  assumes "mono_option B" "\<And>y. mono_option (\<lambda>f. C y f)"
  shows "mono_option (\<lambda>f. bindR (B f) (\<lambda>y. C y f))"
  unfolding bindR_bind
proof (rule bind_mono [OF assms(1)])
  fix r show "mono_option (\<lambda>f. case r of Inl t \<Rightarrow> Some (Inl t) | Inr x \<Rightarrow> C x f)"
    by (cases r) (simp_all add: assms(2) option.const_mono)
qed

lemma bindR_cong [fundef_cong]:
  "m = m' \<Longrightarrow> (\<And>x. m' = Some (Inr x) \<Longrightarrow> f x = f' x) \<Longrightarrow> bindR m f = bindR m' f'"
  by (auto simp: bindR_def split: option.splits sum.splits)

section \<open>Running procedures\<close>

lemma run_retP [simp]: "retP x es s = Some (Inr (x, s, es))"
  by (simp add: retP_def)

lemma run_trapP [simp]: "trapP t es s = Some (Inl t)"
  by (simp add: trapP_def)

lemma run_getP [simp]: "getP g es s = Some (Inr (g s, s, es))"
  by (simp add: getP_def)

lemma run_updP [simp]: "updP f es s = Some (Inr ((), f s, es))"
  by (simp add: updP_def)

lemma run_liftP [simp]: "g s = Inr x \<Longrightarrow> liftP g es s = Some (Inr (x, s, es))"
  by (simp add: liftP_def)

lemma run_stepP [simp]: "g s = Inr s' \<Longrightarrow> stepP g es s = Some (Inr ((), s', es))"
  by (simp add: stepP_def)

lemma run_assertP [simp]: "b \<Longrightarrow> assertP b es s = Some (Inr ((), s, es))"
  by (simp add: assertP_def)

lemma run_bindP [simp]: "m es s = Some (Inr (x, s', es')) \<Longrightarrow> bindP m f es s = f x es' s'"
  by (simp add: bindP_def)

lemma run_bindP_trap [simp]: "m es s = Some (Inl t) \<Longrightarrow> bindP m f es s = Some (Inl t)"
  by (simp add: bindP_def)

lemma foldP_append: "foldP f (xs @ ys) = bindP (foldP f xs) (\<lambda>_. foldP f ys)"
proof (induction xs)
  case Nil
  show ?case by (simp add: bindP_def retP_def fun_eq_iff)
next
  case (Cons x xs)
  then show ?case by (simp add: bindP_def fun_eq_iff bindR_def split: option.splits sum.splits)
qed

text \<open>A loop whose body always returns carries an invariant of the values still to come.\<close>

lemma foldP_invariant:
  assumes "P xs s"
    and "\<And>y ys s. P (y # ys) s \<Longrightarrow> \<exists>s'. f y es s = Some (Inr ((), s', es)) \<and> P ys s'"
  obtains s' where "foldP f xs es s = Some (Inr ((), s', es))" "P [] s'"
proof -
  have "\<exists>s'. foldP f xs es s = Some (Inr ((), s', es)) \<and> P [] s'"
    using assms(1)
  proof (induction xs arbitrary: s)
    case (Cons y ys)
    from assms(2) [OF Cons.prems] obtain s1 where "f y es s = Some (Inr ((), s1, es))" "P ys s1"
      by blast
    with Cons.IH [of s1] show ?case by simp
  qed simp
  then show ?thesis using that by blast
qed

section \<open>Lists\<close>

lemma find_append_eq:
  "find P (xs @ ys) = (case find P xs of None \<Rightarrow> find P ys | Some x \<Rightarrow> Some x)"
  by (induction xs) auto

lemma find_Some_in: "find P xs = Some x \<Longrightarrow> x \<in> set xs \<and> P x"
  by (auto simp: find_Some_iff)

lemma find_first_split:
  "find P xs = Some x \<Longrightarrow> \<exists>us vs. xs = us @ x # vs \<and> P x \<and> (\<forall>u \<in> set us. \<not> P u)"
proof (induction xs)
  case (Cons y xs)
  show ?case
  proof (cases "P y")
    case True
    with Cons.prems show ?thesis by (auto intro: exI [of _ "[]"])
  next
    case False
    with Cons.prems have "find P xs = Some x" by simp
    from Cons.IH [OF this] obtain us vs where "xs = us @ x # vs" "P x" "\<forall>u \<in> set us. \<not> P u" by blast
    with False show ?thesis by (intro exI [of _ "y # us"] exI [of _ vs]) auto
  qed
qed simp

lemma split_at_first:
  "c \<notin> set us \<Longrightarrow> takeWhile (\<lambda>x. x \<noteq> c) (us @ c # vs) = us"
  "c \<notin> set us \<Longrightarrow> dropWhile (\<lambda>x. x \<noteq> c) (us @ c # vs) = c # vs"
  by (induction us) auto

lemma find_map_eq: "find P (map f xs) = map_option f (find (\<lambda>x. P (f x)) xs)"
  by (induction xs) auto

section \<open>Words\<close>

lemma unat_u32_lt: "unat (w :: u32) < 2 ^ 32"
  using unsigned_less [of w] by simp

lemma unat_of_nat_u32: "n < 2 ^ 32 \<Longrightarrow> unat (of_nat n :: u32) = n"
  by (simp add: unsigned_of_nat take_bit_nat_eq_self)

lemma unat_add_1: "c < d \<Longrightarrow> unat (c + 1) = Suc (unat c)" for c d :: u32
  using unat_u32_lt [of d]
  by (simp add: word_less_nat_alt unat_word_ariths flip: Suc_eq_plus1)

lemma unat_sub_1: "0 < c \<Longrightarrow> unat (c - 1) = unat c - 1" for c :: u32
  by (rule unat_minus_one) auto

section \<open>Bits\<close>

text \<open>\<open>1 << n\<close> on a 32-bit value.\<close>

definition bit32 :: "nat \<Rightarrow> u32" where
  "bit32 n = push_bit n 1"

lemma bit_bit32 [bit_simps]: "bit (bit32 n) k \<longleftrightarrow> k = n \<and> n < 32"
  by (auto simp: bit32_def bit_exp_iff)

lemma and_bit32_eq_0 [bit_simps]: "w AND bit32 n = 0 \<longleftrightarrow> \<not> bit w n"
  by (simp add: bit32_def and_exp_eq_0_iff_not_bit)

lemma and_1_eq_0 [bit_simps]: "w AND 1 = 0 \<longleftrightarrow> \<not> bit w 0" for w :: u32
  using and_bit32_eq_0 [of w 0] by (simp only: bit32_def push_bit_0_id id_apply)

lemma bit32_and_eq_0 [bit_simps]: "bit32 n AND w = 0 \<longleftrightarrow> \<not> bit w n"
  by (simp add: and.commute and_bit32_eq_0)

lemma bit_or_bit32 [bit_simps]: "bit (w OR bit32 n) k \<longleftrightarrow> bit w k \<or> (k = n \<and> n < 32)"
  by (auto simp: bit_or_iff bit_bit32)

lemma bit_and_not_bit32 [bit_simps]:
  "bit (w AND NOT (bit32 n)) k \<longleftrightarrow> bit w k \<and> k \<noteq> n"
  by (auto simp: bit_and_iff bit_not_iff bit_bit32 dest: bit_imp_possible_bit)

lemma bit_u32_lt: "bit (w :: u32) n \<Longrightarrow> n < 32"
  using bit_imp_possible_bit by force

lemma u32_eq_iff_bits: "(v :: u32) = w \<longleftrightarrow> (\<forall>n < 32. bit v n \<longleftrightarrow> bit w n)"
  by (auto simp: bit_eq_iff dest: bit_u32_lt)

lemma u32_all_ones: "(w :: u32) = 0xFFFFFFFF \<longleftrightarrow> (\<forall>n < 32. bit w n)"
proof -
  have "(0xFFFFFFFF :: u32) = - 1" by simp
  then show ?thesis by (auto simp: u32_eq_iff_bits)
qed

text \<open>The simplifier reads a word literal's bits off the integer literal.\<close>

lemma bit_ones_int [simp]: "bit (0xFFFFFFFF :: int) n \<longleftrightarrow> n < 32"
proof -
  have "(0xFFFFFFFF :: int) = mask 32" by (simp add: mask_eq_exp_minus_1)
  then show ?thesis by (simp only: bit_mask_iff) simp
qed

lemma u32_zero_bits: "(w :: u32) = 0 \<longleftrightarrow> (\<forall>n < 32. \<not> bit w n)"
  by (auto simp: u32_eq_iff_bits)

end
