(* ===== verification/Chains.thy ===== *)
theory Chains
  imports Hydrax_Prelude
begin

text \<open>
  Singly linked lists as the kernel builds them: structs joined by a \<open>next\<close> pointer, ended by
  \<open>NULL\<close>.  \<open>chain nxt p xs q\<close> says that following \<open>nxt\<close> from \<open>p\<close> visits the non-null cells
  \<open>xs\<close> and arrives at \<open>q\<close>.  The two walks the kernel writes over and over (to the last cell, and
  to the predecessor of a cell) are defined once, with the lists they work on; the locale
  \<open>linked_cells\<close> is what a store must offer for its lists to be edited that way.
\<close>

section \<open>Chains and walks\<close>

fun chain :: "(addr \<Rightarrow> addr) \<Rightarrow> addr \<Rightarrow> addr list \<Rightarrow> addr \<Rightarrow> bool" where
  "chain nxt p [] q = (p = q)"
| "chain nxt p (x # xs) q = (p = x \<and> x \<noteq> NULL \<and> chain nxt (nxt x) xs q)"

text \<open>\<open>while (p->next != NULL) p = p->next;\<close>\<close>

partial_function (option) walk_last :: "(addr \<Rightarrow> addr) \<Rightarrow> addr \<Rightarrow> addr option" where
  "walk_last nxt p = (if nxt p = NULL then Some p else walk_last nxt (nxt p))"

text \<open>
  \<open>while (p != target) { parent = p; p = p->next; }\<close>, giving the final \<open>parent\<close>; a step off the
  end of the list is an access through \<open>NULL\<close>.
\<close>

partial_function (option) walk_parent ::
    "(addr \<Rightarrow> addr) \<Rightarrow> addr \<Rightarrow> addr \<Rightarrow> addr \<Rightarrow> addr run" where
  "walk_parent nxt target parent p =
     (if p = target then Some (Inr parent)
      else if p = NULL then Some (Inl Null_Deref)
      else walk_parent nxt target p (nxt p))"

declare walk_last.simps [code] walk_parent.simps [code]

section \<open>Facts on chains\<close>

lemma chain_append [simp]:
  "chain nxt p (xs @ ys) q \<longleftrightarrow> (\<exists>r. chain nxt p xs r \<and> chain nxt r ys q)"
  by (induction xs arbitrary: p) auto

lemma chain_NULL [simp]: "chain nxt NULL xs q \<longleftrightarrow> xs = [] \<and> q = NULL"
  by (cases xs) auto

lemma chain_not_NULL: "p \<noteq> NULL \<Longrightarrow> chain nxt p xs NULL \<longleftrightarrow> (\<exists>ys. xs = p # ys \<and> chain nxt (nxt p) ys NULL)"
  by (cases xs) auto

lemma chain_cells: "chain nxt p xs q \<Longrightarrow> NULL \<notin> set xs"
  by (induction xs arbitrary: p) auto

lemma chain_unique: "chain nxt p xs NULL \<Longrightarrow> chain nxt p ys NULL \<Longrightarrow> xs = ys"
proof (induction xs arbitrary: p ys)
  case Nil
  then show ?case by simp
next
  case (Cons x xs)
  then show ?case by (cases ys) auto
qed

lemma chain_upd_other: "a \<notin> set xs \<Longrightarrow> chain (nxt(a := b)) p xs q \<longleftrightarrow> chain nxt p xs q"
  by (induction xs arbitrary: p) auto

lemma chain_cong: "(\<And>x. x \<in> set xs \<Longrightarrow> nxt x = nxt' x) \<Longrightarrow> chain nxt p xs q \<longleftrightarrow> chain nxt' p xs q"
  by (induction xs arbitrary: p) auto

lemma chain_distinct: "chain nxt p xs NULL \<Longrightarrow> distinct xs"
proof (induction xs arbitrary: p)
  case (Cons x xs)
  have "x \<notin> set xs"
  proof
    assume "x \<in> set xs"
    then obtain us vs where xs: "xs = us @ x # vs" by (meson split_list)
    with Cons.prems have "chain nxt (nxt x) (us @ x # vs) NULL" "chain nxt (nxt x) vs NULL" by auto
    then have "us @ x # vs = vs" by (rule chain_unique)
    then show False by (metis append_Cons append_self_conv2 length_append length_Cons
          less_add_Suc2 less_irrefl list.size(4) not_add_less2 add_Suc_right)
  qed
  with Cons show ?case by auto
qed simp

lemma chain_split:
  "chain nxt p (us @ x # vs) q \<longleftrightarrow> chain nxt p us x \<and> x \<noteq> NULL \<and> chain nxt (nxt x) vs q"
  by auto

lemma walk_last_chain: "chain nxt p (xs @ [x]) NULL \<Longrightarrow> walk_last nxt p = Some x"
proof (induction xs arbitrary: p)
  case Nil
  then show ?case by (simp add: walk_last.simps)
next
  case (Cons y ys)
  then have "nxt p \<noteq> NULL" by (cases ys) auto
  with Cons show ?case by (simp add: walk_last.simps [of nxt y])
qed

lemma walk_parent_chain:
  "chain nxt p us x \<Longrightarrow> x \<notin> set us \<Longrightarrow>
   walk_parent nxt x parent p = Some (Inr (last (parent # us)))"
proof (induction us arbitrary: p parent)
  case Nil
  then show ?case by (simp add: walk_parent.simps)
next
  case (Cons y us)
  then show ?case by (auto simp: walk_parent.simps [of nxt x parent y])
qed

lemma walk_parent_missing:
  "chain nxt p xs NULL \<Longrightarrow> x \<notin> set xs \<Longrightarrow> x \<noteq> NULL \<Longrightarrow>
   walk_parent nxt x parent p = Some (Inl Null_Deref)"
proof (induction xs arbitrary: p parent)
  case Nil
  then show ?case by (simp add: walk_parent.simps)
next
  case (Cons y ys)
  then show ?case by (auto simp: walk_parent.simps [of nxt x parent y])
qed

text \<open>Linking a cell behind the last one, and unlinking a cell behind its predecessor.\<close>

lemma chain_link_last:
  assumes "chain nxt p (xs @ [x]) NULL" "a \<noteq> NULL" "a \<notin> set (xs @ [x])"
  shows "chain (nxt(a := NULL, x := a)) p (xs @ [x, a]) NULL"
  using assms chain_distinct [OF assms(1)] by (auto simp: chain_upd_other)

lemma chain_unlink:
  assumes "chain nxt p (us @ y # x # vs) NULL"
  shows "chain (nxt(y := nxt x)) p (us @ y # vs) NULL"
  using assms chain_distinct [OF assms(1)] by (auto simp: chain_upd_other)

section \<open>Stores of linked cells\<close>

locale linked_cells =
  fixes next_of :: "'h \<Rightarrow> addr \<Rightarrow> addr"
    and set_next :: "'h \<Rightarrow> addr \<Rightarrow> addr \<Rightarrow> 'h"
  assumes next_set: "next_of (set_next h a b) = (next_of h)(a := b)"
begin

lemma append_last:
  assumes "chain (next_of h) p (xs @ [x]) NULL" "a \<noteq> NULL" "a \<notin> set (xs @ [x])"
    "next_of h a = NULL"
  shows "walk_last (next_of h) p = Some x"
    and "chain (next_of (set_next h x a)) p (xs @ [x, a]) NULL"
proof -
  show "walk_last (next_of h) p = Some x" using assms(1) by (rule walk_last_chain)
  have "(next_of h)(a := NULL) = next_of h" using assms(4) by auto
  then show "chain (next_of (set_next h x a)) p (xs @ [x, a]) NULL"
    using chain_link_last [OF assms(1-3)] by (simp add: next_set)
qed

lemma remove_inner:
  assumes "chain (next_of h) p (y # us @ x # vs) NULL"
  shows "walk_parent (next_of h) x p (next_of h p) = Some (Inr (last (y # us)))"
    and "chain (next_of (set_next h (last (y # us)) (next_of h x))) p (y # us @ vs) NULL"
proof -
  from chain_distinct [OF assms] have d: "x \<notin> set us" by auto
  from assms have "chain (next_of h) (next_of h p) us x" "p = y" by auto
  then show "walk_parent (next_of h) x p (next_of h p) = Some (Inr (last (y # us)))"
    using walk_parent_chain [of _ _ us x p] d by auto
  obtain ws w where ws: "y # us = ws @ [w]" by (metis list.discI rev_exhaust)
  then have "chain (next_of h) p (ws @ w # x # vs) NULL"
    using assms by (metis append.assoc append_Cons append_Nil)
  then have "chain ((next_of h)(w := next_of h x)) p (ws @ w # vs) NULL" by (rule chain_unlink)
  moreover have "ws @ w # vs = y # us @ vs" "last (y # us) = w"
    using ws by (metis append.assoc append_Cons append_Nil, metis last_snoc)
  ultimately show "chain (next_of (set_next h (last (y # us)) (next_of h x))) p (y # us @ vs) NULL"
    by (simp add: next_set)
qed

lemma keep_other:
  "a \<notin> set xs \<Longrightarrow> chain (next_of (set_next h a b)) p xs q \<longleftrightarrow> chain (next_of h) p xs q"
  by (simp add: next_set chain_upd_other)

end

end
