(* ===== verification/Mutex.thy ===== *)
theory Mutex
  imports Chains
begin

text \<open>
  The mutexes of \<open>kernel/include/mutex.h\<close> and \<open>kernel/mutex.c\<close>.  A light mutex is the lock
  word alone and a full mutex extends it, so the operations on the word apply to both, as the
  casts of the source do.  Blocking calls take the list of what the rest of the system does at
  each \<open>yield()\<close> or \<open>pause()\<close>; an exhausted list means the caller is still blocked.  Sleeping
  waiters are structs on the stacks of their tasks, linked through a store.
\<close>

section \<open>State\<close>

record light_mutex_t =
  ms :: i32

record mutex_t = light_mutex_t +
  waiters_lock :: light_mutex_t
  waiters :: addr

record mutex_waiter_t =
  w_pid :: i32
  w_waiting :: bool
  w_next :: addr

definition LIGHT_MUTEX_INITIALIZER :: light_mutex_t where
  "LIGHT_MUTEX_INITIALIZER = \<lparr>ms = 0\<rparr>"

definition MUTEX_INITIALIZER :: mutex_t where
  "MUTEX_INITIALIZER = \<lparr>ms = 0, waiters_lock = \<lparr>ms = 0\<rparr>, waiters = NULL\<rparr>"

section \<open>The lock word\<close>

text \<open>\<open>xchg\<close> of a register and a memory cell: the new register and the new cell.\<close>

definition arch_exchange_rm :: "i32 \<Rightarrow> i32 \<Rightarrow> i32 \<times> i32" where
  "arch_exchange_rm reg mem = (mem, reg)"

definition mutex_try :: "'a light_mutex_t_scheme \<Rightarrow> (bool \<times> 'a light_mutex_t_scheme) outcome" where
  "mutex_try mutex =
     (let (i, s) = arch_exchange_rm 1 (ms mutex) in
      bindE (assertE (i = 1 \<or> i = 0)) (\<lambda>_. Inr (i = 0, mutex\<lparr>ms := s\<rparr>)))"

definition mutex_release :: "'a light_mutex_t_scheme \<Rightarrow> 'a light_mutex_t_scheme outcome" where
  "mutex_release mutex =
     (let (i, s) = arch_exchange_rm 0 (ms mutex) in
      bindE (assertE (i = 1)) (\<lambda>_. Inr (mutex\<lparr>ms := s\<rparr>)))"

text \<open>
  \<open>mutex_wait\<close> on the lock that \<open>get\<close> and \<open>put\<close> select in a larger state: every failed attempt
  yields to the next environment action.  The unused actions are returned with the state.
\<close>

fun mutex_wait :: "('s \<Rightarrow> 'a light_mutex_t_scheme) \<Rightarrow> ('a light_mutex_t_scheme \<Rightarrow> 's \<Rightarrow> 's) \<Rightarrow>
    ('s \<Rightarrow> 's) list \<Rightarrow> 's \<Rightarrow> ('s \<times> ('s \<Rightarrow> 's) list) run" where
  "mutex_wait get put envs st =
     (case mutex_try (get st) of
        Inl t \<Rightarrow> Some (Inl t)
      | Inr (ok, m) \<Rightarrow>
          if ok then Some (Inr (put m st, envs))
          else (case envs of [] \<Rightarrow> None
                | e # es \<Rightarrow> mutex_wait get put es (e (put m st))))"

text \<open>Spinning is the same loop; other processors or an interrupt act between two attempts.\<close>

fun mutex_busywait :: "('s \<Rightarrow> 'a light_mutex_t_scheme) \<Rightarrow> ('a light_mutex_t_scheme \<Rightarrow> 's \<Rightarrow> 's) \<Rightarrow>
    ('s \<Rightarrow> 's) list \<Rightarrow> 's \<Rightarrow> ('s \<times> ('s \<Rightarrow> 's) list) run" where
  "mutex_busywait get put envs st =
     (case mutex_try (get st) of
        Inl t \<Rightarrow> Some (Inl t)
      | Inr (ok, m) \<Rightarrow>
          if ok then Some (Inr (put m st, envs))
          else (case envs of [] \<Rightarrow> None
                | e # es \<Rightarrow> mutex_busywait get put es (e (put m st))))"

text \<open>Taking and releasing a lock of the state as steps of a procedure.\<close>

definition waitP :: "('s \<Rightarrow> 'a light_mutex_t_scheme) \<Rightarrow> ('a light_mutex_t_scheme \<Rightarrow> 's \<Rightarrow> 's) \<Rightarrow>
    ('s, unit) proc" where
  "waitP get put = (\<lambda>es s. bindR (mutex_wait get put es s) (\<lambda>(s', es'). Some (Inr ((), s', es'))))"

definition releaseP :: "('s \<Rightarrow> 'a light_mutex_t_scheme) \<Rightarrow> ('a light_mutex_t_scheme \<Rightarrow> 's \<Rightarrow> 's) \<Rightarrow>
    ('s, unit) proc" where
  "releaseP get put = stepP (\<lambda>s. bindE (mutex_release (get s)) (\<lambda>m. Inr (put m s)))"

section \<open>Waiters\<close>

type_synonym waiter_heap = "addr \<Rightarrow> mutex_waiter_t"

definition next_of_waiter :: "waiter_heap \<Rightarrow> addr \<Rightarrow> addr" where
  "next_of_waiter h a = w_next (h a)"

definition set_next_waiter :: "waiter_heap \<Rightarrow> addr \<Rightarrow> addr \<Rightarrow> waiter_heap" where
  "set_next_waiter h a b = h(a := (h a)\<lparr>w_next := b\<rparr>)"

text \<open>
  Attaching and detaching are given the list head and the store with the list lock held; the
  lock is taken before and released after by the two wrappers below, as in the source.
\<close>

definition attach_locked :: "i32 \<Rightarrow> addr \<Rightarrow> addr \<times> waiter_heap \<Rightarrow> (addr \<times> waiter_heap) option" where
  "attach_locked tid waiter lh =
     (let (list, h0) = lh;
          h = h0(waiter := \<lparr>w_pid = tid, w_waiting = True, w_next = NULL\<rparr>) in
      if list = NULL then Some (waiter, h)
      else (case walk_last (next_of_waiter h) list of
              None \<Rightarrow> None
            | Some w \<Rightarrow> Some (list, set_next_waiter h w waiter)))"

text \<open>The search of the detach loop asserts after each step that the list goes on.\<close>

partial_function (option) detach_search :: "waiter_heap \<Rightarrow> addr \<Rightarrow> addr \<Rightarrow> addr \<Rightarrow> addr run" where
  "detach_search h waiter parent ws =
     (if ws = waiter then Some (Inr parent)
      else if ws = NULL then Some (Inl Null_Deref)
      else if next_of_waiter h ws = NULL then Some (Inl Assert_Failed)
      else detach_search h waiter ws (next_of_waiter h ws))"

declare detach_search.simps [code]

definition detach_locked :: "addr \<Rightarrow> addr \<times> waiter_heap \<Rightarrow> (addr \<times> waiter_heap) run" where
  "detach_locked waiter lh =
     (let (list, h) = lh in
      if list = waiter then Some (Inr (next_of_waiter h waiter, h))
      else bindR (detach_search h waiter list (next_of_waiter h list)) (\<lambda>parent.
             Some (Inr (list, set_next_waiter h parent (next_of_waiter h waiter)))))"

text \<open>
  The arguments \<open>gl\<close>, \<open>pl\<close> select the list lock in the state the environment acts on, and
  \<open>gw\<close>, \<open>pw\<close> the list head together with the waiter structs of all tasks, where the source
  passes pointers.
\<close>

definition mutex_attach_waiter :: "('s \<Rightarrow> light_mutex_t) \<Rightarrow> (light_mutex_t \<Rightarrow> 's \<Rightarrow> 's) \<Rightarrow>
    ('s \<Rightarrow> addr \<times> waiter_heap) \<Rightarrow> (addr \<times> waiter_heap \<Rightarrow> 's \<Rightarrow> 's) \<Rightarrow>
    i32 \<Rightarrow> addr \<Rightarrow> ('s \<Rightarrow> 's) list \<Rightarrow> 's \<Rightarrow> ('s \<times> ('s \<Rightarrow> 's) list) run" where
  "mutex_attach_waiter gl pl gw pw tid waiter envs st =
     bindR (mutex_wait gl pl envs st) (\<lambda>(st1, es).
       case attach_locked tid waiter (gw st1) of
         None \<Rightarrow> None
       | Some lh \<Rightarrow> let st2 = pw lh st1 in
           Some (bindE (mutex_release (gl st2)) (\<lambda>l. Inr (pl l st2, es))))"

definition mutex_detach_waiter :: "('s \<Rightarrow> light_mutex_t) \<Rightarrow> (light_mutex_t \<Rightarrow> 's \<Rightarrow> 's) \<Rightarrow>
    ('s \<Rightarrow> addr \<times> waiter_heap) \<Rightarrow> (addr \<times> waiter_heap \<Rightarrow> 's \<Rightarrow> 's) \<Rightarrow>
    addr \<Rightarrow> ('s \<Rightarrow> 's) list \<Rightarrow> 's \<Rightarrow> ('s \<times> ('s \<Rightarrow> 's) list) run" where
  "mutex_detach_waiter gl pl gw pw waiter envs st =
     (if fst (gw st) = NULL then Some (Inl Assert_Failed)
      else bindR (mutex_wait gl pl envs st) (\<lambda>(st1, es).
        bindR (detach_locked waiter (gw st1)) (\<lambda>lh.
          let st2 = pw lh st1 in
          Some (bindE (mutex_release (gl st2)) (\<lambda>l. Inr (pl l st2, es))))))"

text \<open>\<open>while (waiter.waiting) pause();\<close>\<close>

fun sleep_while_waiting :: "('s \<Rightarrow> waiter_heap) \<Rightarrow> addr \<Rightarrow> ('s \<Rightarrow> 's) list \<Rightarrow> 's \<Rightarrow>
    ('s \<times> ('s \<Rightarrow> 's) list) run" where
  "sleep_while_waiting gh waiter envs st =
     (if w_waiting (gh st waiter) then
        (case envs of [] \<Rightarrow> None | e # es \<Rightarrow> sleep_while_waiting gh waiter es (e st))
      else Some (Inr (st, envs)))"

text \<open>A full mutex in a larger state: its list lock, and its list head with the structs.\<close>

abbreviation mutex_gl :: "('s \<Rightarrow> mutex_t) \<Rightarrow> 's \<Rightarrow> light_mutex_t" where
  "mutex_gl gm st \<equiv> waiters_lock (gm st)"

abbreviation mutex_pl ::
    "('s \<Rightarrow> mutex_t) \<Rightarrow> (mutex_t \<Rightarrow> 's \<Rightarrow> 's) \<Rightarrow> light_mutex_t \<Rightarrow> 's \<Rightarrow> 's" where
  "mutex_pl gm pm l st \<equiv> pm ((gm st)\<lparr>waiters_lock := l\<rparr>) st"

abbreviation mutex_gw ::
    "('s \<Rightarrow> mutex_t) \<Rightarrow> ('s \<Rightarrow> waiter_heap) \<Rightarrow> 's \<Rightarrow> addr \<times> waiter_heap" where
  "mutex_gw gm gh st \<equiv> (waiters (gm st), gh st)"

abbreviation mutex_pw :: "('s \<Rightarrow> mutex_t) \<Rightarrow> (mutex_t \<Rightarrow> 's \<Rightarrow> 's) \<Rightarrow>
    (waiter_heap \<Rightarrow> 's \<Rightarrow> 's) \<Rightarrow> addr \<times> waiter_heap \<Rightarrow> 's \<Rightarrow> 's" where
  "mutex_pw gm pm ph lh st \<equiv> ph (snd lh) (pm ((gm st)\<lparr>waiters := fst lh\<rparr>) st)"

text \<open>
  The loop of \<open>mutex_waitsleep\<close> after a failed exchange.  A freshly attached waiter is waiting, so
  every round consumes an environment action and one more round than there are actions is enough;
  \<open>n\<close> bounds the rounds, and \<open>i\<close> is the register that the next exchange stores.
\<close>

fun waitsleep_loop :: "('s \<Rightarrow> mutex_t) \<Rightarrow> (mutex_t \<Rightarrow> 's \<Rightarrow> 's) \<Rightarrow> ('s \<Rightarrow> waiter_heap) \<Rightarrow>
    (waiter_heap \<Rightarrow> 's \<Rightarrow> 's) \<Rightarrow> nat \<Rightarrow> i32 \<Rightarrow> i32 \<Rightarrow> addr \<Rightarrow> ('s \<Rightarrow> 's) list \<Rightarrow> 's \<Rightarrow>
    ('s \<times> ('s \<Rightarrow> 's) list) run" where
  "waitsleep_loop gm pm gh ph 0 i tid waiter envs st = None"
| "waitsleep_loop gm pm gh ph (Suc n) i tid waiter envs st =
     bindR (mutex_attach_waiter (mutex_gl gm) (mutex_pl gm pm) (mutex_gw gm gh) (mutex_pw gm pm ph)
       tid waiter envs st) (\<lambda>(st1, es1).
     bindR (sleep_while_waiting gh waiter es1 st1) (\<lambda>(st2, es2).
     bindR (mutex_detach_waiter (mutex_gl gm) (mutex_pl gm pm) (mutex_gw gm gh) (mutex_pw gm pm ph)
       waiter es2 st2) (\<lambda>(st3, es3).
       let (i', s) = arch_exchange_rm i (ms (gm st3)); st4 = pm ((gm st3)\<lparr>ms := s\<rparr>) st3 in
       if i' \<noteq> 0 then waitsleep_loop gm pm gh ph n i' tid waiter es3 st4
       else Some (Inr (st4, es3)))))"

definition mutex_waitsleep :: "('s \<Rightarrow> mutex_t) \<Rightarrow> (mutex_t \<Rightarrow> 's \<Rightarrow> 's) \<Rightarrow> ('s \<Rightarrow> waiter_heap) \<Rightarrow>
    (waiter_heap \<Rightarrow> 's \<Rightarrow> 's) \<Rightarrow> i32 \<Rightarrow> addr \<Rightarrow> ('s \<Rightarrow> 's) list \<Rightarrow> 's \<Rightarrow>
    ('s \<times> ('s \<Rightarrow> 's) list) run" where
  "mutex_waitsleep gm pm gh ph tid waiter envs st =
     (let (i, s) = arch_exchange_rm 1 (ms (gm st)); st0 = pm ((gm st)\<lparr>ms := s\<rparr>) st in
      if i \<noteq> 0 then waitsleep_loop gm pm gh ph (Suc (length envs)) i tid waiter envs st0
      else Some (Inr (st0, envs)))"

text \<open>The state around one mutex alone.\<close>

type_synonym mutex_state = "mutex_t \<times> waiter_heap"

abbreviation put_mutex :: "mutex_t \<Rightarrow> mutex_state \<Rightarrow> mutex_state" where
  "put_mutex m st \<equiv> (m, snd st)"

abbreviation put_heap :: "waiter_heap \<Rightarrow> mutex_state \<Rightarrow> mutex_state" where
  "put_heap h st \<equiv> (fst st, h)"

abbreviation attach_waiter :: "i32 \<Rightarrow> addr \<Rightarrow> (mutex_state \<Rightarrow> mutex_state) list \<Rightarrow> mutex_state \<Rightarrow>
    (mutex_state \<times> (mutex_state \<Rightarrow> mutex_state) list) run" where
  "attach_waiter \<equiv> mutex_attach_waiter (mutex_gl fst) (mutex_pl fst put_mutex)
     (mutex_gw fst snd) (mutex_pw fst put_mutex put_heap)"

abbreviation detach_waiter :: "addr \<Rightarrow> (mutex_state \<Rightarrow> mutex_state) list \<Rightarrow> mutex_state \<Rightarrow>
    (mutex_state \<times> (mutex_state \<Rightarrow> mutex_state) list) run" where
  "detach_waiter \<equiv> mutex_detach_waiter (mutex_gl fst) (mutex_pl fst put_mutex)
     (mutex_gw fst snd) (mutex_pw fst put_mutex put_heap)"

text \<open>The pid that \<open>mutex_releasesleep\<close> sends \<open>SIGCONT\<close> to, if any, is part of its result.\<close>

definition mutex_releasesleep :: "mutex_state \<Rightarrow> (mutex_state \<times> i32 option) outcome" where
  "mutex_releasesleep st =
     (let (m, h) = st; (i, s) = arch_exchange_rm 0 (ms m); m' = m\<lparr>ms := s\<rparr> in
      bindE (assertE (i = 1)) (\<lambda>_.
      let w = waiters m' in
      if w \<noteq> NULL then Inr ((m', h(w := (h w)\<lparr>w_waiting := False\<rparr>)), Some (w_pid (h w)))
      else Inr ((m', h), None)))"

section \<open>Mutual exclusion\<close>

text \<open>
  Tasks that contend for one lock word, interleaved at every exchange.  A task is outside,
  inside \<open>mutex_wait\<close>, in its critical section, or stopped by a trap of a mutex operation.
\<close>

datatype pc = Outside | Waiting | Critical | Trapped

record lock_system =
  lock :: light_mutex_t
  pcs :: "nat \<Rightarrow> pc"

inductive lock_step :: "lock_system \<Rightarrow> lock_system \<Rightarrow> bool" where
  enter: "pcs s t = Outside \<Longrightarrow> lock_step s (s\<lparr>pcs := (pcs s)(t := Waiting)\<rparr>)"
| acquire: "pcs s t = Waiting \<Longrightarrow> mutex_try (lock s) = Inr (True, m) \<Longrightarrow>
    lock_step s (s\<lparr>lock := m, pcs := (pcs s)(t := Critical)\<rparr>)"
| spin: "pcs s t = Waiting \<Longrightarrow> mutex_try (lock s) = Inr (False, m) \<Longrightarrow>
    lock_step s (s\<lparr>lock := m\<rparr>)"
| leave: "pcs s t = Critical \<Longrightarrow> mutex_release (lock s) = Inr m \<Longrightarrow>
    lock_step s (s\<lparr>lock := m, pcs := (pcs s)(t := Outside)\<rparr>)"
| try_trap: "pcs s t = Waiting \<Longrightarrow> mutex_try (lock s) = Inl e \<Longrightarrow>
    lock_step s (s\<lparr>pcs := (pcs s)(t := Trapped)\<rparr>)"
| release_trap: "pcs s t = Critical \<Longrightarrow> mutex_release (lock s) = Inl e \<Longrightarrow>
    lock_step s (s\<lparr>pcs := (pcs s)(t := Trapped)\<rparr>)"

inductive_cases lock_stepE: "lock_step s s'"

definition lock_init :: lock_system where
  "lock_init = \<lparr>lock = LIGHT_MUTEX_INITIALIZER, pcs = \<lambda>_. Outside\<rparr>"

definition lock_inv :: "lock_system \<Rightarrow> bool" where
  "lock_inv s = ((\<forall>t. pcs s t \<noteq> Trapped) \<and> (ms (lock s) = 0 \<or> ms (lock s) = 1) \<and>
     (ms (lock s) = 1 \<longleftrightarrow> (\<exists>t. pcs s t = Critical)) \<and>
     (\<forall>t u. pcs s t = Critical \<longrightarrow> pcs s u = Critical \<longrightarrow> t = u))"

section \<open>Sleeping waiters, interleaved\<close>

text \<open>
  The same system for \<open>mutex_waitsleep\<close> and \<open>mutex_releasesleep\<close>, where a task may be preempted
  between the exchange and the attachment of its waiter struct.  Task \<open>t\<close> has its struct at
  address \<open>t\<close> and thread id \<open>t\<close>.
\<close>

datatype sleep_pc = S_Outside | S_Attach | S_Asleep | S_Retry | S_Critical

record sleep_system =
  smutex :: mutex_t
  sheap :: waiter_heap
  spcs :: "addr \<Rightarrow> sleep_pc"

definition exchange_next :: "i32 \<Rightarrow> sleep_pc" where
  "exchange_next i = (if i \<noteq> 0 then S_Attach else S_Critical)"

inductive sleep_step :: "addr \<Rightarrow> sleep_system \<Rightarrow> sleep_system \<Rightarrow> bool" where
  s_exchange: "spcs s t = S_Outside \<or> spcs s t = S_Retry \<Longrightarrow>
    (i, v) = arch_exchange_rm 1 (ms (smutex s)) \<Longrightarrow>
    sleep_step t s (s\<lparr>smutex := (smutex s)\<lparr>ms := v\<rparr>, spcs := (spcs s)(t := exchange_next i)\<rparr>)"
| s_attach: "spcs s t = S_Attach \<Longrightarrow>
    attach_locked t t (waiters (smutex s), sheap s) = Some (list, h) \<Longrightarrow>
    sleep_step t s (s\<lparr>smutex := (smutex s)\<lparr>waiters := list\<rparr>, sheap := h,
      spcs := (spcs s)(t := S_Asleep)\<rparr>)"
| s_wake: "spcs s t = S_Asleep \<Longrightarrow> \<not> w_waiting (sheap s t) \<Longrightarrow>
    detach_locked t (waiters (smutex s), sheap s) = Some (Inr (list, h)) \<Longrightarrow>
    sleep_step t s (s\<lparr>smutex := (smutex s)\<lparr>waiters := list\<rparr>, sheap := h,
      spcs := (spcs s)(t := S_Retry)\<rparr>)"
| s_release: "spcs s t = S_Critical \<Longrightarrow>
    mutex_releasesleep (smutex s, sheap s) = Inr ((m, h), k) \<Longrightarrow>
    sleep_step t s (s\<lparr>smutex := m, sheap := h, spcs := (spcs s)(t := S_Outside)\<rparr>)"

inductive_cases sleep_stepE: "sleep_step t s s'"

inductive sleep_reach :: "sleep_system \<Rightarrow> sleep_system \<Rightarrow> bool" where
  sr_refl: "sleep_reach s s"
| sr_step: "sleep_reach s s' \<Longrightarrow> sleep_step t s' s'' \<Longrightarrow> sleep_reach s s''"

definition sleep_init :: sleep_system where
  "sleep_init = \<lparr>smutex = MUTEX_INITIALIZER,
     sheap = \<lambda>_. \<lparr>w_pid = 0, w_waiting = False, w_next = NULL\<rparr>, spcs = \<lambda>_. S_Outside\<rparr>"

section \<open>Lemmas\<close>

text \<open>
  A mutex contains a light mutex and is one; the simplifier needs the independence of the two
  lock words spelled out.
\<close>

lemma mutex_fields [simp]:
  fixes m :: mutex_t
  shows "waiters_lock (m\<lparr>ms := v\<rparr>) = waiters_lock m"
    and "ms (m\<lparr>waiters_lock := l\<rparr>) = ms m"
    and "m\<lparr>waiters_lock := l, ms := v\<rparr> = m\<lparr>ms := v, waiters_lock := l\<rparr>"
    and "m\<lparr>waiters := w, ms := v\<rparr> = m\<lparr>ms := v, waiters := w\<rparr>"
    and "waiters_lock m = l \<Longrightarrow> m\<lparr>waiters_lock := l\<rparr> = m"
    and "ms m = v \<Longrightarrow> m\<lparr>ms := v\<rparr> = m"
  by (cases m; simp)+

lemma light_mutex_same [simp]: "ms l = v \<Longrightarrow> l\<lparr>ms := v\<rparr> = l" for l :: light_mutex_t
  by (cases l) simp

declare mutex_wait.simps [simp del] mutex_busywait.simps [simp del] sleep_while_waiting.simps [simp del]

lemma mutex_try_free: "ms m = 0 \<Longrightarrow> mutex_try m = Inr (True, m\<lparr>ms := 1\<rparr>)"
  by (simp add: mutex_try_def arch_exchange_rm_def)

lemma mutex_try_held: "ms m = 1 \<Longrightarrow> mutex_try m = Inr (False, m)"
  by (simp add: mutex_try_def arch_exchange_rm_def)

lemma mutex_release_held: "ms m = 1 \<Longrightarrow> mutex_release m = Inr (m\<lparr>ms := 0\<rparr>)"
  by (simp add: mutex_release_def arch_exchange_rm_def)

lemma mutex_release_free: "ms m = 0 \<Longrightarrow> mutex_release m = Inl Assert_Failed"
  by (simp add: mutex_release_def arch_exchange_rm_def assertE_def)

lemma mutex_try_iff:
  "mutex_try m = Inr (True, m') \<longleftrightarrow> ms m = 0 \<and> m' = m\<lparr>ms := 1\<rparr>"
  "mutex_try m = Inr (False, m') \<longleftrightarrow> ms m = 1 \<and> m' = m"
  "mutex_try m = Inl e \<longleftrightarrow> ms m \<noteq> 0 \<and> ms m \<noteq> 1 \<and> e = Assert_Failed"
  by (auto simp: mutex_try_def arch_exchange_rm_def assertE_def)

lemma mutex_release_iff:
  "mutex_release m = Inr m' \<longleftrightarrow> ms m = 1 \<and> m' = m\<lparr>ms := 0\<rparr>"
  "mutex_release m = Inl e \<longleftrightarrow> ms m \<noteq> 1 \<and> e = Assert_Failed"
  by (auto simp: mutex_release_def arch_exchange_rm_def assertE_def)

lemmas mutex_word_simps = mutex_try_free mutex_try_held mutex_release_held mutex_release_free

lemma mutex_wait_free:
  "ms (get st) = 0 \<Longrightarrow> mutex_wait get put envs st = Some (Inr (put ((get st)\<lparr>ms := 1\<rparr>) st, envs))"
  by (subst mutex_wait.simps) (simp add: mutex_try_free)

lemma run_waitP: "ms (get s) = 0 \<Longrightarrow> waitP get put es s = Some (Inr ((), put ((get s)\<lparr>ms := 1\<rparr>) s, es))"
  by (simp add: waitP_def mutex_wait_free)

lemma run_releaseP: "ms (get s) = 1 \<Longrightarrow> releaseP get put es s = Some (Inr ((), put ((get s)\<lparr>ms := 0\<rparr>) s, es))"
  by (simp add: releaseP_def mutex_release_held)

lemma mutex_busywait_eq_wait: "mutex_busywait get put envs st = mutex_wait get put envs st"
proof (induction envs arbitrary: st)
  case Nil
  show ?case by (subst mutex_wait.simps, subst mutex_busywait.simps) (auto split: sum.split)
next
  case (Cons e es)
  show ?case by (subst mutex_wait.simps, subst mutex_busywait.simps) (auto simp: Cons.IH split: sum.split)
qed

interpretation waiter_cells: linked_cells next_of_waiter set_next_waiter
  by unfold_locales (auto simp: next_of_waiter_def set_next_waiter_def)

lemma lock_inv_init: "lock_inv lock_init"
  by (simp add: lock_inv_def lock_init_def LIGHT_MUTEX_INITIALIZER_def)

lemma lock_invD:
  assumes "lock_inv s"
  shows "pcs s t \<noteq> Trapped" "ms (lock s) = 0 \<or> ms (lock s) = 1"
    "pcs s t = Critical \<Longrightarrow> ms (lock s) = 1" "ms (lock s) = 0 \<Longrightarrow> pcs s t \<noteq> Critical"
    "pcs s t = Critical \<Longrightarrow> pcs s u = Critical \<Longrightarrow> t = u"
  using assms by (auto simp: lock_inv_def)

lemma lock_inv_step: "lock_step s s' \<Longrightarrow> lock_inv s \<Longrightarrow> lock_inv s'"
proof (induction rule: lock_step.induct)
  case (enter s t)
  then show ?case by (force simp: lock_inv_def)
next
  case (acquire s t m)
  then show ?case by (auto simp: lock_inv_def mutex_try_iff)
next
  case (spin s t m)
  then show ?case by (simp add: mutex_try_iff)
next
  case (leave s t m)
  then show ?case by (auto simp: lock_inv_def mutex_release_iff)
next
  case (try_trap s t e)
  then show ?case using lock_invD(2) by (auto simp: mutex_try_iff)
next
  case (release_trap s t e)
  then show ?case using lock_invD(3) by (auto simp: mutex_release_iff)
qed

section \<open>The waiter list\<close>

text \<open>The waiters, oldest first, as the list the structs form.\<close>

definition waiter_list :: "waiter_heap \<Rightarrow> addr \<Rightarrow> addr list \<Rightarrow> bool" where
  "waiter_list h p xs = chain (next_of_waiter h) p xs NULL"

lemma waiter_list_distinct: "waiter_list h p xs \<Longrightarrow> distinct xs"
  by (auto simp: waiter_list_def dest: chain_distinct)

lemma next_of_new_waiter [simp]:
  "next_of_waiter (h(a := \<lparr>w_pid = t, w_waiting = b, w_next = n\<rparr>)) = (next_of_waiter h)(a := n)"
  by (auto simp: next_of_waiter_def)

lemma set_next_waiter_fields [simp]:
  "w_waiting (set_next_waiter h a b c) = w_waiting (h c)"
  "w_pid (set_next_waiter h a b c) = w_pid (h c)"
  by (simp_all add: set_next_waiter_def)

lemma attach_locked_list:
  assumes "waiter_list h p xs" "waiter \<noteq> NULL" "waiter \<notin> set xs"
  obtains p' h' where "attach_locked tid waiter (p, h) = Some (p', h')"
    "waiter_list h' p' (xs @ [waiter])" "w_waiting (h' waiter)" "w_pid (h' waiter) = tid"
    "\<And>a. a \<noteq> waiter \<Longrightarrow> w_waiting (h' a) = w_waiting (h a) \<and> w_pid (h' a) = w_pid (h a)"
proof (cases xs rule: rev_cases)
  case Nil
  then show ?thesis
    using that [of waiter] assms by (simp add: attach_locked_def waiter_list_def)
next
  case (snoc ys y)
  let ?h = "h(waiter := \<lparr>w_pid = tid, w_waiting = True, w_next = NULL\<rparr>)"
  have c: "chain (next_of_waiter ?h) p (ys @ [y]) NULL"
    using assms snoc by (simp add: waiter_list_def chain_upd_other)
  then have "p \<noteq> NULL" by (cases ys) auto
  moreover note waiter_cells.append_last [OF c assms(2)] assms(3) snoc
  ultimately show ?thesis
    using that [of p "set_next_waiter ?h y waiter"]
    by (simp add: attach_locked_def waiter_list_def)
qed

lemma detach_search_chain:
  "chain (next_of_waiter h) p us x \<Longrightarrow> x \<notin> set us \<Longrightarrow> x \<noteq> NULL \<Longrightarrow>
   detach_search h x parent p = Some (Inr (last (parent # us)))"
proof (induction us arbitrary: p parent)
  case Nil
  then show ?case by (simp add: detach_search.simps)
next
  case (Cons y us)
  then have "next_of_waiter h y \<noteq> NULL" by (cases us) auto
  with Cons show ?case by (auto simp: detach_search.simps [of h x parent y])
qed

lemma detach_locked_list:
  assumes "waiter_list h p xs" "waiter \<in> set xs"
  obtains p' h' where "detach_locked waiter (p, h) = Some (Inr (p', h'))"
    "waiter_list h' p' (remove1 waiter xs)"
    "\<And>a. w_waiting (h' a) = w_waiting (h a) \<and> w_pid (h' a) = w_pid (h a)"
proof (cases xs)
  case Nil
  then show ?thesis using assms by simp
next
  case (Cons y ys)
  show ?thesis
  proof (cases "y = waiter")
    case True
    then show ?thesis
      using that [of "next_of_waiter h waiter" h] assms Cons
      by (simp add: detach_locked_def waiter_list_def)
  next
    case False
    with assms(2) Cons obtain us vs where ys: "ys = us @ waiter # vs" by (auto dest: split_list)
    have c: "chain (next_of_waiter h) p (y # us @ waiter # vs) NULL"
      using assms(1) Cons ys by (simp add: waiter_list_def)
    then have d: "waiter \<notin> set us" "p = y" "waiter \<noteq> NULL" using chain_distinct [OF c] by auto
    from c have "detach_search h waiter p (next_of_waiter h p) = Some (Inr (last (p # us)))"
      by (intro detach_search_chain) (use d in auto)
    moreover have "remove1 waiter xs = y # us @ vs"
      using Cons ys d False by (simp add: remove1_append)
    ultimately show ?thesis
      using that [of p "set_next_waiter h (last (y # us)) (next_of_waiter h waiter)"]
        waiter_cells.remove_inner(2) [OF c] d False
      by (simp add: detach_locked_def waiter_list_def)
  qed
qed

text \<open>C26. Mutual exclusion: in every interleaving of tasks that take and release one lock word,
  started from the initialiser, at most one task is in its critical section, the lock word is 1
  exactly while one is, and no assertion of \<open>mutex_try\<close> or \<open>mutex_release\<close> ever fails.\<close>

theorem mutex_mutual_exclusion:
  assumes "lock_step\<^sup>*\<^sup>* lock_init s"
  shows "(pcs s t = Critical \<longrightarrow> pcs s u = Critical \<longrightarrow> t = u) \<and> pcs s t \<noteq> Trapped \<and>
    (ms (lock s) = 1 \<longleftrightarrow> (\<exists>v. pcs s v = Critical))"
proof -
  from assms have "lock_inv s"
    by (induction rule: rtranclp_induct) (auto intro: lock_inv_init lock_inv_step)
  then show ?thesis by (auto simp: lock_inv_def)
qed

text \<open>Task 1 takes the lock while task 2 spins.\<close>

definition sample_contended :: lock_system where
  "sample_contended = \<lparr>lock = \<lparr>ms = 1\<rparr>, pcs = (\<lambda>_. Outside)(1 := Critical, 2 := Waiting)\<rparr>"

lemma sample_contended_reached: "lock_step\<^sup>*\<^sup>* lock_init sample_contended"
proof -
  let ?s1 = "lock_init\<lparr>pcs := (pcs lock_init)(1 := Waiting)\<rparr>"
  let ?s2 = "?s1\<lparr>pcs := (pcs ?s1)(2 := Waiting)\<rparr>"
  let ?s3 = "?s2\<lparr>lock := \<lparr>ms = 1\<rparr>, pcs := (pcs ?s2)(1 := Critical)\<rparr>"
  have "lock_step lock_init ?s1" by (rule enter) (simp add: lock_init_def)
  moreover have "lock_step ?s1 ?s2" by (rule enter) (simp add: lock_init_def)
  moreover have "lock_step ?s2 ?s3"
    by (rule acquire) (simp_all add: lock_init_def LIGHT_MUTEX_INITIALIZER_def mutex_try_iff)
  moreover have "?s3 = sample_contended"
    by (auto simp: sample_contended_def lock_init_def)
  ultimately show ?thesis by (metis converse_rtranclp_into_rtranclp rtranclp.rtrancl_refl)
qed

theorem mutex_mutual_exclusion_witness:
  "pcs sample_contended 1 = Critical \<and> pcs sample_contended 2 = Waiting \<and>
   ms (lock sample_contended) = 1"
  using mutex_mutual_exclusion [OF sample_contended_reached, of 1 2]
  by (auto simp: sample_contended_def)

lemma wlock_wait_free:
  "ms (waiters_lock m) = 0 \<Longrightarrow> mutex_wait (mutex_gl fst) (mutex_pl fst put_mutex) envs (m, h) =
   Some (Inr ((m\<lparr>waiters_lock := (waiters_lock m)\<lparr>ms := 1\<rparr>\<rparr>, h), envs))"
  by (simp add: mutex_wait_free)

lemma attach_waiter_list:
  assumes "waiter_list h (waiters m) xs" "waiter \<noteq> NULL" "waiter \<notin> set xs"
    "ms (waiters_lock m) = 0"
  obtains p h' where "attach_waiter tid waiter envs (m, h) =
      Some (Inr ((m\<lparr>waiters := p\<rparr>, h'), envs))"
    "waiter_list h' p (xs @ [waiter])" "w_waiting (h' waiter)" "w_pid (h' waiter) = tid"
    "\<And>a. a \<noteq> waiter \<Longrightarrow> w_waiting (h' a) = w_waiting (h a) \<and> w_pid (h' a) = w_pid (h a)"
proof -
  obtain p h' where "attach_locked tid waiter (waiters m, h) = Some (p, h')"
    "waiter_list h' p (xs @ [waiter])" "w_waiting (h' waiter)" "w_pid (h' waiter) = tid"
    "\<And>a. a \<noteq> waiter \<Longrightarrow> w_waiting (h' a) = w_waiting (h a) \<and> w_pid (h' a) = w_pid (h a)"
    by (rule attach_locked_list [OF assms(1-3)]) blast
  then show ?thesis
    using that assms(4) wlock_wait_free [OF assms(4), of envs h]
    by (simp add: mutex_attach_waiter_def mutex_release_held)
qed

lemma detach_waiter_list:
  assumes "waiter_list h (waiters m) xs" "waiter \<in> set xs" "ms (waiters_lock m) = 0"
  obtains p h' where "detach_waiter waiter envs (m, h) =
      Some (Inr ((m\<lparr>waiters := p\<rparr>, h'), envs))"
    "waiter_list h' p (remove1 waiter xs)"
    "\<And>a. w_waiting (h' a) = w_waiting (h a) \<and> w_pid (h' a) = w_pid (h a)"
proof -
  obtain p h' where "detach_locked waiter (waiters m, h) = Some (Inr (p, h'))"
    "waiter_list h' p (remove1 waiter xs)"
    "\<And>a. w_waiting (h' a) = w_waiting (h a) \<and> w_pid (h' a) = w_pid (h a)"
    by (rule detach_locked_list [OF assms(1,2)]) blast
  moreover have "waiters m \<noteq> NULL" using assms(1,2) by (auto simp: waiter_list_def)
  ultimately show ?thesis
    using that assms(3) wlock_wait_free [OF assms(3), of envs h]
    by (simp add: mutex_detach_waiter_def mutex_release_held)
qed

text \<open>C27. The waiter list is a queue: attaching puts the struct behind the waiters already
  there, detaching takes exactly that struct out from wherever it is, and the list lock is free
  again after both; the release wakes the waiter that has waited longest.\<close>

theorem mutex_waiters_fifo:
  assumes "waiter_list h (waiters m) xs" "waiter \<noteq> NULL" "waiter \<notin> set xs"
    "ms (waiters_lock m) = 0" "ms m = 1"
  shows "\<exists>p h1. attach_waiter tid waiter envs (m, h) = Some (Inr ((m\<lparr>waiters := p\<rparr>, h1), envs)) \<and>
     waiter_list h1 p (xs @ [waiter]) \<and>
     (\<exists>h2. mutex_releasesleep (m\<lparr>waiters := p\<rparr>, h1) =
         Inr ((m\<lparr>waiters := p, ms := 0\<rparr>, h2), Some (w_pid (h1 (hd (xs @ [waiter]))))) \<and>
       \<not> w_waiting (h2 (hd (xs @ [waiter])))) \<and>
     (\<forall>y \<in> set (xs @ [waiter]). \<exists>q h3.
        detach_waiter y envs (m\<lparr>waiters := p\<rparr>, h1) = Some (Inr ((m\<lparr>waiters := q\<rparr>, h3), envs)) \<and>
        waiter_list h3 q (remove1 y (xs @ [waiter])))"
proof -
  obtain p h1 where a: "attach_waiter tid waiter envs (m, h) =
      Some (Inr ((m\<lparr>waiters := p\<rparr>, h1), envs))" "waiter_list h1 p (xs @ [waiter])"
    by (rule attach_waiter_list [OF assms(1-4)]) blast
  then have p: "p = hd (xs @ [waiter])" "p \<noteq> NULL"
    by (cases xs; auto simp: waiter_list_def)+
  have "\<exists>q h3. detach_waiter y envs (m\<lparr>waiters := p\<rparr>, h1) =
      Some (Inr ((m\<lparr>waiters := q\<rparr>, h3), envs)) \<and> waiter_list h3 q (remove1 y (xs @ [waiter]))"
    if "y \<in> set (xs @ [waiter])" for y
  proof -
    have "waiter_list h1 (waiters (m\<lparr>waiters := p\<rparr>)) (xs @ [waiter])" using a(2) by simp
    then show ?thesis
      by (rule detach_waiter_list [OF _ that, where envs = envs]) (use assms(4) in auto)
  qed
  moreover have "mutex_releasesleep (m\<lparr>waiters := p\<rparr>, h1) = Inr ((m\<lparr>waiters := p, ms := 0\<rparr>,
      h1(p := (h1 p)\<lparr>w_waiting := False\<rparr>)), Some (w_pid (h1 p)))"
    using assms(5) p(2) by (simp add: mutex_releasesleep_def arch_exchange_rm_def)
  moreover have "\<not> w_waiting ((h1(p := (h1 p)\<lparr>w_waiting := False\<rparr>)) p)" by simp
  ultimately show ?thesis using a p(1) by blast
qed

text \<open>A held mutex nobody waits for.\<close>

definition sample_held :: mutex_t where
  "sample_held = MUTEX_INITIALIZER\<lparr>ms := 1\<rparr>"

definition sample_heap :: waiter_heap where
  "sample_heap = (\<lambda>_. \<lparr>w_pid = 0, w_waiting = False, w_next = NULL\<rparr>)"

lemma sample_held_simps [simp]: "ms sample_held = 1" "waiters sample_held = NULL"
  "ms (waiters_lock sample_held) = 0" "waiter_list sample_heap NULL []"
  by (simp_all add: sample_held_def MUTEX_INITIALIZER_def waiter_list_def)

theorem mutex_waiters_fifo_witness:
  "\<exists>p h1. attach_waiter 5 64 [] (sample_held, sample_heap) =
     Some (Inr ((sample_held\<lparr>waiters := p\<rparr>, h1), [])) \<and> waiter_list h1 p [64]"
  using mutex_waiters_fifo [of sample_heap sample_held "[]" 64 5 "[]"] by auto

text \<open>
  What the rest of the system does: the holder releases the mutex; the task whose struct is at \<open>w\<close>
  has been woken, detaches its struct, exchanges the lock word and later releases the mutex.
\<close>

definition holder_releases :: "mutex_state \<Rightarrow> mutex_state" where
  "holder_releases st = (case mutex_releasesleep st of Inl _ \<Rightarrow> st | Inr (st', _) \<Rightarrow> st')"

definition waiter_takes :: "addr \<Rightarrow> mutex_state \<Rightarrow> mutex_state" where
  "waiter_takes w st =
     (if w_waiting (snd st w) then st
      else case detach_waiter w [] st of
          Some (Inr ((m, h), _)) \<Rightarrow>
            let (i, s) = arch_exchange_rm 1 (ms m) in if i = 0 then (m\<lparr>ms := s\<rparr>, h) else st
        | _ \<Rightarrow> st)"

definition waiter_turn :: "addr \<Rightarrow> mutex_state \<Rightarrow> mutex_state" where
  "waiter_turn w st = holder_releases (waiter_takes w st)"

lemma holder_releases_eq:
  assumes "ms m = 1" "waiter_list h (waiters m) (w # ws)"
  shows "holder_releases (m, h) = (m\<lparr>ms := 0\<rparr>, h(w := (h w)\<lparr>w_waiting := False\<rparr>))"
  using assms by (auto simp: holder_releases_def mutex_releasesleep_def arch_exchange_rm_def waiter_list_def)

lemma waiter_list_wake [simp]:
  "waiter_list (h(a := (h a)\<lparr>w_waiting := b\<rparr>)) p ws = waiter_list h p ws"
proof -
  have "next_of_waiter (h(a := (h a)\<lparr>w_waiting := b\<rparr>)) = next_of_waiter h" by (auto simp: next_of_waiter_def)
  then show ?thesis by (simp add: waiter_list_def)
qed

lemma waiter_takes_run:
  assumes "ms m = 0" "waiter_list h (waiters m) (w # ws)" "ms (waiters_lock m) = 0" "\<not> w_waiting (h w)"
  obtains p h' where "waiter_takes w (m, h) = (m\<lparr>waiters := p, ms := 1\<rparr>, h')" "waiter_list h' p ws"
    "\<And>a. w_waiting (h' a) = w_waiting (h a)"
proof -
  obtain p h' where "detach_waiter w [] (m, h) = Some (Inr ((m\<lparr>waiters := p\<rparr>, h'), []))"
    "waiter_list h' p (remove1 w (w # ws))" "\<And>a. w_waiting (h' a) = w_waiting (h a) \<and> w_pid (h' a) = w_pid (h a)"
    by (rule detach_waiter_list [OF assms(2) _ assms(3), where waiter = w and envs = "[]"]) auto
  with that [of p h'] assms show ?thesis by (simp add: waiter_takes_def arch_exchange_rm_def)
qed

text \<open>
  A sleeping task is served in its turn: the release and the turns of the waiters ahead of it wake
  it, and with any of them missing it still sleeps.
\<close>

lemma sleep_turns:
  assumes "ms m = 1" "waiter_list h (waiters m) (ws @ [waiter])" "ms (waiters_lock m) = 0" "w_waiting (h waiter)"
  shows "(\<exists>p h'. sleep_while_waiting snd waiter (holder_releases # map waiter_turn ws @ acts) (m, h) =
      Some (Inr ((m\<lparr>waiters := p, ms := 0\<rparr>, h'), acts)) \<and> waiter_list h' p [waiter]) \<and>
    (\<forall>k \<le> length ws. sleep_while_waiting snd waiter
      (take k (holder_releases # map waiter_turn ws)) (m, h) = None)"
  using assms
proof (induction ws arbitrary: m h)
  case Nil
  then have "waiter_list h (waiters m) [waiter]" by simp
  with Nil have rel: "holder_releases (m, h) = (m\<lparr>ms := 0\<rparr>, h(waiter := (h waiter)\<lparr>w_waiting := False\<rparr>))"
    by (intro holder_releases_eq)
  have "m\<lparr>ms := 0\<rparr> = m\<lparr>waiters := waiters m, ms := 0\<rparr>" by (cases m) simp
  then have "sleep_while_waiting snd waiter (holder_releases # acts) (m, h) = Some (Inr ((m\<lparr>waiters := waiters m,
      ms := 0\<rparr>, h(waiter := (h waiter)\<lparr>w_waiting := False\<rparr>)), acts))"
    using Nil(4) rel by (simp add: sleep_while_waiting.simps)
  moreover have "waiter_list (h(waiter := (h waiter)\<lparr>w_waiting := False\<rparr>)) (waiters m) [waiter]"
    using Nil(2) by simp
  moreover have "sleep_while_waiting snd waiter [] (m, h) = None"
    using Nil(4) by (simp add: sleep_while_waiting.simps)
  ultimately show ?case unfolding list.map append.simps
    by (intro conjI exI) (assumption | simp)+
next
  case (Cons w ws)
  let ?h1 = "h(w := (h w)\<lparr>w_waiting := False\<rparr>)"
  have rel: "holder_releases (m, h) = (m\<lparr>ms := 0\<rparr>, ?h1)"
    using Cons.prems by (intro holder_releases_eq) auto
  have ne: "w \<noteq> waiter" using waiter_list_distinct [OF Cons.prems(2)] by auto
  obtain p h2 where take: "waiter_takes w (m\<lparr>ms := 0\<rparr>, ?h1) = (m\<lparr>waiters := p, ms := 1\<rparr>, h2)"
    "waiter_list h2 p (ws @ [waiter])" "\<And>a. w_waiting (h2 a) = w_waiting (?h1 a)"
    by (rule waiter_takes_run [of "m\<lparr>ms := 0\<rparr>" ?h1 w "ws @ [waiter]"]) (use Cons.prems in auto)
  let ?m2 = "m\<lparr>waiters := p, ms := 1\<rparr>"
  have step: "sleep_while_waiting snd waiter (holder_releases # waiter_turn w # es) (m, h) =
      sleep_while_waiting snd waiter (holder_releases # es) (?m2, h2)" for es
    using Cons.prems(4) ne take(1,3) rel by (simp add: sleep_while_waiting.simps waiter_turn_def)
  have IH: "(\<exists>q h'. sleep_while_waiting snd waiter (holder_releases # map waiter_turn ws @ acts) (?m2, h2) =
      Some (Inr ((?m2\<lparr>waiters := q, ms := 0\<rparr>, h'), acts)) \<and> waiter_list h' q [waiter]) \<and>
    (\<forall>k \<le> length ws. sleep_while_waiting snd waiter
      (take k (holder_releases # map waiter_turn ws)) (?m2, h2) = None)"
    by (rule Cons.IH) (use take Cons.prems ne in auto)
  have "sleep_while_waiting snd waiter (take k (holder_releases # map waiter_turn (w # ws))) (m, h) = None"
    if "k \<le> length (w # ws)" for k
  proof (cases k)
    case (Suc j)
    show ?thesis
    proof (cases j)
      case 0
      with Suc show ?thesis using Cons.prems(4) ne rel by (simp add: sleep_while_waiting.simps)
    next
      fix i assume "j = Suc i"
      with Suc that IH step [of "take i (map waiter_turn ws)"] show ?thesis by (auto dest: spec [of _ j])
    qed
  qed (use Cons.prems(4) in \<open>simp add: sleep_while_waiting.simps\<close>)
  moreover have "?m2\<lparr>waiters := q, ms := 0\<rparr> = m\<lparr>waiters := q, ms := 0\<rparr>" for q by (cases m) simp
  ultimately show ?case using IH step [of "map waiter_turn ws @ acts"] by auto
qed

lemma sleep_idle:
  "w_waiting (gh st waiter) \<Longrightarrow>
    sleep_while_waiting gh waiter (replicate n id @ acts) st = sleep_while_waiting gh waiter acts st"
  by (induction n) (simp_all add: sleep_while_waiting.simps [of _ _ "_ # _"])


text \<open>A held mutex on which the task at address 32 sleeps.\<close>

definition sample_queue :: mutex_state where
  "sample_queue = (sample_held\<lparr>waiters := 32\<rparr>, sample_heap(32 := \<lparr>w_pid = 4, w_waiting = True, w_next = NULL\<rparr>))"


text \<open>The bound on the rounds of the sleeping loop is enough.\<close>

lemma mutex_wait_envs: "mutex_wait get put envs st = Some (Inr (st', es)) \<Longrightarrow> length es \<le> length envs"
proof (induction envs arbitrary: st)
  case Nil
  then show ?case by (subst (asm) mutex_wait.simps) (auto split: sum.splits if_splits)
next
  case (Cons e envs)
  from Cons.prems show ?case
    by (subst (asm) mutex_wait.simps) (auto split: sum.splits if_splits dest!: Cons.IH)
qed

lemma sleep_envs:
  "sleep_while_waiting gh waiter envs st = Some (Inr (st', es)) \<Longrightarrow>
   length es \<le> length envs \<and> (w_waiting (gh st waiter) \<longrightarrow> length es < length envs)"
proof (induction envs arbitrary: st)
  case Nil
  then show ?case by (subst (asm) sleep_while_waiting.simps) (auto split: if_splits)
next
  case (Cons e envs)
  from Cons.prems show ?case
    by (subst (asm) sleep_while_waiting.simps) (auto split: if_splits dest!: Cons.IH)
qed

lemma attach_locked_waiting: "attach_locked tid w lh = Some (p, h) \<Longrightarrow> w_waiting (h w)"
  by (auto simp: attach_locked_def Let_def split: prod.splits if_splits option.splits)

lemma attach_envs:
  assumes "mutex_attach_waiter gl pl gw pw tid w envs st = Some (Inr (st', es))"
    "\<And>l st. gh (pl l st) = gh st" "\<And>lh st. gh (pw lh st) = snd lh"
  shows "length es \<le> length envs" "w_waiting (gh st' w)"
  using assms by (auto simp: mutex_attach_waiter_def Let_def outcome_simps attach_locked_waiting
      split: option.splits dest!: mutex_wait_envs)

lemma detach_envs:
  assumes "mutex_detach_waiter gl pl gw pw w envs st = Some (Inr (st', es))"
  shows "length es \<le> length envs"
  using assms by (auto simp: mutex_detach_waiter_def Let_def outcome_simps
      split: if_splits dest!: mutex_wait_envs)

text \<open>One round of attaching, sleeping and detaching uses up an environment action.\<close>

lemma sleep_round_envs:
  assumes "mutex_attach_waiter gl pl gw pw tid w envs st = Some (Inr x)"
    "sleep_while_waiting gh w (snd x) (fst x) = Some (Inr y)"
    "mutex_detach_waiter gl pl gw pw w (snd y) (fst y) = Some (Inr z)"
    "\<And>l st. gh (pl l st) = gh st" "\<And>lh st. gh (pw lh st) = snd lh"
  shows "length (snd z) < length envs"
proof -
  have "mutex_attach_waiter gl pl gw pw tid w envs st = Some (Inr (fst x, snd x))"
    using assms(1) by simp
  from attach_envs [where gh = gh, OF this assms(4,5)]
  have "length (snd x) \<le> length envs" "w_waiting (gh (fst x) w)" .
  moreover have "length (snd z) \<le> length (snd y)"
    by (rule detach_envs [where st' = "fst z"]) (use assms(3) in simp)
  ultimately show ?thesis
    using sleep_envs [of gh w "snd x" "fst x" "fst y" "snd y"] assms(2) by simp
qed

lemma waitsleep_loop_enough:
  fixes gm :: "'s \<Rightarrow> mutex_t"
  assumes "length envs < n" and gh: "\<And>m st. gh (pm m st) = gh st" "\<And>h st. gh (ph h st) = h"
  shows "waitsleep_loop gm pm gh ph (Suc n) i tid w envs st = waitsleep_loop gm pm gh ph n i tid w envs st"
  using assms(1)
proof (induction n arbitrary: i envs st)
  case (Suc n)
  have shorter: "length (snd z) < n"
    if a: "mutex_attach_waiter (mutex_gl gm) (mutex_pl gm pm) (mutex_gw gm gh)
        (mutex_pw gm pm ph) tid w envs st = Some (Inr x)"
      and sl: "sleep_while_waiting gh w (snd x) (fst x) = Some (Inr y)"
      and d: "mutex_detach_waiter (mutex_gl gm) (mutex_pl gm pm) (mutex_gw gm gh)
        (mutex_pw gm pm ph) w (snd y) (fst y) = Some (Inr z)" for x y z
  proof -
    have "length (snd z) < length envs"
      by (rule sleep_round_envs [OF a sl d]) (simp_all add: gh)
    then show ?thesis using Suc.prems by simp
  qed
  show ?case
    by (subst waitsleep_loop.simps(2) [of _ _ _ _ n],
        subst waitsleep_loop.simps(2) [of _ _ _ _ "Suc n"], intro bindR_cong refl, simp only: split_beta, intro bindR_cong refl,
        simp only: split_beta, intro bindR_cong refl)
      (simp add: split_beta Let_def arch_exchange_rm_def Suc.IH shorter del: waitsleep_loop.simps)
qed simp

text \<open>C29. A wake-up can be lost: there is an interleaving after which the mutex is free, task 1
  sleeps on its waiter struct and cannot take a step, and no other task holds the mutex or is on
  its way to release it.  The release found an empty list between the failed exchange of task 1
  and the attachment of its struct.\<close>

theorem mutex_waitsleep_lost_wakeup:
  "\<exists>s. sleep_reach sleep_init s \<and> ms (smutex s) = 0 \<and>
     spcs s = (\<lambda>_. S_Outside)(1 := S_Asleep) \<and> (\<forall>s'. \<not> sleep_step 1 s s')"
proof -
  let ?h = "sheap sleep_init" and ?m = "MUTEX_INITIALIZER"
  let ?st = "\<lambda>m h f. \<lparr>smutex = m, sheap = h, spcs = f\<rparr>"
  let ?f1 = "(\<lambda>_ :: addr. S_Outside)(2 := S_Critical)" and ?m1 = "?m\<lparr>ms := 1\<rparr>"
  let ?f2 = "?f1(1 := S_Attach)" and ?f3 = "(\<lambda>_. S_Outside)(1 := S_Attach)"
  let ?h4 = "?h(1 := \<lparr>w_pid = 1, w_waiting = True, w_next = NULL\<rparr>)"
  let ?s4 = "?st (?m\<lparr>waiters := 1\<rparr>) ?h4 ((\<lambda>_. S_Outside)(1 := S_Asleep))"
  note defs = sleep_init_def MUTEX_INITIALIZER_def arch_exchange_rm_def exchange_next_def
  have "sleep_step 2 sleep_init (?st ?m1 ?h ?f1)"
    using s_exchange [of sleep_init 2 0 1] by (simp add: defs)
  moreover have "sleep_step 1 (?st ?m1 ?h ?f1) (?st ?m1 ?h ?f2)"
    using s_exchange [of "?st ?m1 ?h ?f1" 1 1 1] by (simp add: defs)
  moreover have "?f2(2 := S_Outside) = ?f3" by auto
  then have "sleep_step 2 (?st ?m1 ?h ?f2) (?st ?m ?h ?f3)"
    using s_release [of "?st ?m1 ?h ?f2" 2 ?m ?h None] by (simp add: defs mutex_releasesleep_def)
  moreover have "sleep_step 1 (?st ?m ?h ?f3) ?s4"
    using s_attach [of "?st ?m ?h ?f3" 1 1 ?h4] by (simp add: defs attach_locked_def)
  ultimately have "sleep_reach sleep_init ?s4" by (meson sr_refl sr_step)
  moreover have "\<not> sleep_step 1 ?s4 s'" for s' by (auto elim: sleep_stepE)
  ultimately show ?thesis by (intro exI [of _ ?s4]) (auto simp: defs)
qed

end
