(* ===== verification/Memmap.thy ===== *)
theory Memmap
  imports Mutex
begin

text \<open>
  The page bitmap of \<open>kernel/memmap.c\<close>, which the memory manager keeps once for physical
  frames and once per address space.  The state is the C struct; its operations keep the
  assertions and the word arithmetic of the source.  The interface the memory manager relies
  on is the locale \<open>page_bitmap\<close>, interpreted on these operations, and the two searches are
  shown equal to a reference first-fit search.
\<close>

section \<open>State and operations\<close>

text \<open>\<open>pagemap = None\<close> is the \<open>NULL\<close> pointer.\<close>

record memmap_t =
  pagemap :: "u32 list option"
  mm_length :: u32
  mm_lock :: mutex_t

definition page_index :: "u32 \<Rightarrow> u32" where
  "page_index a = a div 32"

definition OFFSET_FROM_BIT :: "u32 \<Rightarrow> u32" where
  "OFFSET_FROM_BIT a = a mod 32"

text \<open>
  \<open>kalloc\<close> belongs to the memory manager, so its verdict is an argument: \<open>True\<close> when it
  returned storage.  The stale storage it returned is overwritten by \<open>memset\<close> and \<open>memcpy\<close>.
\<close>

definition memmap_init :: "bool \<Rightarrow> memmap_t \<Rightarrow> u32 \<Rightarrow> bool \<times> memmap_t" where
  "memmap_init alloc_ok m pages =
     (if \<not> alloc_ok then (False, m\<lparr>pagemap := None\<rparr>)
      else (True, m\<lparr>pagemap := Some (replicate (unat (page_index pages)) 0),
                      mm_lock := MUTEX_INITIALIZER, mm_length := pages\<rparr>))"

definition memmap_clone :: "bool \<Rightarrow> memmap_t \<Rightarrow> memmap_t \<Rightarrow> (bool \<times> memmap_t) outcome" where
  "memmap_clone alloc_ok dest src =
     (if \<not> alloc_ok then Inr (False, dest\<lparr>pagemap := None\<rparr>)
      else case pagemap src of
          None \<Rightarrow> Inl Null_Deref
        | Some pm \<Rightarrow>
            (let n = unat (page_index (mm_length src)) in
             if length pm < n then Inl Out_Of_Bounds
             else Inr (True, dest\<lparr>pagemap := Some (take n pm), mm_lock := MUTEX_INITIALIZER,
                                  mm_length := mm_length src\<rparr>)))"

text \<open>A \<open>NULL\<close> map is left alone; otherwise the storage goes back to \<open>kfree\<close>.\<close>

definition memmap_destroy :: "memmap_t option \<Rightarrow> memmap_t option" where
  "memmap_destroy p = (case p of None \<Rightarrow> None
     | Some m \<Rightarrow> Some (m\<lparr>pagemap := None, mm_length := 0\<rparr>))"

definition with_pagemap :: "memmap_t \<Rightarrow> (u32 list \<Rightarrow> 'a outcome) \<Rightarrow> 'a outcome" where
  "with_pagemap m f = (case pagemap m of None \<Rightarrow> Inl Null_Deref | Some pm \<Rightarrow> f pm)"

definition memmap_set_page :: "memmap_t \<Rightarrow> u32 \<Rightarrow> memmap_t outcome" where
  "memmap_set_page m page_addr =
     bindE (assertE (page_addr AND 0xFFF = 0)) (\<lambda>_.
     let page = page_addr div 0x1000; index = unat (page_index page) in
     with_pagemap m (\<lambda>pm.
     bindE (readE pm index) (\<lambda>w.
     bindE (writeE pm index (w OR bit32 (unat (OFFSET_FROM_BIT page)))) (\<lambda>pm'.
     Inr (m\<lparr>pagemap := Some pm'\<rparr>)))))"

definition memmap_clear_page :: "memmap_t \<Rightarrow> u32 \<Rightarrow> memmap_t outcome" where
  "memmap_clear_page m page_addr =
     (let frame = page_addr div 0x1000; index = unat (page_index frame);
          offset = OFFSET_FROM_BIT frame in
     with_pagemap m (\<lambda>pm.
     bindE (readE pm index) (\<lambda>w.
     bindE (writeE pm index (w AND NOT (bit32 (unat offset)))) (\<lambda>pm'.
     Inr (m\<lparr>pagemap := Some pm'\<rparr>)))))"

definition memmap_test_page :: "memmap_t \<Rightarrow> u32 \<Rightarrow> u32 outcome" where
  "memmap_test_page m page_addr =
     (let frame = page_addr div 0x1000; index = unat (page_index frame);
          offset = OFFSET_FROM_BIT frame in
     with_pagemap m (\<lambda>pm.
     bindE (readE pm index) (\<lambda>w.
     Inr (if w AND bit32 (unat offset) \<noteq> 0 then 1 else 0))))"

text \<open>The inner loop over the bits of one word: the first clear one.\<close>

fun free_bit :: "u32 \<Rightarrow> nat list \<Rightarrow> nat option" where
  "free_bit w [] = None"
| "free_bit w (j # js) = (if w AND bit32 j = 0 then Some j else free_bit w js)"

fun find_free_page_loop :: "u32 list \<Rightarrow> nat list \<Rightarrow> u32 outcome" where
  "find_free_page_loop pm [] = Inr 0"
| "find_free_page_loop pm (i # is) =
     bindE (readE pm i) (\<lambda>w.
       if w \<noteq> 0xFFFFFFFF then
         (case free_bit w [0..<32] of
            Some j \<Rightarrow> Inr (of_nat i * 4 * 8 + of_nat j)
          | None \<Rightarrow> find_free_page_loop pm is)
       else find_free_page_loop pm is)"

definition memmap_find_free_page :: "memmap_t \<Rightarrow> u32 outcome" where
  "memmap_find_free_page m =
     (if page_index (mm_length m) = 0 then Inr 0
      else with_pagemap m (\<lambda>pm.
        find_free_page_loop pm [0..<unat (page_index (mm_length m))]))"

text \<open>
  The run search carries \<open>found\<close> and \<open>start_page\<close>; the latter is uninitialised at first, and
  any initial value stands for it.  \<open>Inl s\<close> is the early \<open>return start_page\<close>.
\<close>

fun run_bits :: "u32 \<Rightarrow> u32 \<Rightarrow> nat \<Rightarrow> nat list \<Rightarrow> u32 \<times> u32 \<Rightarrow> u32 + (u32 \<times> u32)" where
  "run_bits pages w i [] fs = Inr fs"
| "run_bits pages w i (j # js) (found, start_page) =
     (if w AND bit32 j = 0 then
        (let start' = (if found = 0 then of_nat i * 4 * 8 + of_nat j else start_page);
             found' = found + 1 in
         if found' = pages then Inl start' else run_bits pages w i js (found', start'))
      else run_bits pages w i js (0, start_page))"

text \<open>The same inner loop written over page numbers, for any notion of a free page.\<close>

fun run_pages :: "u32 \<Rightarrow> (nat \<Rightarrow> bool) \<Rightarrow> nat list \<Rightarrow> u32 \<times> u32 \<Rightarrow> u32 + (u32 \<times> u32)" where
  "run_pages pages free [] fs = Inr fs"
| "run_pages pages free (p # ps) (found, start_page) =
     (if free p then
        (let start' = (if found = 0 then of_nat p else start_page); found' = found + 1 in
         if found' = pages then Inl start' else run_pages pages free ps (found', start'))
      else run_pages pages free ps (0, start_page))"

fun run_words :: "u32 \<Rightarrow> u32 list \<Rightarrow> nat list \<Rightarrow> u32 \<times> u32 \<Rightarrow> u32 outcome" where
  "run_words pages pm [] fs = Inr 0"
| "run_words pages pm (i # is) (found, start_page) =
     bindE (readE pm i) (\<lambda>w.
       if w \<noteq> 0xFFFFFFFF then
         (case run_bits pages w i [0..<32] (found, start_page) of
            Inl s \<Rightarrow> Inr s
          | Inr fs \<Rightarrow> run_words pages pm is fs)
       else run_words pages pm is (0, start_page))"

definition memmap_find_free_pages :: "u32 \<Rightarrow> memmap_t \<Rightarrow> u32 \<Rightarrow> u32 outcome" where
  "memmap_find_free_pages junk m pages =
     bindE (assertE (pages \<noteq> 0)) (\<lambda>_.
     if page_index (mm_length m) = 0 then Inr 0
     else with_pagemap m (\<lambda>pm.
       run_words pages pm [0..<unat (page_index (mm_length m))] (0, junk)))"

section \<open>Abstraction\<close>

text \<open>A map is well formed when its storage has the words its length announces.\<close>

definition memmap_ok :: "memmap_t \<Rightarrow> bool" where
  "memmap_ok m = (case pagemap m of None \<Rightarrow> False
     | Some pm \<Rightarrow> length pm = unat (mm_length m) div 32)"

text \<open>The pages the words describe, and which of them are marked used.\<close>

definition capacity :: "memmap_t \<Rightarrow> nat" where
  "capacity m = 32 * (unat (mm_length m) div 32)"

definition used :: "memmap_t \<Rightarrow> nat \<Rightarrow> bool" where
  "used m p = bit (the (pagemap m) ! (p div 32)) (p mod 32)"

text \<open>The page an address belongs to.\<close>

definition page_of :: "u32 \<Rightarrow> nat" where
  "page_of a = unat a div 4096"

text \<open>Reference searches on page numbers.\<close>

definition first_free :: "memmap_t \<Rightarrow> nat option" where
  "first_free m = find (\<lambda>p. \<not> used m p) [0..<capacity m]"

definition fits :: "memmap_t \<Rightarrow> nat \<Rightarrow> nat \<Rightarrow> bool" where
  "fits m n s = (s + n \<le> capacity m \<and> (\<forall>p \<in> {s..<s + n}. \<not> used m p))"

definition first_fit :: "memmap_t \<Rightarrow> nat \<Rightarrow> nat option" where
  "first_fit m n = find (fits m n) [0..<capacity m]"

section \<open>Bit operations\<close>

lemma memmap_ok_pagemap:
  assumes "memmap_ok m"
  obtains pm where "pagemap m = Some pm" "length pm = unat (mm_length m) div 32"
  using assms by (auto simp: memmap_ok_def split: option.splits)

lemma unat_page_index [simp]: "unat (page_index a) = unat a div 32"
  by (simp add: page_index_def unat_div)

lemma unat_offset [simp]: "unat (OFFSET_FROM_BIT a) = unat a mod 32"
  by (simp add: OFFSET_FROM_BIT_def unat_mod)

lemma unat_frame [simp]: "unat (a div 0x1000 :: u32) = unat a div 4096"
  by (simp add: unat_div)

lemma capacity_word: "p < capacity m \<Longrightarrow> p div 32 < unat (mm_length m) div 32"
  by (auto simp: capacity_def)

lemma memmap_set_page_eq:
  assumes "memmap_ok m" "page_of a < capacity m" "a AND 0xFFF = 0"
  obtains m' where "memmap_set_page m a = Inr m'" "memmap_ok m'"
    "mm_length m' = mm_length m" "mm_lock m' = mm_lock m"
    "\<And>p. used m' p \<longleftrightarrow> used m p \<or> p = page_of a"
proof -
  from assms(1) obtain pm where pm: "pagemap m = Some pm" "length pm = unat (mm_length m) div 32"
    by (rule memmap_ok_pagemap)
  let ?i = "page_of a div 32" and ?k = "page_of a mod 32"
  let ?m' = "m\<lparr>pagemap := Some (pm[?i := pm ! ?i OR bit32 ?k])\<rparr>"
  have i: "?i < length pm" using assms(2) pm(2) by (simp add: capacity_word)
  have "memmap_set_page m a = Inr ?m'"
    using assms(3) i pm by (simp add: memmap_set_page_def with_pagemap_def page_of_def Let_def)
  moreover have "memmap_ok ?m'" using pm by (simp add: memmap_ok_def)
  moreover have "used ?m' p \<longleftrightarrow> used m p \<or> p = page_of a" for p
  proof (cases "p div 32 = ?i")
    case True
    moreover from True have "p mod 32 = ?k \<longleftrightarrow> p = page_of a" by (metis div_mult_mod_eq)
    ultimately show ?thesis using i pm by (simp add: used_def bit_simps)
  next
    case False
    then show ?thesis using pm by (auto simp: used_def)
  qed
  ultimately show ?thesis using that by force
qed

lemma memmap_clear_page_eq:
  assumes "memmap_ok m" "page_of a < capacity m"
  obtains m' where "memmap_clear_page m a = Inr m'" "memmap_ok m'"
    "mm_length m' = mm_length m" "mm_lock m' = mm_lock m"
    "\<And>p. used m' p \<longleftrightarrow> used m p \<and> p \<noteq> page_of a"
proof -
  from assms(1) obtain pm where pm: "pagemap m = Some pm" "length pm = unat (mm_length m) div 32"
    by (rule memmap_ok_pagemap)
  let ?i = "page_of a div 32" and ?k = "page_of a mod 32"
  let ?m' = "m\<lparr>pagemap := Some (pm[?i := pm ! ?i AND NOT (bit32 ?k)])\<rparr>"
  have i: "?i < length pm" using assms(2) pm(2) by (simp add: capacity_word)
  have "memmap_clear_page m a = Inr ?m'"
    using i pm by (simp add: memmap_clear_page_def with_pagemap_def page_of_def Let_def)
  moreover have "memmap_ok ?m'" using pm by (simp add: memmap_ok_def)
  moreover have "used ?m' p \<longleftrightarrow> used m p \<and> p \<noteq> page_of a" for p
  proof (cases "p div 32 = ?i")
    case True
    moreover from True have "p mod 32 = ?k \<longleftrightarrow> p = page_of a" by (metis div_mult_mod_eq)
    ultimately show ?thesis using i pm by (simp add: used_def bit_simps)
  next
    case False
    then show ?thesis using pm by (auto simp: used_def)
  qed
  ultimately show ?thesis using that by force
qed

lemma memmap_test_page_eq:
  assumes "memmap_ok m" "page_of a < capacity m"
  shows "memmap_test_page m a = Inr (if used m (page_of a) then 1 else 0)"
proof -
  from assms(1) obtain pm where pm: "pagemap m = Some pm" "length pm = unat (mm_length m) div 32"
    by (rule memmap_ok_pagemap)
  have "page_of a div 32 < length pm" using assms(2) pm(2) by (simp add: capacity_word)
  then show ?thesis
    using pm by (simp add: memmap_test_page_def with_pagemap_def page_of_def used_def bit_simps)
qed

section \<open>Searches\<close>

lemma free_bit_find: "free_bit w js = find (\<lambda>j. \<not> bit w j) js"
  by (induction js) (auto simp: bit_simps)

lemma page_word: "of_nat i * 4 * 8 + of_nat j = (of_nat (32 * i + j) :: u32)"
  by simp

lemma upt_word_split:
  "k < n \<Longrightarrow> [32 * k..<32 * n] = map (\<lambda>j. 32 * k + j) [0..<32] @ [32 * Suc k..<32 * n]"
  for k n :: nat
  using map_add_upt [of "32 * k" 32] upt_add_eq_append [of "32 * k" "32 * Suc k" "32 * n - 32 * Suc k"]
  by (simp add: add.commute)

lemma find_free_page_loop_eq:
  assumes "n \<le> length pm" "k \<le> n"
  shows "find_free_page_loop pm [k..<n] =
    Inr (case find (\<lambda>p. \<not> bit (pm ! (p div 32)) (p mod 32)) [32 * k..<32 * n] of
           None \<Rightarrow> 0 | Some p \<Rightarrow> of_nat p)"
  using assms(2)
proof (induction k rule: inc_induct)
  case base
  then show ?case by simp
next
  case (step k)
  let ?free = "\<lambda>p. \<not> bit (pm ! (p div 32)) (p mod 32)"
  have word: "find ?free (map (\<lambda>j. 32 * k + j) [0..<32]) =
      map_option (\<lambda>j. 32 * k + j) (free_bit (pm ! k) [0..<32])"
    by (auto simp: find_map_eq free_bit_find intro!: arg_cong [of _ _ "map_option _"] find_cong)
  show ?case
  proof (cases "pm ! k = 0xFFFFFFFF")
    case True
    then have "free_bit (pm ! k) [0..<32] = None"
      by (auto simp: free_bit_find find_None_iff u32_all_ones)
    with step True assms word show ?thesis
      by (simp add: upt_conv_Cons [of k] upt_word_split find_append_eq del: upt_Suc)
  next
    case False
    with step assms word show ?thesis
      by (simp add: upt_conv_Cons [of k] upt_word_split find_append_eq page_word del: upt_Suc
          split: option.split)
  qed
qed

lemma capacity_cong: "mm_length m' = mm_length m \<Longrightarrow> capacity m' = capacity m"
  by (simp add: capacity_def)

lemma run_bits_pages:
  "run_bits pages w i js fs =
   run_pages pages (\<lambda>p. \<not> bit w (p - 32 * i)) (map (\<lambda>j. 32 * i + j) js) fs"
  by (induction pages w i js fs rule: run_bits.induct) (auto simp: Let_def bit_simps)

lemma run_pages_cong:
  "(\<And>p. p \<in> set ps \<Longrightarrow> free p = free' p) \<Longrightarrow>
   run_pages pages free ps fs = run_pages pages free' ps fs"
  by (induction pages free ps fs rule: run_pages.induct) (auto simp: Let_def)

lemma run_pages_append:
  "run_pages pages free (ps @ qs) fs =
   (case run_pages pages free ps fs of Inl s \<Rightarrow> Inl s | Inr fs' \<Rightarrow> run_pages pages free qs fs')"
  by (induction pages free ps fs rule: run_pages.induct) (auto simp: Let_def)

lemma run_pages_all_used:
  "\<forall>p \<in> set ps. \<not> free p \<Longrightarrow> ps \<noteq> [] \<Longrightarrow> run_pages pages free ps (f, s) = Inr (0, s)"
proof (induction ps arbitrary: f)
  case (Cons p ps)
  then show ?case by (cases ps) auto
qed simp

lemma run_words_pages:
  assumes "n \<le> length pm" "k \<le> n"
  shows "run_words pages pm [k..<n] fs =
    Inr (case run_pages pages (\<lambda>p. \<not> bit (pm ! (p div 32)) (p mod 32)) [32 * k..<32 * n] fs of
           Inl s \<Rightarrow> s | Inr _ \<Rightarrow> 0)"
  using assms(2)
proof (induction k arbitrary: fs rule: inc_induct)
  case base
  then show ?case by simp
next
  case (step k)
  let ?free = "\<lambda>p. \<not> bit (pm ! (p div 32)) (p mod 32)"
  let ?block = "map (\<lambda>j. 32 * k + j) [0..<32]"
  obtain f s where fs: "fs = (f, s)" by (cases fs)
  have block: "p div 32 = k" if "p \<in> set ?block" for p
    using that by (auto intro!: div_nat_eqI)
  have bits: "run_bits pages (pm ! k) k [0..<32] fs = run_pages pages ?free ?block fs"
    unfolding run_bits_pages
  proof (rule run_pages_cong)
    fix p assume "p \<in> set ?block"
    then have "p div 32 = k" by (rule block)
    moreover from this have "p mod 32 = p - 32 * k" by (simp add: modulo_nat_def mult.commute)
    ultimately show "(\<not> bit (pm ! k) (p - 32 * k)) = ?free p" by simp
  qed
  show ?case
  proof (cases "pm ! k = 0xFFFFFFFF")
    case True
    have "run_pages pages ?free ?block (f, s) = Inr (0, s)"
      by (rule run_pages_all_used) (use True block in \<open>auto simp: u32_all_ones\<close>)
    with step True assms fs show ?thesis
      by (simp add: upt_conv_Cons [of k] upt_word_split run_pages_append del: upt_Suc)
  next
    case False
    with step assms fs bits show ?thesis
      by (simp add: upt_conv_Cons [of k] upt_word_split run_pages_append del: upt_Suc
          split: sum.split)
  qed
qed

text \<open>The counter is the length of the free run that ends at the current page.\<close>

lemma run_pages_first_fit:
  assumes "f < unat pages" "f \<le> p" "p \<le> capacity m" "capacity m < 2 ^ 32"
    "\<And>q. p - f \<le> q \<Longrightarrow> q < p \<Longrightarrow> \<not> used m q" "f = 0 \<or> start = of_nat (p - f)"
  shows "(case run_pages pages (\<lambda>q. \<not> used m q) [p..<capacity m] (of_nat f, start) of
           Inl s \<Rightarrow> Some s | Inr _ \<Rightarrow> None) =
         map_option of_nat (find (fits m (unat pages)) [p - f..<capacity m])"
  using assms(3,1,2,5,6)
proof (induction p arbitrary: f start rule: inc_induct)
  case base
  then have "find (fits m (unat pages)) [capacity m - f..<capacity m] = None"
    by (auto simp: find_None_iff fits_def)
  then show ?case by simp
next
  case (step p)
  let ?n = "unat pages" and ?N = "capacity m"
  have f_word: "of_nat f = (0 :: u32) \<longleftrightarrow> f = 0" "of_nat f + 1 = pages \<longleftrightarrow> Suc f = ?n"
    using step.prems(1) unat_u32_lt [of pages] unat_of_nat_u32 [of f] unat_of_nat_u32 [of "Suc f"]
    by (auto simp: word_unat_eq_iff add.commute)
  show ?case
  proof (cases "used m p")
    case True
    have "find (fits m ?n) [p - f..<Suc p] = None"
      using True step.prems(1) by (force simp: find_None_iff fits_def)
    moreover have "[p - f..<?N] = [p - f..<Suc p] @ [Suc p..<?N]"
      using step.hyps by (metis Suc_leI diff_le_self le_Suc_eq le_add_diff_inverse upt_add_eq_append)
    ultimately show ?thesis
      using step.IH [of 0 start] step.prems(1) step.hyps True
      by (simp add: upt_conv_Cons [of p] find_append_eq del: upt_Suc)
  next
    case False
    let ?start = "if f = 0 then of_nat p else start"
    have start: "?start = of_nat (p - f)" using step.prems(4) by auto
    have clear: "\<not> used m q" if "p - f \<le> q" "q < Suc p" for q
      using that step.prems(3) False by (metis less_Suc_eq)
    show ?thesis
    proof (cases "Suc f = ?n")
      case True
      then have "fits m ?n (p - f)"
        using clear step.prems(2) step.hyps by (auto simp: fits_def)
      moreover have "[p - f..<?N] = (p - f) # [Suc (p - f)..<?N]"
        using step.hyps by (simp add: upt_conv_Cons)
      ultimately show ?thesis
        using False True f_word start step.hyps
        by (simp add: upt_conv_Cons [of p] Let_def del: upt_Suc)
    next
      case neq: False
      then have "Suc f < ?n" using step.prems(1) by simp
      then show ?thesis
        using step.IH [of "Suc f" ?start] False neq f_word start step.prems(2) step.hyps clear
        by (simp add: upt_conv_Cons [of p] add.commute Let_def del: upt_Suc)
    qed
  qed
qed

lemma capacity_lt: "capacity m < 2 ^ 32"
proof -
  have "capacity m \<le> unat (mm_length m)" by (simp add: capacity_def)
  then show ?thesis using unat_u32_lt [of "mm_length m"] by simp
qed

section \<open>The interface the memory manager uses\<close>

text \<open>
  A page bitmap promises three laws over a set of used page numbers.  The clients mark and
  release whole ranges page by page, so the laws are lifted to such loops once, here.
\<close>

locale page_bitmap =
  fixes inv :: "'m \<Rightarrow> bool"
    and npages :: "'m \<Rightarrow> nat"
    and is_used :: "'m \<Rightarrow> nat \<Rightarrow> bool"
    and set_page :: "'m \<Rightarrow> u32 \<Rightarrow> 'm outcome"
    and clear_page :: "'m \<Rightarrow> u32 \<Rightarrow> 'm outcome"
    and test_page :: "'m \<Rightarrow> u32 \<Rightarrow> u32 outcome"
  assumes set_page_law: "inv m \<Longrightarrow> page_of a < npages m \<Longrightarrow> a AND 0xFFF = 0 \<Longrightarrow>
      \<exists>m'. set_page m a = Inr m' \<and> inv m' \<and> npages m' = npages m \<and>
        (\<forall>p. is_used m' p \<longleftrightarrow> is_used m p \<or> p = page_of a)"
    and clear_page_law: "inv m \<Longrightarrow> page_of a < npages m \<Longrightarrow>
      \<exists>m'. clear_page m a = Inr m' \<and> inv m' \<and> npages m' = npages m \<and>
        (\<forall>p. is_used m' p \<longleftrightarrow> is_used m p \<and> p \<noteq> page_of a)"
    and test_page_law: "inv m \<Longrightarrow> page_of a < npages m \<Longrightarrow>
      test_page m a = Inr (if is_used m (page_of a) then 1 else 0)"
begin

lemma set_range:
  assumes "inv m" "\<And>a. a \<in> set as \<Longrightarrow> page_of a < npages m \<and> a AND 0xFFF = 0"
  obtains m' where "foldE set_page m as = Inr m'" "inv m'" "npages m' = npages m"
    "\<And>p. is_used m' p \<longleftrightarrow> is_used m p \<or> p \<in> page_of ` set as"
proof -
  have "\<exists>m'. foldE set_page m as = Inr m' \<and> inv m' \<and> npages m' = npages m \<and>
      (\<forall>p. is_used m' p \<longleftrightarrow> is_used m p \<or> p \<in> page_of ` set as)"
    using assms
  proof (induction as arbitrary: m)
    case (Cons a as)
    from set_page_law [of m a] Cons.prems obtain m1 where m1: "set_page m a = Inr m1" "inv m1"
      "npages m1 = npages m" "\<forall>p. is_used m1 p \<longleftrightarrow> is_used m p \<or> p = page_of a" by auto
    from Cons.IH [of m1] Cons.prems m1 show ?case by auto
  qed simp
  then show ?thesis using that by blast
qed

lemma clear_range:
  assumes "inv m" "\<And>a. a \<in> set as \<Longrightarrow> page_of a < npages m"
  obtains m' where "foldE clear_page m as = Inr m'" "inv m'" "npages m' = npages m"
    "\<And>p. is_used m' p \<longleftrightarrow> is_used m p \<and> p \<notin> page_of ` set as"
proof -
  have "\<exists>m'. foldE clear_page m as = Inr m' \<and> inv m' \<and> npages m' = npages m \<and>
      (\<forall>p. is_used m' p \<longleftrightarrow> is_used m p \<and> p \<notin> page_of ` set as)"
    using assms
  proof (induction as arbitrary: m)
    case (Cons a as)
    from clear_page_law [of m a] Cons.prems obtain m1 where m1: "clear_page m a = Inr m1" "inv m1"
      "npages m1 = npages m" "\<forall>p. is_used m1 p \<longleftrightarrow> is_used m p \<and> p \<noteq> page_of a" by auto
    from Cons.IH [of m1] Cons.prems m1 show ?case by auto
  qed simp
  then show ?thesis using that by blast
qed

text \<open>Releasing a range that was free before it was marked gives back the same set of pages.\<close>

lemma clear_after_set:
  assumes "inv m" "\<And>a. a \<in> set as \<Longrightarrow> page_of a < npages m \<and> a AND 0xFFF = 0"
    "\<And>a. a \<in> set as \<Longrightarrow> \<not> is_used m (page_of a)"
  shows "\<exists>m1 m2. foldE set_page m as = Inr m1 \<and> foldE clear_page m1 as = Inr m2 \<and>
    (\<forall>a \<in> set as. test_page m1 a = Inr 1) \<and> inv m2 \<and> (\<forall>p. is_used m2 p \<longleftrightarrow> is_used m p)"
proof -
  obtain m1 where m1: "foldE set_page m as = Inr m1" "inv m1" "npages m1 = npages m"
    "\<And>p. is_used m1 p \<longleftrightarrow> is_used m p \<or> p \<in> page_of ` set as"
    using set_range [OF assms(1,2)] by blast
  then obtain m2 where m2: "foldE clear_page m1 as = Inr m2" "inv m2"
    "\<And>p. is_used m2 p \<longleftrightarrow> is_used m1 p \<and> p \<notin> page_of ` set as"
    using clear_range [of m1 as] assms(2) by metis
  have "test_page m1 a = Inr 1" if "a \<in> set as" for a
    using test_page_law [OF m1(2), of a] m1(3,4) assms(2) that by auto
  moreover have "is_used m2 p \<longleftrightarrow> is_used m p" for p
    using m1(4) m2(3) assms(3) by auto
  ultimately show ?thesis using m1(1) m2(1,2) by blast
qed

end

interpretation mm: page_bitmap memmap_ok capacity used memmap_set_page memmap_clear_page
  memmap_test_page
proof unfold_locales
  fix m a assume "memmap_ok m" "page_of a < capacity m" "a AND 0xFFF = 0"
  then show "\<exists>m'. memmap_set_page m a = Inr m' \<and> memmap_ok m' \<and> capacity m' = capacity m \<and>
      (\<forall>p. used m' p \<longleftrightarrow> used m p \<or> p = page_of a)"
    by (rule memmap_set_page_eq) (auto simp: capacity_def)
next
  fix m a assume "memmap_ok m" "page_of a < capacity m"
  then show "\<exists>m'. memmap_clear_page m a = Inr m' \<and> memmap_ok m' \<and> capacity m' = capacity m \<and>
      (\<forall>p. used m' p \<longleftrightarrow> used m p \<and> p \<noteq> page_of a)"
    by (rule memmap_clear_page_eq) (auto simp: capacity_def)
qed (rule memmap_test_page_eq)

text \<open>\<open>memmap_find_free_page\<close> returns the lowest free page of a well-formed map, and 0 when
  every page is used: the caller cannot tell a full map from a free page 0.\<close>

lemma memmap_find_free_page_lowest:
  assumes "memmap_ok m"
  shows "memmap_find_free_page m = Inr (case first_free m of None \<Rightarrow> 0 | Some p \<Rightarrow> of_nat p)"
proof -
  from assms(1) obtain pm where pm: "pagemap m = Some pm" "length pm = unat (mm_length m) div 32"
    by (rule memmap_ok_pagemap)
  have free: "(\<lambda>p. \<not> bit (pm ! (p div 32)) (p mod 32)) = (\<lambda>q. \<not> used m q)"
    using pm by (auto simp: used_def)
  have "page_index (mm_length m) = 0 \<longleftrightarrow> unat (mm_length m) div 32 = 0"
    by (simp add: word_unat_eq_iff)
  then have "memmap_find_free_page m = find_free_page_loop pm [0..<unat (mm_length m) div 32]"
    using pm(1) by (simp add: memmap_find_free_page_def with_pagemap_def)
  also have "\<dots> = Inr (case first_free m of None \<Rightarrow> 0 | Some p \<Rightarrow> of_nat p)"
    using find_free_page_loop_eq [of "unat (mm_length m) div 32" pm 0] pm(2)
    by (simp add: free capacity_def first_free_def)
  finally show ?thesis .
qed

section \<open>Properties\<close>

text \<open>A small map for the witnesses: 64 pages, the first word full, page 33 used.\<close>

definition sample_map :: memmap_t where
  "sample_map = \<lparr>pagemap = Some [0xFFFFFFFF, 2], mm_length = 64, mm_lock = MUTEX_INITIALIZER\<rparr>"

lemma sample_map_ok: "memmap_ok sample_map" "capacity sample_map = 64"
  by (simp_all add: sample_map_def memmap_ok_def capacity_def)

lemma sample_map_used: "p < 64 \<Longrightarrow> used sample_map p \<longleftrightarrow> p < 32 \<or> p = 33"
proof -
  assume p: "p < 64"
  have two: "bit (2 :: int) n \<longleftrightarrow> n = 1" for n
    using bit_exp_iff [where 'a = int, of 1 n] by auto
  show ?thesis
  proof (cases "p < 32")
    case True
    then show ?thesis by (simp add: sample_map_def used_def)
  next
    case False
    with p have "p div 32 = 1" by (auto intro: div_nat_eqI)
    moreover from this have "p mod 32 = p - 32" by (simp add: modulo_nat_def)
    ultimately show ?thesis using False by (auto simp: sample_map_def used_def two)
  qed
qed

text \<open>C25. \<open>memmap_find_free_pages\<close> is a first-fit search: on every well-formed map and for every
  non-zero request it returns, without trapping, the lowest page that starts a run of that many
  free pages, and 0 when there is no such run.\<close>

theorem memmap_find_free_pages_first_fit:
  assumes "memmap_ok m" "pages \<noteq> 0"
  shows "memmap_find_free_pages junk m pages =
    Inr (case first_fit m (unat pages) of None \<Rightarrow> 0 | Some s \<Rightarrow> of_nat s)"
proof -
  from assms(1) obtain pm where pm: "pagemap m = Some pm" "length pm = unat (mm_length m) div 32"
    by (rule memmap_ok_pagemap)
  let ?run = "run_pages pages (\<lambda>q. \<not> used m q) [0..<capacity m] (0, junk)"
  have ref: "(case ?run of Inl s \<Rightarrow> Some s | Inr _ \<Rightarrow> None) =
      map_option of_nat (first_fit m (unat pages))"
    using run_pages_first_fit [of 0 pages 0 m junk] assms(2) capacity_lt
    by (simp add: first_fit_def unat_gt_0)
  have free: "(\<lambda>p. \<not> bit (pm ! (p div 32)) (p mod 32)) = (\<lambda>q. \<not> used m q)"
    using pm by (auto simp: used_def)
  have "page_index (mm_length m) = 0 \<longleftrightarrow> unat (mm_length m) div 32 = 0"
    by (simp add: word_unat_eq_iff)
  then have "memmap_find_free_pages junk m pages =
      run_words pages pm [0..<unat (mm_length m) div 32] (0, junk)"
    using assms(2) pm(1) by (simp add: memmap_find_free_pages_def with_pagemap_def)
  also have "\<dots> = Inr (case ?run of Inl s \<Rightarrow> s | Inr _ \<Rightarrow> 0)"
    using run_words_pages [of "unat (mm_length m) div 32" pm 0 pages "(0, junk)"] pm(2)
    by (simp add: free capacity_def)
  finally show ?thesis
    using ref by (cases ?run; cases "first_fit m (unat pages)") simp_all
qed

theorem memmap_find_free_pages_first_fit_witness:
  "memmap_find_free_pages 7 sample_map 3 = Inr 34"
proof -
  have "\<not> fits sample_map 3 j" if "j < 34" for j
    using that by (cases "j < 32") (auto simp: fits_def sample_map_ok sample_map_used
        intro: bexI [of _ j] bexI [of _ 33])
  moreover have "fits sample_map 3 34" by (auto simp: fits_def sample_map_ok sample_map_used)
  ultimately have "first_fit sample_map 3 = Some 34"
    by (auto simp: first_fit_def find_Some_iff sample_map_ok intro!: exI [of _ 34])
  then show ?thesis
    using memmap_find_free_pages_first_fit [of sample_map 3 7] sample_map_ok by simp
qed

text \<open>Marking any sequence of free, page-aligned addresses inside the map and releasing the
  same sequence never traps, makes every marked address test as used in between, and restores
  exactly the set of used pages, whatever pages shared words with them.\<close>

theorem memmap_set_clear_roundtrip:
  assumes "memmap_ok m" "\<And>a. a \<in> set as \<Longrightarrow> page_of a < capacity m \<and> a AND 0xFFF = 0"
    "\<And>a. a \<in> set as \<Longrightarrow> memmap_test_page m a = Inr 0"
  shows "\<exists>m1 m2. foldE memmap_set_page m as = Inr m1 \<and> foldE memmap_clear_page m1 as = Inr m2 \<and>
    (\<forall>a \<in> set as. memmap_test_page m1 a = Inr 1) \<and> memmap_ok m2 \<and>
    (\<forall>p. used m2 p \<longleftrightarrow> used m p)"
proof (rule mm.clear_after_set [OF assms(1,2)])
  fix a assume "a \<in> set as"
  then show "\<not> used m (page_of a)"
    using assms(2,3) mm.test_page_law [OF assms(1), of a] by (auto split: if_splits)
qed

theorem memmap_set_clear_roundtrip_witness:
  "\<exists>m1 m2. foldE memmap_set_page sample_map [0x20000, 0x22000] = Inr m1 \<and>
     foldE memmap_clear_page m1 [0x20000, 0x22000] = Inr m2 \<and>
     (\<forall>a \<in> set [0x20000, 0x22000]. memmap_test_page m1 a = Inr 1) \<and> memmap_ok m2 \<and>
     (\<forall>p. used m2 p \<longleftrightarrow> used sample_map p)"
proof (rule memmap_set_clear_roundtrip [OF sample_map_ok(1)])
  fix a :: u32 assume a: "a \<in> set [0x20000, 0x22000]"
  then show "page_of a < capacity sample_map \<and> a AND 0xFFF = 0"
    by (auto simp: page_of_def sample_map_ok)
  from a show "memmap_test_page sample_map a = Inr 0"
    by (auto simp: sample_map_def memmap_test_page_def with_pagemap_def bit_simps Let_def)
qed

end
