(* ===== verification/Mmu.thy ===== *)
theory Mmu
  imports Memmap
begin

text \<open>
  The memory manager of \<open>kernel/mmu.c\<close>: page tables and directories, physical frames with their
  reference counters, and the page allocator \<open>kalloc\<close>/\<open>kfree\<close>.  Tables are shared between
  directories, so they live in a store by address; the statically allocated kernel directory and
  page maps have names of their own.  The arrays of 1024 entries are functions of a ten-bit
  index.  Allocating a page may allocate a page table, which allocates pages again, so the two
  procedures recurse through each other; \<open>n\<close> bounds the depth of that recursion.
\<close>

section \<open>State\<close>

text \<open>The seven unused bits of an entry and the padding of the other structs are left out.\<close>

record page_t =
  pg_present :: bool
  pg_rw :: bool
  pg_user :: bool
  pg_accessed :: bool
  pg_dirty :: bool
  pg_frame :: "20 word"

record page_info_t =
  pi_commited :: bool
  pi_cow :: bool
  pi_noshare :: bool
  pi_mmap :: bool

type_synonym slot = "10 word"

record page_table_t =
  pt_pages :: "slot \<Rightarrow> page_t"
  pt_pages_info :: "slot \<Rightarrow> page_info_t"
  pt_refs :: u32
  pt_noshare :: bool

record page_directory_t =
  pd_tables :: "slot \<Rightarrow> addr"
  pd_tablesPhysical :: "slot \<Rightarrow> u32"

record mmap_info_t =
  mi_addr :: addr
  mi_len :: u32
  mi_flags :: i32
  mi_prot :: i32
  mi_offset :: u32
  mi_fd :: i32

record buffer_t =
  b_address :: addr
  b_pages :: u32
  b_mmap :: addr

text \<open>Pointers to directories and page maps: the static objects by name, the others by address.\<close>

datatype dir_ref = Kernel_Directory | Directory addr

datatype map_ref = Physical_Memmap | Kernel_Memmap | Default_Memmap | Task_Memmap addr

text \<open>
  What the memory manager reads and writes of the running task.  The buffers and mappings are
  singly linked lists that only their head pointer reaches, and are lists here; each struct is
  listed with its address.
\<close>

record mm_task =
  mt_errno :: i32
  mt_buffers :: "(addr \<times> buffer_t) list"
  mt_mmaps :: "(addr \<times> mmap_info_t) list"
  mt_mmaps_lock :: mutex_t
  mt_memmap :: map_ref

record kmmap_t =
  km_mmap :: mmap_info_t
  km_node :: addr
  km_directory :: dir_ref

text \<open>
  \<open>mallocs\<close> are the results of the calls of \<open>malloc\<close> to come, \<open>freed\<close> the arguments of \<open>free\<close>,
  \<open>stale\<close> the value of a local variable that has not been assigned, \<open>kernel_directory_at\<close> the
  address of the kernel directory, \<open>cr0\<close> and \<open>cr3\<close> the control registers, \<open>invalidated\<close> the
  addresses given to \<open>invlpg\<close>, and \<open>frame_data\<close> the contents of physical memory by frame.
\<close>

record mmu =
  pt_store :: "addr \<Rightarrow> page_table_t"
  dir_store :: "dir_ref \<Rightarrow> page_directory_t"
  memmaps :: "map_ref \<Rightarrow> memmap_t"
  placement_address :: u32
  frame_refs :: "u32 list"
  frame_refs_lock :: mutex_t
  kernel_buffers :: "(addr \<times> buffer_t) list"
  kmmaps :: "kmmap_t list"
  kmmaps_lock :: mutex_t
  current_directory :: "dir_ref option"
  current_directory_physical :: u32
  kernel_directory_at :: u32
  cr0 :: u32
  cr3 :: u32
  invalidated :: "u32 list"
  current_memmap :: "map_ref option"
  mm_current :: "mm_task option"
  kheap_len :: u32
  mallocs :: "addr list"
  mm_freed :: "addr list"
  stale :: u32
  frame_data :: "20 word \<Rightarrow> u8 list"

type_synonym 'a mm = "(mmu, 'a) proc"

abbreviation physical_memmap :: "mmu \<Rightarrow> memmap_t" where
  "physical_memmap s \<equiv> memmaps s Physical_Memmap"

definition empty_page :: page_t where
  "empty_page = \<lparr>pg_present = False, pg_rw = False, pg_user = False, pg_accessed = False,
     pg_dirty = False, pg_frame = 0\<rparr>"

definition empty_info :: page_info_t where
  "empty_info = \<lparr>pi_commited = False, pi_cow = False, pi_noshare = False, pi_mmap = False\<rparr>"

text \<open>A table and a directory after \<open>memset\<close> to zero.\<close>

definition empty_table :: page_table_t where
  "empty_table = \<lparr>pt_pages = (\<lambda>_. empty_page), pt_pages_info = (\<lambda>_. empty_info), pt_refs = 0,
     pt_noshare = False\<rparr>"

definition empty_directory :: page_directory_t where
  "empty_directory = \<lparr>pd_tables = (\<lambda>_. NULL), pd_tablesPhysical = (\<lambda>_. 0)\<rparr>"

definition PAGE_SIZE :: u32 where "PAGE_SIZE = 0x1000"

text \<open>\<open>sizeof (page_table_t)\<close> and \<open>sizeof (page_directory_t)\<close>.\<close>

definition sizeof_page_table :: u32 where "sizeof_page_table = 8200"

definition sizeof_page_directory :: u32 where "sizeof_page_directory = 8192"

section \<open>Options (mmu.h)\<close>

definition KALLOC_OPTN_ALIGN :: u32 where "KALLOC_OPTN_ALIGN = 0x0001"
definition KALLOC_OPTN_KERNEL :: u32 where "KALLOC_OPTN_KERNEL = 0x0002"
definition KALLOC_OPTN_WRITEABLE :: u32 where "KALLOC_OPTN_WRITEABLE = 0x0008"
definition KALLOC_OPTN_NOFREE :: u32 where "KALLOC_OPTN_NOFREE = 0x0010"
definition KALLOC_OPTN_NOCOW :: u32 where "KALLOC_OPTN_NOCOW = 0x0080"
definition KALLOC_OPTN_NOSHARE :: u32 where "KALLOC_OPTN_NOSHARE = 0x0100"
definition KALLOC_OPTN_MMAP :: u32 where "KALLOC_OPTN_MMAP = 0x0200"

definition CLONE_SHARE :: u32 where "CLONE_SHARE = 0x01"
definition CLONE_COW :: u32 where "CLONE_COW = 0x02"

definition ALLOC_FRAME_USER :: u32 where "ALLOC_FRAME_USER = 0x0000"
definition ALLOC_FRAME_KERNEL :: u32 where "ALLOC_FRAME_KERNEL = 0x0001"
definition ALLOC_FRAME_WRITEABLE :: u32 where "ALLOC_FRAME_WRITEABLE = 0x0002"
definition ALLOC_FRAME_MKTABLE :: u32 where "ALLOC_FRAME_MKTABLE = 0x0004"
definition ALLOC_FRAME_COW :: u32 where "ALLOC_FRAME_COW = 0x0008"
definition ALLOC_FRAME_NOSHARE :: u32 where "ALLOC_FRAME_NOSHARE = 0x0010"
definition ALLOC_FRAME_MMAP :: u32 where "ALLOC_FRAME_MMAP = 0x0020"
definition ALLOC_FRAME_ALLOC_PHYS :: u32 where "ALLOC_FRAME_ALLOC_PHYS = 0x0040"

lemmas mmu_options = KALLOC_OPTN_ALIGN_def KALLOC_OPTN_KERNEL_def KALLOC_OPTN_WRITEABLE_def
  KALLOC_OPTN_NOFREE_def KALLOC_OPTN_NOCOW_def KALLOC_OPTN_NOSHARE_def KALLOC_OPTN_MMAP_def
  CLONE_SHARE_def CLONE_COW_def ALLOC_FRAME_USER_def ALLOC_FRAME_KERNEL_def
  ALLOC_FRAME_WRITEABLE_def ALLOC_FRAME_MKTABLE_def ALLOC_FRAME_COW_def ALLOC_FRAME_NOSHARE_def
  ALLOC_FRAME_MMAP_def ALLOC_FRAME_ALLOC_PHYS_def

definition has_flag :: "u32 \<Rightarrow> u32 \<Rightarrow> bool" where
  "has_flag flags f = (flags AND f \<noteq> 0)"

section \<open>Access\<close>

text \<open>The directory entry and the table entry of a virtual address.\<close>

definition table_idx :: "u32 \<Rightarrow> slot" where
  "table_idx vaddr = ucast (vaddr div PAGE_SIZE div 1024)"

definition page_idx :: "u32 \<Rightarrow> slot" where
  "page_idx vaddr = ucast (vaddr div PAGE_SIZE mod 1024)"

text \<open>A pointer to a page entry is the table and the index.\<close>

type_synonym page_ref = "addr \<times> slot"

definition page_at :: "page_ref \<Rightarrow> mmu \<Rightarrow> page_t" where
  "page_at r s = pt_pages (pt_store s (fst r)) (snd r)"

definition info_at :: "page_ref \<Rightarrow> mmu \<Rightarrow> page_info_t" where
  "info_at r s = pt_pages_info (pt_store s (fst r)) (snd r)"

definition upd_table :: "addr \<Rightarrow> (page_table_t \<Rightarrow> page_table_t) \<Rightarrow> mmu \<Rightarrow> mmu" where
  "upd_table t f s = s\<lparr>pt_store := (pt_store s)(t := f (pt_store s t))\<rparr>"

definition upd_page :: "page_ref \<Rightarrow> (page_t \<Rightarrow> page_t) \<Rightarrow> mmu \<Rightarrow> mmu" where
  "upd_page r f = upd_table (fst r) (\<lambda>t. t\<lparr>pt_pages := (pt_pages t)(snd r := f (pt_pages t (snd r)))\<rparr>)"

definition upd_info :: "page_ref \<Rightarrow> (page_info_t \<Rightarrow> page_info_t) \<Rightarrow> mmu \<Rightarrow> mmu" where
  "upd_info r f = upd_table (fst r)
     (\<lambda>t. t\<lparr>pt_pages_info := (pt_pages_info t)(snd r := f (pt_pages_info t (snd r)))\<rparr>)"

definition upd_dir :: "dir_ref \<Rightarrow> (page_directory_t \<Rightarrow> page_directory_t) \<Rightarrow> mmu \<Rightarrow> mmu" where
  "upd_dir d f s = s\<lparr>dir_store := (dir_store s)(d := f (dir_store s d))\<rparr>"

definition set_dir_table :: "dir_ref \<Rightarrow> slot \<Rightarrow> addr \<Rightarrow> mmu \<Rightarrow> mmu" where
  "set_dir_table d i t = upd_dir d (\<lambda>p. p\<lparr>pd_tables := (pd_tables p)(i := t)\<rparr>)"

definition set_dir_physical :: "dir_ref \<Rightarrow> slot \<Rightarrow> u32 \<Rightarrow> mmu \<Rightarrow> mmu" where
  "set_dir_physical d i a = upd_dir d (\<lambda>p. p\<lparr>pd_tablesPhysical := (pd_tablesPhysical p)(i := a)\<rparr>)"

text \<open>An operation of \<open>memmap.c\<close> on one of the maps, and the lock of a map.\<close>

definition on_memmap :: "map_ref \<Rightarrow> (memmap_t \<Rightarrow> memmap_t outcome) \<Rightarrow> unit mm" where
  "on_memmap r f = stepP (\<lambda>s. bindE (f (memmaps s r)) (\<lambda>m. Inr (s\<lparr>memmaps := (memmaps s)(r := m)\<rparr>)))"

definition put_map_lock :: "map_ref \<Rightarrow> mutex_t \<Rightarrow> mmu \<Rightarrow> mmu" where
  "put_map_lock r l s = s\<lparr>memmaps := (memmaps s)(r := (memmaps s r)\<lparr>mm_lock := l\<rparr>)\<rparr>"

definition memmap_wait :: "map_ref \<Rightarrow> unit mm" where
  "memmap_wait r = waitP (\<lambda>s. mm_lock (memmaps s r)) (put_map_lock r)"

definition memmap_release :: "map_ref \<Rightarrow> unit mm" where
  "memmap_release r = releaseP (\<lambda>s. mm_lock (memmaps s r)) (put_map_lock r)"

definition put_refs_lock :: "mutex_t \<Rightarrow> mmu \<Rightarrow> mmu" where
  "put_refs_lock l s = s\<lparr>frame_refs_lock := l\<rparr>"

definition refs_wait :: "unit mm" where "refs_wait = waitP frame_refs_lock put_refs_lock"

definition refs_release :: "unit mm" where "refs_release = releaseP frame_refs_lock put_refs_lock"

text \<open>\<open>frame_refs[f] += d\<close> for an unsigned counter.\<close>

definition add_ref :: "nat \<Rightarrow> u32 \<Rightarrow> mmu \<Rightarrow> mmu outcome" where
  "add_ref f d s = bindE (readE (frame_refs s) f) (\<lambda>c.
     bindE (writeE (frame_refs s) f (c + d)) (\<lambda>rs. Inr (s\<lparr>frame_refs := rs\<rparr>)))"

definition frame_addr :: "20 word \<Rightarrow> u32" where
  "frame_addr f = ucast f * PAGE_SIZE"

section \<open>Frames\<close>

definition clear_page :: "page_t \<Rightarrow> page_t" where
  "clear_page p = p\<lparr>pg_frame := 0, pg_present := False, pg_accessed := False, pg_dirty := False,
     pg_rw := False, pg_user := False\<rparr>"

text \<open>The pointer may be \<open>NULL\<close>, when \<open>mmu_get_page\<close> found no table.\<close>

definition mmu_frame_free :: "page_ref option \<Rightarrow> unit mm" where
  "mmu_frame_free p = (case p of None \<Rightarrow> trapP Null_Deref
     | Some r \<Rightarrow>
         bindP (getP (\<lambda>s. pg_frame (page_at r s))) (\<lambda>f.
         if f = 0 then retP ()
         else bindP refs_wait (\<lambda>_.
              bindP (stepP (add_ref (unat f) (- 1))) (\<lambda>_.
              bindP (liftP (\<lambda>s. readE (frame_refs s) (unat f))) (\<lambda>c.
              bindP (if c = 0 then
                       bindP (memmap_wait Physical_Memmap) (\<lambda>_.
                       bindP (on_memmap Physical_Memmap (\<lambda>m. memmap_clear_page m (frame_addr f))) (\<lambda>_.
                       memmap_release Physical_Memmap))
                     else retP ()) (\<lambda>_.
              bindP refs_release (\<lambda>_. updP (upd_page r clear_page))))))))"

text \<open>
  The value of the search that means no free page is 0, and the code compares it with \<open>-1\<close>:
  see \<open>alloc_frame_exhausted\<close>.
\<close>

definition map_page :: "u32 \<Rightarrow> page_t \<Rightarrow> page_t" where
  "map_page idx p = p\<lparr>pg_present := True, pg_accessed := False, pg_dirty := False,
     pg_frame := ucast idx\<rparr>"

definition mmu_alloc_frame :: "u32 \<Rightarrow> dir_ref \<Rightarrow> u32 mm" where
  "mmu_alloc_frame address d =
     bindP (getP (\<lambda>s. pd_tables (dir_store s d) (table_idx address))) (\<lambda>t.
     bindP (assertP (t \<noteq> NULL)) (\<lambda>_.
     let r = (t, page_idx address) in
     bindP (getP (\<lambda>s. pg_frame (page_at r s))) (\<lambda>f.
     if f \<noteq> 0 then retP NULL
     else bindP (memmap_wait Physical_Memmap) (\<lambda>_.
          bindP (liftP (\<lambda>s. memmap_find_free_page (physical_memmap s))) (\<lambda>idx.
          if idx = - 1 then trapP Kernel_Panic
          else bindP (on_memmap Physical_Memmap (\<lambda>m. memmap_set_page m (idx * PAGE_SIZE))) (\<lambda>_.
               bindP (memmap_release Physical_Memmap) (\<lambda>_.
               bindP (updP (upd_page r (map_page idx))) (\<lambda>_.
               bindP (updP (upd_info r (\<lambda>i. i\<lparr>pi_commited := True\<rparr>))) (\<lambda>_.
               bindP (stepP (add_ref (unat idx) 1)) (\<lambda>_.
               retP (idx * PAGE_SIZE)))))))))))"

section \<open>Pages\<close>

definition page_flags :: "u32 \<Rightarrow> page_t \<Rightarrow> page_t" where
  "page_flags flags p = p\<lparr>pg_rw := has_flag flags ALLOC_FRAME_WRITEABLE,
     pg_user := \<not> has_flag flags ALLOC_FRAME_KERNEL\<rparr>"

definition info_flags :: "u32 \<Rightarrow> page_info_t \<Rightarrow> page_info_t" where
  "info_flags flags i = i\<lparr>pi_cow := has_flag flags ALLOC_FRAME_COW,
     pi_noshare := has_flag flags ALLOC_FRAME_NOSHARE, pi_mmap := has_flag flags ALLOC_FRAME_MMAP\<rparr>"

definition set_errno :: "i32 \<Rightarrow> mmu \<Rightarrow> mmu" where
  "set_errno e s = s\<lparr>mm_current := map_option (\<lambda>t. t\<lparr>mt_errno := e\<rparr>) (mm_current s)\<rparr>"

text \<open>
  \<open>table_alloc\<close> is the call of \<open>kalloc\<close> for a new page table: its address, and the physical
  address it stored.  The value is the page and what was stored in \<open>*phys\<close>, if anything was.
\<close>

definition mmu_alloc_page :: "(addr \<times> u32 option) mm \<Rightarrow> dir_ref \<Rightarrow> u32 \<Rightarrow> u32 \<Rightarrow>
    (page_ref option \<times> u32 option) mm" where
  "mmu_alloc_page table_alloc d vaddr flags =
     (let i = table_idx vaddr in
      bindP (getP (\<lambda>s. pd_tables (dir_store s d) i)) (\<lambda>t0.
      bindP (if t0 \<noteq> NULL then retP True
             else if has_flag flags ALLOC_FRAME_MKTABLE then
               bindP table_alloc (\<lambda>(t, phys).
               bindP (updP (set_dir_table d i t)) (\<lambda>_.
               if t = NULL then bindP (updP (set_errno ENOMEM)) (\<lambda>_. retP False)
               else bindP (updP (upd_table t (\<lambda>_. empty_table))) (\<lambda>_.
                    bindP (getP (\<lambda>s. case phys of Some a \<Rightarrow> a | None \<Rightarrow> stale s)) (\<lambda>tmp.
                    bindP (updP (set_dir_physical d i (tmp OR 0x7))) (\<lambda>_. retP True)))))
             else retP False) (\<lambda>ok.
      if \<not> ok then retP (None, None)
      else bindP (getP (\<lambda>s. pd_tables (dir_store s d) i)) (\<lambda>t.
           let r = (t, page_idx vaddr) in
           bindP (updP (upd_page r (page_flags flags))) (\<lambda>_.
           bindP (updP (upd_info r (info_flags flags))) (\<lambda>_.
           bindP (updP (upd_table t (\<lambda>tb. if pi_noshare (pt_pages_info tb (snd r)) then
                    tb\<lparr>pt_noshare := True\<rparr> else tb))) (\<lambda>_.
           if has_flag flags ALLOC_FRAME_ALLOC_PHYS then
             bindP (mmu_alloc_frame vaddr d) (\<lambda>a. retP (Some r, Some a))
           else retP (Some r, None))))))))"

definition mmu_get_page :: "dir_ref \<Rightarrow> u32 \<Rightarrow> mmu \<Rightarrow> page_ref option" where
  "mmu_get_page d address s =
     (let t = pd_tables (dir_store s d) (table_idx address) in
      if t = NULL then None else Some (t, page_idx address))"

section \<open>The page allocator\<close>

definition round_up :: "u32 \<Rightarrow> u32 \<Rightarrow> u32" where
  "round_up low a = (if a AND low \<noteq> 0 then (a AND NOT low) + (low + 1) else a)"

definition kalloc_premmu :: "u32 \<Rightarrow> u32 \<Rightarrow> (addr \<times> u32 option) mm" where
  "kalloc_premmu sz flags =
     bindP (assertP (has_flag flags KALLOC_OPTN_KERNEL)) (\<lambda>_.
     bindP (updP (\<lambda>s. s\<lparr>placement_address := round_up 0x3 (placement_address s)\<rparr>)) (\<lambda>_.
     bindP (getP placement_address) (\<lambda>pa.
     if sz < (pa AND 0xFFFFF000) + 0x1000 \<and> \<not> has_flag flags KALLOC_OPTN_ALIGN then
       bindP (updP (\<lambda>s. s\<lparr>placement_address := pa + sz\<rparr>)) (\<lambda>_. retP (pa, None))
     else
       let pa' = (if has_flag flags KALLOC_OPTN_ALIGN then round_up 0xFFF pa else pa) in
       bindP (updP (\<lambda>s. s\<lparr>placement_address := pa' + sz\<rparr>)) (\<lambda>_. retP (pa', Some pa')))))"

text \<open>
  \<open>for (a = first; a < stop; a += 0x1000)\<close> with a body that says whether to go on: \<open>True\<close> when
  the loop ran to its end.  Where the sum of address and size is within a page of the end of the
  address space the loop variable wraps around and the loop need not end.
\<close>

partial_function (option) page_loop ::
    "(u32 \<Rightarrow> (mmu \<Rightarrow> mmu) list \<Rightarrow> mmu \<Rightarrow> (bool \<times> mmu \<times> (mmu \<Rightarrow> mmu) list) run) \<Rightarrow>
     u32 \<Rightarrow> u32 \<Rightarrow> (mmu \<Rightarrow> mmu) list \<Rightarrow> mmu \<Rightarrow> (bool \<times> mmu \<times> (mmu \<Rightarrow> mmu) list) run" where
  "page_loop body a stop es s =
     (if a < stop then
        (case body a es s of
           None \<Rightarrow> None
         | Some (Inl t) \<Rightarrow> Some (Inl t)
         | Some (Inr (go, s', es')) \<Rightarrow>
             if go then page_loop body (a + 0x1000) stop es' s' else Some (Inr (False, s', es')))
      else Some (Inr (True, s, es)))"

declare page_loop.simps [code]

definition malloc_struct :: "addr mm" where
  "malloc_struct = bindP (getP (\<lambda>s. case mallocs s of [] \<Rightarrow> NULL | a # _ \<Rightarrow> a)) (\<lambda>a.
     bindP (updP (\<lambda>s. s\<lparr>mallocs := tl (mallocs s)\<rparr>)) (\<lambda>_. retP a))"

definition free_struct :: "addr \<Rightarrow> unit mm" where
  "free_struct a = updP (\<lambda>s. s\<lparr>mm_freed := mm_freed s @ [a]\<rparr>)"

text \<open>The kernel's buffers, or those of the running task.\<close>

definition get_buffers :: "bool \<Rightarrow> (addr \<times> buffer_t) list mm" where
  "get_buffers kern = (if kern then getP kernel_buffers
     else liftP (\<lambda>s. case mm_current s of None \<Rightarrow> Inl Null_Deref | Some t \<Rightarrow> Inr (mt_buffers t)))"

definition put_buffers :: "bool \<Rightarrow> (addr \<times> buffer_t) list \<Rightarrow> unit mm" where
  "put_buffers kern bs = (if kern then updP (\<lambda>s. s\<lparr>kernel_buffers := bs\<rparr>)
     else updP (\<lambda>s. s\<lparr>mm_current := map_option (\<lambda>t. t\<lparr>mt_buffers := bs\<rparr>) (mm_current s)\<rparr>))"

text \<open>The pages are found and marked used under the lock of the map; \<open>NULL\<close> when that fails.\<close>

definition reserve_pages :: "map_ref \<Rightarrow> u32 \<Rightarrow> u32 \<Rightarrow> addr mm" where
  "reserve_pages mr sz vaddr0 =
     bindP (memmap_wait mr) (\<lambda>_.
     bindP (if vaddr0 \<noteq> NULL then
              bindP (page_loop (\<lambda>a. bindP (liftP (\<lambda>s. memmap_test_page (memmaps s mr) a))
                       (\<lambda>u. retP (u = 0))) vaddr0 (vaddr0 + sz)) (\<lambda>free.
              retP (if free then vaddr0 else NULL))
            else bindP (liftP (\<lambda>s. memmap_find_free_pages (stale s) (memmaps s mr)
                     ((sz + 0xFFF) div 0x1000))) (\<lambda>p.
              retP (p * 0x1000))) (\<lambda>vaddr.
     if vaddr = NULL then bindP (memmap_release mr) (\<lambda>_. retP NULL)
     else bindP (page_loop (\<lambda>a. bindP (on_memmap mr (\<lambda>m. memmap_set_page m a)) (\<lambda>_. retP True))
            vaddr (vaddr + sz)) (\<lambda>_.
          bindP (memmap_release mr) (\<lambda>_. retP vaddr))))"

text \<open>
  The options of the pages, which overwrite the choice of kernel or user pages made before, so
  that \<open>ALLOC_FRAME_KERNEL\<close> is never passed on.
\<close>

definition page_options :: "u32 \<Rightarrow> u32" where
  "page_options flags =
     (let p0 = ALLOC_FRAME_MKTABLE;
          p1 = (if has_flag flags KALLOC_OPTN_NOCOW then p0 else p0 OR ALLOC_FRAME_COW);
          p2 = (if has_flag flags KALLOC_OPTN_NOSHARE then p1 OR ALLOC_FRAME_NOSHARE else p1);
          p3 = (if has_flag flags KALLOC_OPTN_MMAP then p2 OR ALLOC_FRAME_MMAP
                else p2 OR ALLOC_FRAME_ALLOC_PHYS) in
      p3 OR ALLOC_FRAME_WRITEABLE)"

definition track_buffer :: "u32 \<Rightarrow> addr \<Rightarrow> u32 \<Rightarrow> addr \<Rightarrow> unit mm" where
  "track_buffer sz vaddr flags mmap =
     bindP malloc_struct (\<lambda>buf.
     bindP (assertP (buf \<noteq> NULL)) (\<lambda>_.
     let kern = has_flag flags KALLOC_OPTN_KERNEL;
         b = \<lparr>b_address = vaddr, b_pages = (sz + 0xFFF) div 0x1000,
              b_mmap = (if has_flag flags KALLOC_OPTN_MMAP then mmap else NULL)\<rparr> in
     bindP (get_buffers kern) (\<lambda>bs. put_buffers kern (bs @ [(buf, b)]))))"

text \<open>
  \<open>mmap\<close> is the optional last argument.  The value is the address and what was stored in
  \<open>*phys\<close>, if anything was.
\<close>

fun kalloc :: "nat \<Rightarrow> u32 \<Rightarrow> u32 \<Rightarrow> u32 \<Rightarrow> addr \<Rightarrow> (addr \<times> u32 option) mm" where
  "kalloc 0 sz vaddr0 flags mmap = (\<lambda>es s. None)"
| "kalloc (Suc n) sz vaddr0 flags mmap =
     bindP (getP current_directory) (\<lambda>cur.
     case cur of
       None \<Rightarrow> kalloc_premmu sz flags
     | Some curdir \<Rightarrow>
         bindP (assertP (vaddr0 = NULL \<or> vaddr0 AND 0xFFFFF000 = vaddr0)) (\<lambda>_.
         let kern = has_flag flags KALLOC_OPTN_KERNEL;
             dir = (if kern then Kernel_Directory else curdir) in
         bindP (liftP (\<lambda>s. if kern then Inr Kernel_Memmap
                  else case current_memmap s of None \<Rightarrow> Inl Null_Deref | Some mr \<Rightarrow> Inr mr)) (\<lambda>mr.
         bindP (reserve_pages mr sz vaddr0) (\<lambda>vaddr.
         if vaddr = NULL then retP (NULL, None)
         else
           let pflags = page_options flags;
               alloc_page = mmu_alloc_page (kalloc n sizeof_page_table NULL
                 (KALLOC_OPTN_ALIGN OR KALLOC_OPTN_KERNEL) NULL) dir in
           bindP (alloc_page vaddr pflags) (\<lambda>(page, phys).
           bindP (assertP (page \<noteq> None)) (\<lambda>_.
           bindP (page_loop (\<lambda>a. bindP (alloc_page a pflags) (\<lambda>(page, _).
                    bindP (assertP (page \<noteq> None)) (\<lambda>_. retP True)))
                    (vaddr + 0x1000) (vaddr + sz)) (\<lambda>_.
           bindP (getP kheap_len) (\<lambda>heap.
           bindP (if \<not> has_flag flags KALLOC_OPTN_NOFREE \<and> heap \<noteq> 0
                  then track_buffer sz vaddr flags mmap else retP ()) (\<lambda>_.
           retP (vaddr, phys))))))))))"

text \<open>The search for a buffer or a mapping and its removal from the list.\<close>

fun remove_first :: "('a \<Rightarrow> bool) \<Rightarrow> 'a list \<Rightarrow> 'a list" where
  "remove_first P [] = []"
| "remove_first P (x # xs) = (if P x then xs else x # remove_first P xs)"

definition free_pages :: "dir_ref \<Rightarrow> map_ref \<Rightarrow> buffer_t \<Rightarrow> unit mm" where
  "free_pages d mr b = foldP (\<lambda>i. let a = b_address b + of_nat i * 0x1000 in
     bindP (getP (mmu_get_page d a)) (\<lambda>p.
     bindP (mmu_frame_free p) (\<lambda>_.
     on_memmap mr (\<lambda>m. memmap_clear_page m a)))) [0..<unat (b_pages b)]"

definition drop_mapping :: "addr \<Rightarrow> unit mm" where
  "drop_mapping m =
     bindP (stepP (\<lambda>s. case mm_current s of None \<Rightarrow> Inl Null_Deref
       | Some t \<Rightarrow> if m \<in> fst ` set (mt_mmaps t) then
                     Inr (s\<lparr>mm_current := Some (t\<lparr>mt_mmaps := remove_first (\<lambda>x. fst x = m) (mt_mmaps t)\<rparr>)\<rparr>)
                   else Inl Null_Deref)) (\<lambda>_.
     free_struct m)"

definition kfree_from :: "bool \<Rightarrow> dir_ref option \<Rightarrow> map_ref \<Rightarrow> addr \<Rightarrow> unit mm" where
  "kfree_from kern d mr ptr =
     bindP (get_buffers kern) (\<lambda>bs.
     case find (\<lambda>x. b_address (snd x) = ptr) bs of
       None \<Rightarrow> trapP Assert_Failed
     | Some (at, b) \<Rightarrow>
         bindP (case d of
                  Some dir \<Rightarrow> free_pages dir mr b
                | None \<Rightarrow> if b_pages b = 0 then retP () else trapP Null_Deref) (\<lambda>_.
         bindP (if b_mmap b \<noteq> NULL then drop_mapping (b_mmap b) else retP ()) (\<lambda>_.
         bindP (get_buffers kern) (\<lambda>bs'.
         bindP (put_buffers kern (remove_first (\<lambda>x. fst x = at) bs')) (\<lambda>_.
         free_struct at)))))"

definition kfree :: "addr \<Rightarrow> unit mm" where
  "kfree ptr =
     bindP (getP kernel_buffers) (\<lambda>kbs.
     if ptr \<in> (\<lambda>x. b_address (snd x)) ` set kbs
     then kfree_from True (Some Kernel_Directory) Kernel_Memmap ptr
     else bindP (getP mm_current) (\<lambda>cur.
          case cur of
            None \<Rightarrow> trapP Assert_Failed
          | Some t \<Rightarrow> bindP (getP current_directory) (\<lambda>d. kfree_from False d (mt_memmap t) ptr)))"

definition switch_page_directory :: "dir_ref \<Rightarrow> u32 \<Rightarrow> mmu \<Rightarrow> mmu" where
  "switch_page_directory d phys s =
     s\<lparr>current_directory := Some d, cr3 := phys, cr0 := cr0 s OR 0x80010000\<rparr>"

text \<open>\<open>tablesPhysical\<close> follows the 1024 table pointers.\<close>

definition mmu_switch_to_kernel_directory :: "mmu \<Rightarrow> mmu" where
  "mmu_switch_to_kernel_directory s =
     switch_page_directory Kernel_Directory (kernel_directory_at s + 0x1000)
       (s\<lparr>current_memmap := Some Default_Memmap\<rparr>)"

definition brk :: "addr \<Rightarrow> i32" where "brk addr = ENOSYS"

definition sbrk :: "u32 \<Rightarrow> addr" where "sbrk inc = ENOSYS"

end
