(* ===== verification/Frames.thy ===== *)
theory Frames
  imports Mmu
begin

text \<open>
  The accounting of physical frames in the memory manager.  A frame other than frame 0 is marked
  used exactly while some page entry refers to it, and its counter is the number of those
  entries; allocating, sharing and freeing keep this.
\<close>

section \<open>State access\<close>

named_theorems mmu_simps \<open>what the state updates of the memory manager change\<close>

lemma page_at_upd_page [mmu_simps]:
  "page_at r (upd_page q f s) = (if r = q then f (page_at q s) else page_at r s)"
  by (cases r; cases q) (auto simp: page_at_def upd_page_def upd_table_def)

lemma info_at_upd_info [mmu_simps]:
  "info_at r (upd_info q f s) = (if r = q then f (info_at q s) else info_at r s)"
  by (cases r; cases q) (auto simp: info_at_def upd_info_def upd_table_def)

lemma upd_page_fields [mmu_simps]:
  "info_at r (upd_page q f s) = info_at r s"
  "memmaps (upd_page q f s) = memmaps s"
  "frame_refs (upd_page q f s) = frame_refs s"
  "frame_refs_lock (upd_page q f s) = frame_refs_lock s"
  "dir_store (upd_page q f s) = dir_store s"
  "frame_data (upd_page q f s) = frame_data s"
  "current_directory (upd_page q f s) = current_directory s"
  "frame_refs_update g (upd_page q f s) = upd_page q f (frame_refs_update g s)"
  "memmaps_update h (upd_page q f s) = upd_page q f (memmaps_update h s)"
  by (simp_all add: info_at_def upd_page_def upd_table_def)

lemma upd_info_fields [mmu_simps]:
  "page_at r (upd_info q f s) = page_at r s"
  "memmaps (upd_info q f s) = memmaps s"
  "frame_refs (upd_info q f s) = frame_refs s"
  "frame_refs_lock (upd_info q f s) = frame_refs_lock s"
  "dir_store (upd_info q f s) = dir_store s"
  "frame_data (upd_info q f s) = frame_data s"
  "current_directory (upd_info q f s) = current_directory s"
  "frame_refs_update g (upd_info q f s) = upd_info q f (frame_refs_update g s)"
  "memmaps_update h (upd_info q f s) = upd_info q f (memmaps_update h s)"
  by (simp_all add: page_at_def upd_info_def upd_table_def)

lemma other_fields_page_at [mmu_simps]:
  "page_at r (s\<lparr>memmaps := ms'\<rparr>) = page_at r s"
  "page_at r (s\<lparr>frame_refs := rs\<rparr>) = page_at r s"
  "page_at r (s\<lparr>frame_refs_lock := l\<rparr>) = page_at r s"
  "page_at r (s\<lparr>frame_data := fd\<rparr>) = page_at r s"
  "info_at r (s\<lparr>memmaps := ms'\<rparr>) = info_at r s"
  "info_at r (s\<lparr>frame_refs := rs\<rparr>) = info_at r s"
  "info_at r (s\<lparr>frame_refs_lock := l\<rparr>) = info_at r s"
  "info_at r (s\<lparr>frame_data := fd\<rparr>) = info_at r s"
  by (simp_all add: page_at_def info_at_def)

lemma page_fields [simp]:
  "pg_frame (map_page idx p) = ucast idx"
  "pg_present (map_page idx p)"
  "pg_rw (map_page idx p) = pg_rw p"
  "pg_user (map_page idx p) = pg_user p"
  "pg_frame (clear_page p) = 0"
  "\<not> pg_present (clear_page p)"
  by (simp_all add: map_page_def clear_page_def)

section \<open>Locks\<close>

lemma mutex_same: "ms l = v \<Longrightarrow> l\<lparr>ms := v\<rparr> = l" for l :: mutex_t
  by simp

lemma run_memmap_wait:
  "ms (mm_lock (memmaps s r)) = 0 \<Longrightarrow> memmap_wait r es s =
     Some (Inr ((), put_map_lock r ((mm_lock (memmaps s r))\<lparr>ms := 1\<rparr>) s, es))"
  by (simp add: memmap_wait_def run_waitP)

lemma run_memmap_release:
  "ms (mm_lock (memmaps s r)) = 1 \<Longrightarrow> memmap_release r es s =
     Some (Inr ((), put_map_lock r ((mm_lock (memmaps s r))\<lparr>ms := 0\<rparr>) s, es))"
  by (simp add: memmap_release_def run_releaseP)

lemma run_refs_wait:
  "ms (frame_refs_lock s) = 0 \<Longrightarrow> refs_wait es s =
     Some (Inr ((), s\<lparr>frame_refs_lock := (frame_refs_lock s)\<lparr>ms := 1\<rparr>\<rparr>, es))"
  by (simp add: refs_wait_def run_waitP put_refs_lock_def)

lemma run_refs_release:
  "ms (frame_refs_lock s) = 1 \<Longrightarrow> refs_release es s =
     Some (Inr ((), s\<lparr>frame_refs_lock := (frame_refs_lock s)\<lparr>ms := 0\<rparr>\<rparr>, es))"
  by (simp add: refs_release_def run_releaseP put_refs_lock_def)

lemma run_on_memmap:
  "f (memmaps s r) = Inr m \<Longrightarrow>
     on_memmap r f es s = Some (Inr ((), s\<lparr>memmaps := (memmaps s)(r := m)\<rparr>, es))"
  by (simp add: on_memmap_def)

lemmas run_steps = run_memmap_wait run_memmap_release run_refs_wait run_refs_release run_on_memmap

section \<open>Frame addresses\<close>

lemma unat_frame_addr: "p < 2 ^ 20 \<Longrightarrow> unat (of_nat p * PAGE_SIZE) = p * 4096"
proof -
  assume p: "p < 2 ^ 20"
  have "of_nat p * PAGE_SIZE = (of_nat (p * 4096) :: u32)" by (simp add: PAGE_SIZE_def)
  then show ?thesis using p unat_of_nat_u32 [of "p * 4096"] by (simp only:) simp
qed

lemma page_of_frame_addr: "p < 2 ^ 20 \<Longrightarrow> page_of (of_nat p * PAGE_SIZE) = p"
  by (simp add: page_of_def unat_frame_addr)

lemma page_aligned: "(x * PAGE_SIZE) AND 0xFFF = 0"
proof -
  have "x * PAGE_SIZE = push_bit 12 x" by (simp add: PAGE_SIZE_def push_bit_eq_mult)
  moreover have "(0xFFF :: u32) = Bit_Operations.mask 12" by (simp add: mask_eq_exp_minus_1)
  moreover have "push_bit 12 x AND Bit_Operations.mask 12 = 0" for x :: u32
    by (rule bit_eqI) (auto simp only: bit_and_iff bit_push_bit_iff bit_mask_iff bit_0_eq bot_apply bot_bool_def)
  ultimately show ?thesis by (simp only:)
qed

lemma frame_addr_of_nat: "frame_addr f = of_nat (unat f) * PAGE_SIZE"
  by (simp add: frame_addr_def)

lemma frame_small [simp]: "unat (f :: 20 word) < 1048576"
  using unsigned_less [of f, where 'a = nat] by simp

lemma page_of_frame: "page_of (frame_addr f) = unat f"
  using page_of_frame_addr [of "unat f"] by (simp add: frame_addr_of_nat del: of_nat_unat)

lemma frame_of_nat: "p < 2 ^ 20 \<Longrightarrow> ucast (of_nat p :: u32) = (of_nat p :: 20 word)"
  by (simp add: word_unat_eq_iff unsigned_ucast_eq unsigned_of_nat take_bit_nat_eq_self)

lemma unat_frame_of_nat: "p < 2 ^ 20 \<Longrightarrow> unat (of_nat p :: 20 word) = p"
  by (simp add: unsigned_of_nat take_bit_nat_eq_self)

section \<open>Accounting\<close>

text \<open>The entries of the tables \<open>ts\<close> that refer to a frame.\<close>

definition mapped_at :: "addr set \<Rightarrow> 20 word \<Rightarrow> mmu \<Rightarrow> page_ref set" where
  "mapped_at ts f s = {r. fst r \<in> ts \<and> pg_frame (page_at r s) = f}"

text \<open>
  Tables take more than a page each, so there are fewer than \<open>2 ^ 22\<close> and no counter can wrap
  around.  The counters cover the frames of the physical map, and at most the frames an entry
  can name.
\<close>

definition frames_ok :: "addr set \<Rightarrow> mmu \<Rightarrow> bool" where
  "frames_ok ts s \<longleftrightarrow> memmap_ok (physical_memmap s) \<and>
     capacity (physical_memmap s) = length (frame_refs s) \<and> length (frame_refs s) \<le> 2 ^ 20 \<and>
     frame_refs s \<noteq> [] \<and> card ts < 2 ^ 22 \<and> used (physical_memmap s) 0 \<and>
     (\<forall>r. fst r \<in> ts \<longrightarrow> unat (pg_frame (page_at r s)) < length (frame_refs s)) \<and>
     (\<forall>f. f \<noteq> 0 \<longrightarrow> unat f < length (frame_refs s) \<longrightarrow>
        unat (frame_refs s ! unat f) = card (mapped_at ts f s) \<and>
        (used (physical_memmap s) (unat f) \<longleftrightarrow> mapped_at ts f s \<noteq> {}))"

text \<open>The part of this that allocating a frame relies on.\<close>

definition phys_ok :: "mmu \<Rightarrow> bool" where
  "phys_ok s \<longleftrightarrow> memmap_ok (physical_memmap s) \<and>
     capacity (physical_memmap s) = length (frame_refs s) \<and> length (frame_refs s) \<le> 2 ^ 20 \<and>
     used (physical_memmap s) 0"

definition unlocked :: "mmu \<Rightarrow> bool" where
  "unlocked s \<longleftrightarrow> ms (mm_lock (physical_memmap s)) = 0 \<and> ms (frame_refs_lock s) = 0"

lemma mapped_atI: "fst r \<in> ts \<Longrightarrow> pg_frame (page_at r s) = f \<Longrightarrow> r \<in> mapped_at ts f s"
  by (simp add: mapped_at_def)

lemma finite_mapped_at [simp]: "finite (mapped_at ts f s)"
  by (rule finite_subset [of _ UNIV]) auto

lemma card_mapped_at: "card ts < 2 ^ 22 \<Longrightarrow> card (mapped_at ts f s) < 2 ^ 32 - 1"
proof -
  assume ts: "card ts < 2 ^ 22"
  have "card (mapped_at ts f s) \<le> card (ts \<times> (UNIV :: slot set))"
    by (rule card_mono) (auto simp: mapped_at_def)
  also have "\<dots> = card ts * 1024" by (simp add: card_cartesian_product card_word)
  finally show ?thesis using ts by simp
qed

lemma frames_okD:
  assumes "frames_ok ts s"
  shows "memmap_ok (physical_memmap s)" "capacity (physical_memmap s) = length (frame_refs s)"
    "length (frame_refs s) \<le> 1048576" "card ts < 4194304" "used (physical_memmap s) 0"
    "\<And>r. fst r \<in> ts \<Longrightarrow> unat (pg_frame (page_at r s)) < length (frame_refs s)"
    "\<And>f. f \<noteq> 0 \<Longrightarrow> unat f < length (frame_refs s) \<Longrightarrow>
       unat (frame_refs s ! unat f) = card (mapped_at ts f s)"
    "\<And>f. f \<noteq> 0 \<Longrightarrow> unat f < length (frame_refs s) \<Longrightarrow>
       used (physical_memmap s) (unat f) \<longleftrightarrow> mapped_at ts f s \<noteq> {}"
    "frame_refs s \<noteq> []"
  using assms by (simp_all add: frames_ok_def split_paired_all del: split_paired_All)

section \<open>Allocating a frame\<close>

text \<open>The state in which entry \<open>r\<close> has been given frame \<open>p\<close> and the physical map is \<open>m\<close>.\<close>

definition alloc_state :: "page_ref \<Rightarrow> nat \<Rightarrow> memmap_t \<Rightarrow> mmu \<Rightarrow> mmu" where
  "alloc_state r p m s = upd_info r (\<lambda>i. i\<lparr>pi_commited := True\<rparr>) (upd_page r (map_page (of_nat p))
     (s\<lparr>memmaps := (memmaps s)(Physical_Memmap := m),
        frame_refs := (frame_refs s)[p := frame_refs s ! p + 1]\<rparr>))"

lemma frames_phys_ok: "frames_ok ts s \<Longrightarrow> phys_ok s"
  by (simp add: frames_ok_def phys_ok_def)

lemma find_free_run:
  assumes "phys_ok s"
  shows "first_free (physical_memmap s) = Some p \<Longrightarrow>
     p \<noteq> 0 \<and> p < length (frame_refs s) \<and> p < 2 ^ 20 \<and> \<not> used (physical_memmap s) p"
  using assms by (cases "p = 0") (auto simp: phys_ok_def first_free_def find_Some_iff)

lemma memmap_lock_free [simp]:
  "memmap_ok (m\<lparr>mm_lock := l\<rparr>) = memmap_ok m"
  "capacity (m\<lparr>mm_lock := l\<rparr>) = capacity m"
  "used (m\<lparr>mm_lock := l\<rparr>) = used m"
  "first_free (m\<lparr>mm_lock := l\<rparr>) = first_free m"
  by (simp_all add: memmap_ok_def capacity_def used_def first_free_def fun_eq_iff split: option.split)

lemma mmu_alloc_frame_run:
  assumes ok: "phys_ok s" and lock: "ms (mm_lock (physical_memmap s)) = 0"
    and t: "pd_tables (dir_store s d) (table_idx a) = t" "t \<noteq> NULL"
    and page: "pg_frame (page_at (t, page_idx a) s) = 0"
    and free: "first_free (physical_memmap s) = Some p"
  obtains m where "mmu_alloc_frame a d es s =
      Some (Inr (of_nat p * PAGE_SIZE, alloc_state (t, page_idx a) p m s, es))"
    "memmap_ok m" "capacity m = capacity (physical_memmap s)"
    "mm_lock m = mm_lock (physical_memmap s)"
    "\<And>q. used m q \<longleftrightarrow> used (physical_memmap s) q \<or> q = p"
proof -
  have D: "memmap_ok (physical_memmap s)" "capacity (physical_memmap s) = length (frame_refs s)"
    using ok by (simp_all add: phys_ok_def)
  note p = find_free_run [OF ok free]
  let ?l1 = "(mm_lock (physical_memmap s))\<lparr>ms := 1\<rparr>"
  let ?s1 = "put_map_lock Physical_Memmap ?l1 s"
  have m1: "physical_memmap ?s1 = (physical_memmap s)\<lparr>mm_lock := ?l1\<rparr>"
    by (simp add: put_map_lock_def)
  have "memmap_find_free_page (physical_memmap ?s1) = Inr (of_nat p)"
    using memmap_find_free_page_lowest [of "physical_memmap ?s1"] D(1) free by (simp add: m1)
  moreover obtain m2 where m2: "memmap_set_page (physical_memmap ?s1) (of_nat p * PAGE_SIZE) = Inr m2"
      "memmap_ok m2" "mm_length m2 = mm_length (physical_memmap ?s1)" "mm_lock m2 = ?l1"
      "\<And>q. used m2 q \<longleftrightarrow> used (physical_memmap s) q \<or> q = p"
    using memmap_set_page_eq [of "physical_memmap ?s1" "of_nat p * PAGE_SIZE"] D(1,2) p
    by (auto simp: m1 page_of_frame_addr page_aligned)
  moreover have "of_nat p \<noteq> (- 1 :: u32)"
  proof
    assume "of_nat p = (- 1 :: u32)"
    then have "unat (of_nat p :: u32) = 2 ^ 32 - 1"
      by (simp add: unsigned_minus_1_eq_mask mask_eq_exp_minus_1)
    then show False using p by (simp add: unat_of_nat_u32)
  qed
  moreover have "unat (of_nat p :: u32) = p" using p by (simp add: unat_of_nat_u32)
  ultimately have "mmu_alloc_frame a d es s = Some (Inr (of_nat p * PAGE_SIZE,
      alloc_state (t, page_idx a) p (m2\<lparr>mm_lock := mm_lock (physical_memmap s)\<rparr>) s, es))"
    using lock t page p
    by (simp add: mmu_alloc_frame_def run_steps add_ref_def put_map_lock_def mmu_simps
        alloc_state_def Let_def mutex_same)
  then show ?thesis
    by (rule that) (use m2 in \<open>simp_all add: capacity_def m1\<close>)
qed

lemma mapped_at_upd_page:
  "mapped_at ts f (upd_page r g s) = (if fst r \<in> ts \<and> pg_frame (g (page_at r s)) = f
     then insert r (mapped_at ts f s) else mapped_at ts f s - {r})"
  by (auto simp: mapped_at_def page_at_upd_page split: if_splits)

lemma mapped_at_other [simp]:
  "mapped_at ts f (upd_info r h s) = mapped_at ts f s"
  "mapped_at ts f (s\<lparr>memmaps := ms'\<rparr>) = mapped_at ts f s"
  "mapped_at ts f (s\<lparr>frame_refs := rs\<rparr>) = mapped_at ts f s"
  "mapped_at ts f (s\<lparr>frame_refs_lock := l\<rparr>) = mapped_at ts f s"
  "mapped_at ts f (s\<lparr>frame_data := fd\<rparr>) = mapped_at ts f s"
  by (simp_all add: mapped_at_def mmu_simps)

lemma alloc_state_fields:
  "page_at q (alloc_state r p m s) = (if q = r then map_page (of_nat p) (page_at r s) else page_at q s)"
  "info_at q (alloc_state r p m s) =
     (if q = r then (info_at r s)\<lparr>pi_commited := True\<rparr> else info_at q s)"
  "physical_memmap (alloc_state r p m s) = m"
  "memmaps (alloc_state r p m s) = (memmaps s)(Physical_Memmap := m)"
  "frame_refs (alloc_state r p m s) = (frame_refs s)[p := frame_refs s ! p + 1]"
  "frame_refs_lock (alloc_state r p m s) = frame_refs_lock s"
  "dir_store (alloc_state r p m s) = dir_store s"
  "frame_data (alloc_state r p m s) = frame_data s"
  "current_directory (alloc_state r p m s) = current_directory s"
  by (auto simp: alloc_state_def mmu_simps)

lemma frame_eq_of_nat: "p < 2 ^ 20 \<Longrightarrow> f = of_nat p \<longleftrightarrow> unat f = p" for f :: "20 word"
  using unat_frame_of_nat [of p] by (auto simp: word_unat_eq_iff)

lemma frames_ok_alloc:
  assumes ok: "frames_ok ts s" and r: "fst r \<in> ts" "pg_frame (page_at r s) = 0"
    and p: "p \<noteq> 0" "p < length (frame_refs s)" "\<not> used (physical_memmap s) p"
    and m: "memmap_ok m" "capacity m = capacity (physical_memmap s)"
      "\<And>q. used m q \<longleftrightarrow> used (physical_memmap s) q \<or> q = p"
  shows "frames_ok ts (alloc_state r p m s)"
proof -
  note D = frames_okD [OF ok]
  let ?s = "alloc_state r p m s" and ?f = "of_nat p :: 20 word"
  have p20: "p < 2 ^ 20" using p(2) D(3) by simp
  have f: "?f \<noteq> 0" "unat ?f = p"
    using p20 p(1) unat_frame_of_nat [OF p20] by (auto simp: word_unat_eq_iff)
  have empty: "mapped_at ts ?f s = {}" using D(8) [of ?f] f p by simp
  then have zero: "frame_refs s ! p = 0" using D(7) [of ?f] f p by (simp add: word_unat_eq_iff)
  have mapped: "mapped_at ts g ?s = (if g = ?f then {r} else mapped_at ts g s)" if "g \<noteq> 0" for g
    using that r empty p20
    by (auto simp: alloc_state_def mapped_at_upd_page mmu_simps frame_of_nat mapped_at_def)
  have "unat (frame_refs ?s ! unat g) = card (mapped_at ts g ?s) \<and>
      (used (physical_memmap ?s) (unat g) \<longleftrightarrow> mapped_at ts g ?s \<noteq> {})"
    if g: "g \<noteq> 0" "unat g < length (frame_refs s)" for g
  proof (cases "g = ?f")
    case True
    then show ?thesis using mapped [OF g(1)] m(3) f p(2) zero by (simp add: alloc_state_fields)
  next
    case False
    then have "unat g \<noteq> p" using frame_eq_of_nat [OF p20] by auto
    then show ?thesis
      using False mapped [OF g(1)] m(3) D(7,8) [OF g] by (simp add: alloc_state_fields)
  qed
  moreover have "unat (pg_frame (page_at q ?s)) < length (frame_refs s)" if "fst q \<in> ts" for q
    using D(6) [OF that] p(2) p20 f by (simp add: alloc_state_fields frame_of_nat)
  ultimately show ?thesis
    using D(2-5,9) m by (simp add: frames_ok_def alloc_state_fields del: split_paired_All)
qed

section \<open>Freeing a frame\<close>

definition free_state :: "page_ref \<Rightarrow> memmap_t \<Rightarrow> mmu \<Rightarrow> mmu" where
  "free_state r m s = (let f = unat (pg_frame (page_at r s)) in upd_page r clear_page
     (s\<lparr>frame_refs := (frame_refs s)[f := frame_refs s ! f - 1],
        memmaps := (memmaps s)(Physical_Memmap := m)\<rparr>))"

lemma free_state_fields:
  "page_at q (free_state r m s) = (if q = r then clear_page (page_at r s) else page_at q s)"
  "info_at q (free_state r m s) = info_at q s"
  "physical_memmap (free_state r m s) = m"
  "memmaps (free_state r m s) = (memmaps s)(Physical_Memmap := m)"
  "frame_refs (free_state r m s) = (frame_refs s)
     [unat (pg_frame (page_at r s)) := frame_refs s ! unat (pg_frame (page_at r s)) - 1]"
  "frame_refs_lock (free_state r m s) = frame_refs_lock s"
  "dir_store (free_state r m s) = dir_store s"
  "frame_data (free_state r m s) = frame_data s"
  "current_directory (free_state r m s) = current_directory s"
  by (auto simp: free_state_def Let_def mmu_simps)

lemma mmu_frame_free_run:
  assumes ok: "frames_ok ts s" and lock: "unlocked s" and r: "fst r \<in> ts"
    and f: "pg_frame (page_at r s) = f" "f \<noteq> 0"
  obtains m where "mmu_frame_free (Some r) es s = Some (Inr ((), free_state r m s, es))"
    "memmap_ok m" "capacity m = capacity (physical_memmap s)"
    "mm_lock m = mm_lock (physical_memmap s)"
    "\<And>q. used m q \<longleftrightarrow> used (physical_memmap s) q \<and> \<not> (q = unat f \<and> frame_refs s ! unat f = 1)"
proof -
  note D = frames_okD [OF ok]
  have lt: "unat f < length (frame_refs s)" using D(6) [OF r] f by simp
  let ?l1 = "(mm_lock (physical_memmap s))\<lparr>ms := 1\<rparr>"
  show ?thesis
  proof (cases "frame_refs s ! unat f = 1")
    case True
    let ?m1 = "(physical_memmap s)\<lparr>mm_lock := ?l1\<rparr>"
    obtain m2 where m2: "memmap_clear_page ?m1 (frame_addr f) = Inr m2"
        "memmap_ok m2" "mm_length m2 = mm_length ?m1" "mm_lock m2 = ?l1"
        "\<And>q. used m2 q \<longleftrightarrow> used (physical_memmap s) q \<and> q \<noteq> unat f"
      using memmap_clear_page_eq [of ?m1 "frame_addr f"] D(1,2) lt
      by (auto simp: page_of_frame)
    have "mmu_frame_free (Some r) es s =
        Some (Inr ((), free_state r (m2\<lparr>mm_lock := mm_lock (physical_memmap s)\<rparr>) s, es))"
      using lock f lt True m2
      by (simp add: mmu_frame_free_def run_steps add_ref_def put_map_lock_def mmu_simps
          free_state_def Let_def mutex_same unlocked_def)
    then show ?thesis by (rule that) (use m2 True in \<open>simp_all add: capacity_def\<close>)
  next
    case False
    then have "frame_refs s ! unat f - 1 \<noteq> 0" by simp
    then have "mmu_frame_free (Some r) es s = Some (Inr ((), free_state r (physical_memmap s) s, es))"
      using lock f lt
      by (simp add: mmu_frame_free_def run_steps add_ref_def mmu_simps
          free_state_def Let_def mutex_same unlocked_def)
    then show ?thesis by (rule that) (use D False in simp_all)
  qed
qed

lemma frames_ok_free:
  assumes ok: "frames_ok ts s" and r: "fst r \<in> ts" "pg_frame (page_at r s) = f" "f \<noteq> 0"
    and m: "memmap_ok m" "capacity m = capacity (physical_memmap s)"
      "\<And>q. used m q \<longleftrightarrow> used (physical_memmap s) q \<and> \<not> (q = unat f \<and> frame_refs s ! unat f = 1)"
  shows "frames_ok ts (free_state r m s)"
proof -
  note D = frames_okD [OF ok]
  let ?s = "free_state r m s"
  have lt: "unat f < length (frame_refs s)" using D(6) [OF r(1)] r(2) by simp
  have mem: "r \<in> mapped_at ts f s" using r by (simp add: mapped_at_def)
  have count: "unat (frame_refs s ! unat f) = card (mapped_at ts f s)" using D(7) lt r(3) by simp
  moreover have pos: "card (mapped_at ts f s) \<noteq> 0" using mem by auto
  ultimately have dec: "unat (frame_refs s ! unat f - 1) = card (mapped_at ts f s) - 1"
    by (metis unat_minus_one unat_0)
  have one: "frame_refs s ! unat f = 1 \<longleftrightarrow> mapped_at ts f s = {r}"
  proof -
    have "frame_refs s ! unat f = 1 \<longleftrightarrow> card (mapped_at ts f s) = 1"
      using count by (metis word_unat_eq_iff unat_1)
    also have "\<dots> \<longleftrightarrow> mapped_at ts f s = {r}" using mem by (auto simp: card_1_singleton_iff)
    finally show ?thesis .
  qed
  have mapped: "mapped_at ts g ?s = mapped_at ts g s - {r}" if "g \<noteq> 0" for g
    using that by (auto simp: free_state_def Let_def mapped_at_upd_page)
  have "unat (frame_refs ?s ! unat g) = card (mapped_at ts g ?s) \<and>
      (used (physical_memmap ?s) (unat g) \<longleftrightarrow> mapped_at ts g ?s \<noteq> {})"
    if g: "g \<noteq> 0" "unat g < length (frame_refs s)" for g
  proof (cases "g = f")
    case True
    have refs: "frame_refs ?s ! unat f = frame_refs s ! unat f - 1"
      using lt r(2) by (simp add: free_state_fields)
    have "mapped_at ts f s - {r} \<noteq> {} \<longleftrightarrow> mapped_at ts f s \<noteq> {r}" using mem by blast
    moreover have "used (physical_memmap s) (unat f)" using D(8) [of f] lt r(3) mem by blast
    ultimately show ?thesis
      using True mapped [OF g(1)] m(3) [of "unat f"] one dec mem
      by (simp add: refs free_state_fields(3))
  next
    case False
    then have "unat g \<noteq> unat f" "r \<notin> mapped_at ts g s"
      using r by (auto simp: word_unat_eq_iff mapped_at_def)
    then show ?thesis
      using mapped [OF g(1)] m(3) D(7,8) [OF g] r by (simp add: free_state_fields)
  qed
  moreover have "unat (pg_frame (page_at q ?s)) < length (frame_refs s)" if "fst q \<in> ts" for q
    using D(6) [OF that] lt by (auto simp: free_state_fields)
  moreover have "used m 0" using D(5) m(3) r(3) by (auto simp: word_unat_eq_iff)
  ultimately show ?thesis
    using D(2-4,9) m(1,2) by (simp add: frames_ok_def free_state_fields del: split_paired_All)
qed

section \<open>Free frames\<close>

definition free_frames :: "mmu \<Rightarrow> nat set" where
  "free_frames s = {q. q < capacity (physical_memmap s) \<and> \<not> used (physical_memmap s) q}"

lemma finite_free_frames [simp]: "finite (free_frames s)"
  by (simp add: free_frames_def)

lemma free_frames_find: "free_frames s \<noteq> {} \<Longrightarrow> \<exists>p. first_free (physical_memmap s) = Some p"
  by (cases "first_free (physical_memmap s)") (auto simp: free_frames_def first_free_def find_None_iff)

lemma first_free_in: "first_free (physical_memmap s) = Some p \<Longrightarrow> p \<in> free_frames s"
  by (auto simp: free_frames_def first_free_def find_Some_iff)

lemma frames_ok_cong:
  assumes "physical_memmap s' = physical_memmap s" "frame_refs s' = frame_refs s"
    "\<And>r. pg_frame (page_at r s') = pg_frame (page_at r s)"
  shows "frames_ok ts s' = frames_ok ts s"
proof -
  have "mapped_at ts f s' = mapped_at ts f s" for f using assms(3) by (simp add: mapped_at_def)
  then show ?thesis using assms by (simp add: frames_ok_def)
qed

section \<open>Properties\<close>

text \<open>A machine with 64 frames, of which frame 0 is used, and a directory with one empty table.\<close>

definition sample_phys :: memmap_t where
  "sample_phys = \<lparr>pagemap = Some [1, 0], mm_length = 64, mm_lock = MUTEX_INITIALIZER\<rparr>"

definition sample_mmu :: mmu where
  "sample_mmu = \<lparr>pt_store = (\<lambda>_. empty_table),
     dir_store = (\<lambda>_. \<lparr>pd_tables = (\<lambda>i. if i = 1 then 0x8000 else NULL), pd_tablesPhysical = (\<lambda>_. 0)\<rparr>),
     memmaps = (\<lambda>_. sample_phys), placement_address = 0x100000,
     frame_refs = replicate 64 0, frame_refs_lock = MUTEX_INITIALIZER,
     kernel_buffers = [], kmmaps = [], kmmaps_lock = MUTEX_INITIALIZER,
     current_directory = None, current_directory_physical = 0, kernel_directory_at = 0,
     cr0 = 0, cr3 = 0, invalidated = [], current_memmap = None, mm_current = None,
     kheap_len = 0, mallocs = [], mm_freed = [], stale = 0, frame_data = (\<lambda>_. [])\<rparr>"

lemma sample_phys_ok:
  "memmap_ok sample_phys" "capacity sample_phys = 64" "mm_lock sample_phys = MUTEX_INITIALIZER"
  by (simp_all add: sample_phys_def memmap_ok_def capacity_def)

lemma sample_phys_used: "p < 64 \<Longrightarrow> used sample_phys p \<longleftrightarrow> p = 0"
proof -
  assume "p < 64"
  then have "p div 32 = 0 \<or> p div 32 = 1" "p = 32 * (p div 32) + p mod 32" by auto
  then show ?thesis by (auto simp: sample_phys_def used_def bit_1_iff)
qed

lemma sample_phys_first: "first_free sample_phys = Some 1"
  by (auto simp: first_free_def find_Some_iff sample_phys_ok sample_phys_used intro!: exI [of _ 1])

lemma sample_mmu_pages [simp]:
  "page_at r sample_mmu = empty_page" "physical_memmap sample_mmu = sample_phys"
  "pd_tables (dir_store sample_mmu d) i = (if i = 1 then 0x8000 else NULL)"
  "frame_refs sample_mmu = replicate 64 0" "frame_refs_lock sample_mmu = MUTEX_INITIALIZER"
  by (simp_all add: page_at_def sample_mmu_def empty_table_def)

lemma sample_mmu_ok: "frames_ok {0x8000} sample_mmu" "unlocked sample_mmu"
proof -
  have "mapped_at {0x8000} f sample_mmu = {}" if "f \<noteq> 0" for f
    using that by (auto simp: mapped_at_def empty_page_def)
  then show "frames_ok {0x8000} sample_mmu"
    using sample_phys_used
    by (auto simp: frames_ok_def sample_phys_ok empty_page_def word_unat_eq_iff)
  show "unlocked sample_mmu"
    by (simp add: unlocked_def sample_phys_ok MUTEX_INITIALIZER_def)
qed

text \<open>C35. When no frame is free, \<open>mmu_alloc_frame\<close> neither panics nor reports an error: it returns
  physical address 0 and maps the page, present, to frame 0, which the kernel uses.\<close>

theorem alloc_frame_exhausted:
  assumes "phys_ok s" "unlocked s" "mmu_get_page d a s = Some r" "pg_frame (page_at r s) = 0"
    "frame_refs s \<noteq> []" "first_free (physical_memmap s) = None"
  shows "\<exists>s'. mmu_alloc_frame a d es s = Some (Inr (0, s', es)) \<and>
    pg_present (page_at r s') \<and> pg_frame (page_at r s') = 0 \<and>
    frame_refs s' = (frame_refs s)[0 := frame_refs s ! 0 + 1]"
proof -
  from assms(3) have t: "pd_tables (dir_store s d) (table_idx a) = fst r" "fst r \<noteq> NULL"
      "(fst r, page_idx a) = r"
    by (auto simp: mmu_get_page_def Let_def split: if_splits)
  have D: "memmap_ok (physical_memmap s)" "capacity (physical_memmap s) = length (frame_refs s)"
    using assms(1) by (simp_all add: phys_ok_def)
  have lock: "ms (mm_lock (physical_memmap s)) = 0" using assms(2) by (simp add: unlocked_def)
  let ?l1 = "(mm_lock (physical_memmap s))\<lparr>ms := 1\<rparr>"
  let ?s1 = "put_map_lock Physical_Memmap ?l1 s"
  have m1: "physical_memmap ?s1 = (physical_memmap s)\<lparr>mm_lock := ?l1\<rparr>"
    by (simp add: put_map_lock_def)
  have "memmap_find_free_page (physical_memmap ?s1) = Inr 0"
    using memmap_find_free_page_lowest [of "physical_memmap ?s1"] D(1) assms(6) by (simp add: m1)
  moreover obtain m2 where "memmap_set_page (physical_memmap ?s1) 0 = Inr m2" "mm_lock m2 = ?l1"
    using memmap_set_page_eq [of "physical_memmap ?s1" 0] D assms(5) by (auto simp: m1 page_of_def)
  ultimately show ?thesis
    using lock t assms(4,5)
    by (simp add: mmu_alloc_frame_def run_steps add_ref_def put_map_lock_def mmu_simps Let_def)
qed

definition sample_full :: mmu where
  "sample_full = sample_mmu\<lparr>memmaps := (\<lambda>_. sample_phys\<lparr>pagemap := Some [- 1, - 1]\<rparr>)\<rparr>"

theorem alloc_frame_exhausted_witness:
  "\<exists>s'. mmu_alloc_frame 0x400000 Kernel_Directory [] sample_full = Some (Inr (0, s', [])) \<and>
    pg_present (page_at (0x8000, 0) s') \<and> pg_frame (page_at (0x8000, 0) s') = 0 \<and>
    frame_refs s' = (frame_refs sample_full)[0 := frame_refs sample_full ! 0 + 1]"
proof -
  let ?m = "sample_phys\<lparr>pagemap := Some [- 1, - 1]\<rparr>"
  have m: "memmap_ok ?m" "capacity ?m = 64" "mm_lock ?m = MUTEX_INITIALIZER"
    by (simp_all add: sample_phys_def memmap_ok_def capacity_def)
  have used: "used ?m q" if "q < 64" for q
    using that by (cases "q < 32") (auto simp: used_def nth_Cons' bit_simps)
  have f: "physical_memmap sample_full = ?m" "page_at q sample_full = empty_page"
      "frame_refs sample_full = replicate 64 0" "frame_refs_lock sample_full = MUTEX_INITIALIZER"
      "dir_store sample_full = dir_store sample_mmu" for q
    by (simp_all add: sample_full_def other_fields_page_at)
  show ?thesis
    by (rule alloc_frame_exhausted)
      (use m used in \<open>auto simp: f phys_ok_def unlocked_def MUTEX_INITIALIZER_def mmu_get_page_def
        table_idx_def page_idx_def PAGE_SIZE_def empty_page_def first_free_def find_None_iff\<close>)
qed

text \<open>C24. Allocating a frame for an unmapped page and freeing it again: the lowest free frame is
  returned and mapped by that entry alone, in both states every frame is marked used exactly when an
  entry refers to it and its counter is the number of those entries, and afterwards the counters,
  the used frames and all other entries are as before.\<close>

theorem frame_alloc_free_roundtrip:
  assumes "frames_ok ts s" "unlocked s" "mmu_get_page d a s = Some r" "fst r \<in> ts"
    "pg_frame (page_at r s) = 0" "first_free (physical_memmap s) = Some p"
  shows "\<exists>s1 s2. mmu_alloc_frame a d es s = Some (Inr (of_nat p * PAGE_SIZE, s1, es)) \<and>
    frames_ok ts s1 \<and> mapped_at ts (of_nat p) s1 = {r} \<and>
    mmu_frame_free (Some r) es s1 = Some (Inr ((), s2, es)) \<and>
    frames_ok ts s2 \<and> unlocked s2 \<and> frame_refs s2 = frame_refs s \<and>
    (\<forall>q. used (physical_memmap s2) q \<longleftrightarrow> used (physical_memmap s) q) \<and>
    (\<forall>q. q \<noteq> r \<longrightarrow> page_at q s2 = page_at q s)"
proof -
  from assms(3) have t: "pd_tables (dir_store s d) (table_idx a) = fst r" "fst r \<noteq> NULL"
      "(fst r, page_idx a) = r"
    by (auto simp: mmu_get_page_def Let_def split: if_splits)
  note p = find_free_run [OF frames_phys_ok [OF assms(1)] assms(6)]
  have lock: "ms (mm_lock (physical_memmap s)) = 0" using assms(2) by (simp add: unlocked_def)
  obtain m where m: "mmu_alloc_frame a d es s =
      Some (Inr (of_nat p * PAGE_SIZE, alloc_state r p m s, es))"
      "memmap_ok m" "capacity m = capacity (physical_memmap s)"
      "mm_lock m = mm_lock (physical_memmap s)"
      "\<And>q. used m q \<longleftrightarrow> used (physical_memmap s) q \<or> q = p"
    using mmu_alloc_frame_run [OF frames_phys_ok [OF assms(1)] lock t(1,2), of p es] assms(5,6) t(3)
    by metis
  let ?s1 = "alloc_state r p m s" and ?f = "of_nat p :: 20 word"
  have f: "?f \<noteq> 0" "unat ?f = p" using p unat_frame_of_nat [of p] by (auto simp: word_unat_eq_iff)
  have ok1: "frames_ok ts ?s1" using frames_ok_alloc [OF assms(1,4,5)] p m by blast
  have fr: "pg_frame (page_at r ?s1) = ?f" using p by (simp add: alloc_state_fields frame_of_nat)
  have lock1: "unlocked ?s1" using assms(2) m(4) by (simp add: unlocked_def alloc_state_fields)
  have empty: "mapped_at ts ?f s = {}" using frames_okD(8) [OF assms(1), of ?f] f p by simp
  then have single: "mapped_at ts ?f ?s1 = {r}"
    using assms(4) p by (auto simp: alloc_state_def mapped_at_upd_page mmu_simps frame_of_nat)
  have one: "frame_refs ?s1 ! p = 1" "frame_refs s ! p = 0"
    using frames_okD(7) [OF ok1, of ?f] frames_okD(7) [OF assms(1), of ?f] single empty f p
    by (simp_all add: alloc_state_fields word_unat_eq_iff)
  obtain m2 where m2: "mmu_frame_free (Some r) es ?s1 = Some (Inr ((), free_state r m2 ?s1, es))"
      "memmap_ok m2" "capacity m2 = capacity (physical_memmap ?s1)"
      "mm_lock m2 = mm_lock (physical_memmap ?s1)"
      "\<And>q. used m2 q \<longleftrightarrow> used (physical_memmap ?s1) q \<and> \<not> (q = unat ?f \<and> frame_refs ?s1 ! unat ?f = 1)"
    by (rule mmu_frame_free_run [OF ok1 lock1 assms(4) fr f(1)]) blast
  let ?s2 = "free_state r m2 ?s1"
  have "frames_ok ts ?s2" using frames_ok_free [OF ok1 assms(4) fr f(1)] m2 by blast
  moreover have "frame_refs ?s2 = frame_refs s"
    using one f fr p by (simp add: free_state_fields alloc_state_fields list_update_same_conv)
  moreover have "used (physical_memmap ?s2) q \<longleftrightarrow> used (physical_memmap s) q" for q
    using m(5) m2(5) one(1) f(2) p by (auto simp: free_state_fields alloc_state_fields)
  moreover have "unlocked ?s2"
    using lock1 m2(4) by (simp add: unlocked_def free_state_fields alloc_state_fields)
  moreover have "page_at q ?s2 = page_at q s" if "q \<noteq> r" for q
    using that by (simp add: free_state_fields alloc_state_fields)
  ultimately show ?thesis using m(1) ok1 single m2(1) by blast
qed

theorem frame_alloc_free_roundtrip_witness:
  "\<exists>s1 s2. mmu_alloc_frame 0x400000 Kernel_Directory [] sample_mmu =
      Some (Inr (of_nat 1 * PAGE_SIZE, s1, [])) \<and>
    frames_ok {0x8000} s1 \<and> mapped_at {0x8000} (of_nat 1) s1 = {(0x8000, 0)} \<and>
    mmu_frame_free (Some (0x8000, 0)) [] s1 = Some (Inr ((), s2, [])) \<and>
    frames_ok {0x8000} s2 \<and> unlocked s2 \<and> frame_refs s2 = frame_refs sample_mmu \<and>
    (\<forall>q. used (physical_memmap s2) q \<longleftrightarrow> used (physical_memmap sample_mmu) q) \<and>
    (\<forall>q. q \<noteq> (0x8000, 0) \<longrightarrow> page_at q s2 = page_at q sample_mmu)"
  by (rule frame_alloc_free_roundtrip)
    (simp_all add: sample_mmu_ok sample_phys_first mmu_get_page_def table_idx_def page_idx_def
      PAGE_SIZE_def empty_page_def)

end
