(* ===== verification/Mmu_Space.thy ===== *)
theory Mmu_Space
  imports Frames
begin

text \<open>
  Address spaces in \<open>kernel/mmu.c\<close>: cloning and destroying page directories, and the page fault
  handler with copy on write and files mapped on access.  The page a file read delivers and the
  node behind a descriptor come from \<open>vfs.c\<close> and \<open>io.c\<close> and are arguments.
\<close>

section \<open>Copying and destroying\<close>

text \<open>The macro copies 256 times 16 bytes: the whole page.\<close>

definition copy_physical_page :: "20 word \<Rightarrow> 20 word \<Rightarrow> mmu \<Rightarrow> mmu" where
  "copy_physical_page dst src s = s\<lparr>frame_data := (frame_data s)(dst := frame_data s src)\<rparr>"

definition arch_invalidate_page :: "u32 \<Rightarrow> mmu \<Rightarrow> mmu" where
  "arch_invalidate_page a s = s\<lparr>invalidated := invalidated s @ [a]\<rparr>"

definition all_slots :: "slot list" where
  "all_slots = map of_nat [0..<1024]"

text \<open>
  One entry of the loop of \<open>mmu_clone_table\<close>: nothing for an entry without a frame, a shared
  read-only frame, or a private copy.
\<close>

definition share_entry :: "page_ref \<Rightarrow> page_ref \<Rightarrow> unit mm" where
  "share_entry dst src =
     bindP (updP (upd_page src (\<lambda>p. p\<lparr>pg_rw := False, pg_accessed := False, pg_dirty := False\<rparr>))) (\<lambda>_.
     bindP (updP (upd_info src (\<lambda>i. i\<lparr>pi_commited := False\<rparr>))) (\<lambda>_.
     bindP (updP (\<lambda>s. upd_page dst (\<lambda>_. page_at src s) s)) (\<lambda>_.
     bindP (updP (\<lambda>s. upd_info dst (\<lambda>_. info_at src s) s)) (\<lambda>_.
     bindP (stepP (\<lambda>s. add_ref (unat (pg_frame (page_at dst s))) 1 s)) (\<lambda>_.
     updP (\<lambda>s. arch_invalidate_page (frame_addr (pg_frame (page_at dst s))) s))))))"

definition copy_entry :: "dir_ref \<Rightarrow> u32 \<Rightarrow> page_ref \<Rightarrow> page_ref \<Rightarrow> unit mm" where
  "copy_entry d vaddr dst src =
     bindP (mmu_alloc_frame vaddr d) (\<lambda>_.
     bindP (updP (\<lambda>s. upd_page dst (\<lambda>q. (page_at src s)\<lparr>pg_frame := pg_frame q,
              pg_accessed := False, pg_dirty := False\<rparr>) s)) (\<lambda>_.
     bindP (updP (\<lambda>s. upd_info dst (\<lambda>_. (info_at src s)\<lparr>pi_commited := True\<rparr>) s)) (\<lambda>_.
     updP (\<lambda>s. copy_physical_page (pg_frame (page_at dst s)) (pg_frame (page_at src s)) s))))"

definition clone_entry :: "dir_ref \<Rightarrow> addr \<Rightarrow> addr \<Rightarrow> u32 \<Rightarrow> u32 \<Rightarrow> slot \<Rightarrow> unit mm" where
  "clone_entry d table src vaddr flags i =
     bindP (getP (page_at (src, i))) (\<lambda>p.
     bindP (getP (info_at (src, i))) (\<lambda>inf.
     if pg_frame p = 0 then retP ()
     else if has_flag flags CLONE_COW \<and> pi_cow inf \<and> \<not> pi_noshare inf
     then share_entry (table, i) (src, i)
     else copy_entry d (vaddr + ucast i * PAGE_SIZE) (table, i) (src, i)))"

text \<open>\<open>*table\<close> is the entry of the new directory, which \<open>mmu_alloc_frame\<close> reads.\<close>

definition mmu_clone_table :: "nat \<Rightarrow> dir_ref \<Rightarrow> slot \<Rightarrow> addr \<Rightarrow> u32 \<Rightarrow> u32 \<Rightarrow>
    (addr \<times> u32 option) mm" where
  "mmu_clone_table n d i src vaddr flags =
     bindP (kalloc n sizeof_page_table NULL
       (KALLOC_OPTN_ALIGN OR KALLOC_OPTN_KERNEL OR KALLOC_OPTN_WRITEABLE) NULL) (\<lambda>(t, phys).
     bindP (updP (set_dir_table d i t)) (\<lambda>_.
     if t = NULL then retP (NULL, phys)
     else bindP (updP (\<lambda>s. upd_table t (\<lambda>_. empty_table\<lparr>pt_noshare := pt_noshare (pt_store s src)\<rparr>) s)) (\<lambda>_.
          bindP (foldP (clone_entry d t src vaddr flags) all_slots) (\<lambda>_. retP (t, phys)))))"

definition destroy_table :: "dir_ref \<Rightarrow> slot \<Rightarrow> unit mm" where
  "destroy_table d i =
     bindP (getP (\<lambda>s. pd_tables (dir_store s d) i)) (\<lambda>t.
     if t = NULL then retP ()
     else bindP (getP (\<lambda>s. pd_tables (dir_store s Kernel_Directory) i)) (\<lambda>kt.
          if kt \<noteq> t then
            bindP (foldP (\<lambda>j. bindP (getP (\<lambda>s. pg_frame (page_at (t, j) s))) (\<lambda>f.
                     if f \<noteq> 0 then mmu_frame_free (Some (t, j)) else retP ())) all_slots) (\<lambda>_.
            bindP (updP (upd_table t (\<lambda>tb. tb\<lparr>pt_refs := pt_refs tb - 1\<rparr>))) (\<lambda>_.
            bindP (getP (\<lambda>s. pt_refs (pt_store s t))) (\<lambda>n.
            if n = 0 then kfree t else retP ())))
          else updP (upd_table kt (\<lambda>tb. tb\<lparr>pt_refs := pt_refs tb - 1\<rparr>))))"

definition mmu_destroy_directory :: "dir_ref \<Rightarrow> unit mm" where
  "mmu_destroy_directory d =
     bindP (foldP (destroy_table d) all_slots) (\<lambda>_.
     case d of Directory a \<Rightarrow> kfree a
     | Kernel_Directory \<Rightarrow> bindP (getP kernel_directory_at) kfree)"

text \<open>The loop of \<open>mmu_clone_directory\<close>; \<open>False\<close> when a table could not be allocated.\<close>

fun clone_tables :: "nat \<Rightarrow> dir_ref \<Rightarrow> dir_ref \<Rightarrow> u32 \<Rightarrow> slot list \<Rightarrow> bool mm" where
  "clone_tables n d src flags [] = retP True"
| "clone_tables n d src flags (i # is) =
     bindP (getP (\<lambda>s. pd_tables (dir_store s src) i)) (\<lambda>t.
     if t = NULL then clone_tables n d src flags is
     else bindP (getP (\<lambda>s. has_flag flags CLONE_SHARE \<and> \<not> pt_noshare (pt_store s t) \<or>
                   pd_tables (dir_store s Kernel_Directory) i = t)) (\<lambda>share.
          if share then
            bindP (updP (set_dir_table d i t)) (\<lambda>_.
            bindP (updP (\<lambda>s. set_dir_physical d i (pd_tablesPhysical (dir_store s src) i) s)) (\<lambda>_.
            bindP (updP (upd_table t (\<lambda>tb. tb\<lparr>pt_refs := pt_refs tb + 1\<rparr>))) (\<lambda>_.
            clone_tables n d src flags is)))
          else
            bindP (mmu_clone_table n d i t (ucast i * 1024 * PAGE_SIZE) flags) (\<lambda>(t', phys).
            bindP (updP (set_dir_table d i t')) (\<lambda>_.
            if t' = NULL then retP False
            else bindP (updP (set_dir_physical d i ((case phys of Some a \<Rightarrow> a | None \<Rightarrow> 0) OR 0x07))) (\<lambda>_.
                 clone_tables n d src flags is)))))"

text \<open>The value is the directory, if there is one, and its physical address.\<close>

definition mmu_clone_directory :: "nat \<Rightarrow> dir_ref \<Rightarrow> u32 \<Rightarrow> (dir_ref \<times> u32) option mm" where
  "mmu_clone_directory n src flags =
     bindP (kalloc n sizeof_page_directory NULL
       (KALLOC_OPTN_ALIGN OR KALLOC_OPTN_KERNEL OR KALLOC_OPTN_WRITEABLE) NULL) (\<lambda>(a, phys).
     if a = NULL then retP None
     else
       bindP (updP (upd_dir (Directory a) (\<lambda>_. empty_directory))) (\<lambda>_.
       bindP (getP (\<lambda>s. (case phys of Some p \<Rightarrow> p | None \<Rightarrow> stale s) + 0x1000)) (\<lambda>at.
       bindP (clone_tables n (Directory a) src flags all_slots) (\<lambda>ok.
       if ok then retP (Some (Directory a, at))
       else bindP (mmu_destroy_directory (Directory a)) (\<lambda>_. retP None)))))"

section \<open>Page faults\<close>

text \<open>Copy on write: the last user of a frame takes it over, any other one gets a copy.\<close>

definition commit_page :: "dir_ref \<Rightarrow> page_ref \<Rightarrow> u32 \<Rightarrow> unit mm" where
  "commit_page cur r address =
     bindP refs_wait (\<lambda>_.
     bindP (getP (\<lambda>s. pg_frame (page_at r s))) (\<lambda>frame.
     bindP (liftP (\<lambda>s. readE (frame_refs s) (unat frame))) (\<lambda>c.
     if c = 1 then
       bindP (updP (upd_page r (\<lambda>p. p\<lparr>pg_rw := True\<rparr>))) (\<lambda>_.
       bindP (updP (upd_info r (\<lambda>i. i\<lparr>pi_commited := True\<rparr>))) (\<lambda>_.
       bindP (updP (arch_invalidate_page address)) (\<lambda>_.
       refs_release)))
     else
       bindP (updP (upd_page r (\<lambda>p. p\<lparr>pg_frame := 0\<rparr>))) (\<lambda>_.
       bindP (mmu_alloc_frame address cur) (\<lambda>_.
       bindP (getP (\<lambda>s. pg_frame (page_at r s))) (\<lambda>frame'.
       bindP (assertP (frame' \<noteq> 0)) (\<lambda>_.
       bindP (updP (upd_page r (\<lambda>p. p\<lparr>pg_rw := True\<rparr>))) (\<lambda>_.
       bindP (stepP (add_ref (unat frame) (- 1))) (\<lambda>_.
       bindP (updP (copy_physical_page frame' frame)) (\<lambda>_.
       refs_release))))))))))"

text \<open>
  \<open>mmap_dup\<close> walks two ranges of entries with pointers that move along a table and are fetched
  again from the directory when an offset reaches 1024.  The offsets and indices are counted as
  the source counts them: the index also advances with every page, and the end of the destination
  table resets the offset of the source.  A pointer is a table with an index; index 1024 is past
  the end.  The length is unsigned, so the loop ends only for whole pages.
\<close>

record dup_state =
  du_s_page :: "addr \<times> nat"
  du_d_page :: "addr \<times> nat"
  du_s_indx :: nat
  du_d_indx :: nat
  du_s_offs :: nat
  du_d_offs :: nat
  du_dst :: u32
  du_len :: u32

definition entry_ref :: "addr \<times> nat \<Rightarrow> page_ref outcome" where
  "entry_ref p = (if fst p = NULL then Inl Null_Deref
     else if snd p \<ge> 1024 then Inl Out_Of_Bounds else Inr (fst p, of_nat (snd p)))"

definition dir_table :: "dir_ref \<Rightarrow> nat \<Rightarrow> mmu \<Rightarrow> addr outcome" where
  "dir_table d i s = (if i \<ge> 1024 then Inl Out_Of_Bounds
     else Inr (pd_tables (dir_store s d) (of_nat i)))"

definition dup_entry :: "page_ref \<Rightarrow> page_ref \<Rightarrow> u32 \<Rightarrow> unit mm" where
  "dup_entry src dst at =
     bindP (getP (\<lambda>s. pg_present (page_at src s) \<and> \<not> pg_present (page_at dst s))) (\<lambda>b.
     if \<not> b then retP ()
     else bindP refs_wait (\<lambda>_.
          bindP (stepP (\<lambda>s. add_ref (unat (pg_frame (page_at src s))) 1 s)) (\<lambda>_.
          bindP refs_release (\<lambda>_.
          bindP (getP (\<lambda>s. pg_rw (page_at src s))) (\<lambda>rw.
          bindP (if rw then bindP (updP (upd_page src (\<lambda>p. p\<lparr>pg_rw := False\<rparr>))) (\<lambda>_.
                   updP (upd_info src (\<lambda>i. i\<lparr>pi_commited := False\<rparr>))) else retP ()) (\<lambda>_.
          bindP (updP (\<lambda>s. upd_page dst (\<lambda>_. page_at src s) s)) (\<lambda>_.
          bindP (updP (\<lambda>s. upd_info dst (\<lambda>_. info_at src s) s)) (\<lambda>_.
          updP (arch_invalidate_page at)))))))))"

definition dup_step :: "dir_ref \<Rightarrow> dir_ref \<Rightarrow> dup_state \<Rightarrow> dup_state mm" where
  "dup_step d cur u =
     bindP (liftP (\<lambda>s. entry_ref (du_s_page u))) (\<lambda>src.
     bindP (liftP (\<lambda>s. entry_ref (du_d_page u))) (\<lambda>dst.
     bindP (dup_entry src dst (du_dst u)) (\<lambda>_.
     let u1 = u\<lparr>du_s_page := (fst (du_s_page u), snd (du_s_page u) + 1),
                du_d_page := (fst (du_d_page u), snd (du_d_page u) + 1),
                du_s_indx := du_s_indx u + 1, du_d_indx := du_d_indx u + 1,
                du_s_offs := du_s_offs u + 1, du_d_offs := du_d_offs u + 1\<rparr> in
     bindP (if du_s_offs u1 = 1024 then
              bindP (liftP (dir_table d (du_s_indx u1 + 1))) (\<lambda>t.
              retP (u1\<lparr>du_s_indx := du_s_indx u1 + 1, du_s_offs := 0, du_s_page := (t, 0)\<rparr>))
            else retP u1) (\<lambda>u2.
     bindP (if du_d_offs u2 = 1024 then
              bindP (liftP (dir_table cur (du_d_indx u2 + 1))) (\<lambda>t.
              retP (u2\<lparr>du_d_indx := du_d_indx u2 + 1, du_s_offs := 0,
                        du_d_page := (t, du_d_offs u2)\<rparr>))
            else retP u2) (\<lambda>u3.
     retP (u3\<lparr>du_dst := du_dst u3 + PAGE_SIZE, du_len := du_len u3 - PAGE_SIZE\<rparr>))))))"

partial_function (option) dup_loop :: "dir_ref \<Rightarrow> dir_ref \<Rightarrow> dup_state \<Rightarrow>
    (mmu \<Rightarrow> mmu) list \<Rightarrow> mmu \<Rightarrow> (unit \<times> mmu \<times> (mmu \<Rightarrow> mmu) list) run" where
  "dup_loop d cur u es s =
     (if du_len u = 0 then Some (Inr ((), s, es))
      else (case dup_step d cur u es s of
              None \<Rightarrow> None
            | Some (Inl t) \<Rightarrow> Some (Inl t)
            | Some (Inr (u', s', es')) \<Rightarrow> dup_loop d cur u' es' s'))"

declare dup_loop.simps [code]

definition mmap_dup :: "dir_ref \<Rightarrow> dir_ref \<Rightarrow> u32 \<Rightarrow> u32 \<Rightarrow> u32 \<Rightarrow> unit mm" where
  "mmap_dup d cur src dst len =
     bindP (getP (\<lambda>s. pd_tables (dir_store s d) (table_idx src))) (\<lambda>st.
     bindP (getP (\<lambda>s. pd_tables (dir_store s cur) (table_idx dst))) (\<lambda>dt.
     dup_loop d cur
       \<lparr>du_s_page = (st, unat (page_idx src)), du_d_page = (dt, unat (page_idx dst)),
        du_s_indx = unat (table_idx src), du_d_indx = unat (table_idx dst),
        du_s_offs = unat (page_idx src), du_d_offs = unat (page_idx dst),
        du_dst = dst, du_len = len\<rparr>))"

text \<open>
  Files mapped on access.  \<open>vfs_read\<close> stores through the faulting address; where that page is
  not present in the current directory, the store faults again while \<open>kmmaps_lock\<close> is held.
\<close>

definition read_page_into :: "u8 list \<Rightarrow> dir_ref \<Rightarrow> u32 \<Rightarrow> unit mm" where
  "read_page_into content cur address = stepP (\<lambda>s.
     case mmu_get_page cur address s of
       None \<Rightarrow> Inl Null_Deref
     | Some r \<Rightarrow>
         if pg_present (page_at r s)
         then Inr (s\<lparr>frame_data := (frame_data s)(pg_frame (page_at r s) := content)\<rparr>)
         else Inl Self_Deadlock)"

definition put_kmmaps_lock :: "mutex_t \<Rightarrow> mmu \<Rightarrow> mmu" where
  "put_kmmaps_lock l s = s\<lparr>kmmaps_lock := l\<rparr>"

definition find_mapping :: "u32 \<Rightarrow> (addr \<times> mmap_info_t) list \<Rightarrow> mmap_info_t option" where
  "find_mapping address ms' = map_option snd (find (\<lambda>(_, m).
     address \<ge> mi_addr m \<and> address \<le> mi_addr m + mi_len m) ms')"

definition get_task :: "mmu \<Rightarrow> mm_task outcome" where
  "get_task s = (case mm_current s of None \<Rightarrow> Inl Null_Deref | Some t \<Rightarrow> Inr t)"

definition put_mmaps_lock :: "mutex_t \<Rightarrow> mmu \<Rightarrow> mmu" where
  "put_mmaps_lock l s = s\<lparr>mm_current := map_option (\<lambda>t. t\<lparr>mt_mmaps_lock := l\<rparr>) (mm_current s)\<rparr>"

definition mmaps_lock :: "mmu \<Rightarrow> mutex_t" where
  "mmaps_lock s = (case mm_current s of None \<Rightarrow> MUTEX_INITIALIZER | Some t \<Rightarrow> mt_mmaps_lock t)"

definition task_mapping :: "u32 \<Rightarrow> mmap_info_t option mm" where
  "task_mapping address =
     bindP (liftP get_task) (\<lambda>_.
     bindP (waitP mmaps_lock put_mmaps_lock) (\<lambda>_.
     bindP (liftP get_task) (\<lambda>t.
     bindP (releaseP mmaps_lock put_mmaps_lock) (\<lambda>_.
     retP (find_mapping address (mt_mmaps t))))))"

definition page_start :: "u32 \<Rightarrow> u32" where
  "page_start a = a AND NOT 0xFFF"

text \<open>A further mapping of a file: the entry refers to the frame of the first mapping.\<close>

definition share_mapping :: "(u32 \<Rightarrow> u8 list) \<Rightarrow> dir_ref \<Rightarrow> page_ref \<Rightarrow> u32 \<Rightarrow> mmap_info_t \<Rightarrow>
    nat \<Rightarrow> kmmap_t \<Rightarrow> u32 mm" where
  "share_mapping read cur r address0 m k km =
     (let m_address = page_start (mi_addr (km_mmap km) + (address0 - mi_addr m)) in
      bindP (liftP (\<lambda>s. case mmu_get_page (km_directory km) m_address s of
               None \<Rightarrow> Inl Null_Deref | Some q \<Rightarrow> Inr q)) (\<lambda>q.
      bindP (getP (\<lambda>s. pg_present (page_at q s))) (\<lambda>present.
      bindP (if present then retP address0
             else let address = page_start address0 in
               bindP (mmu_alloc_frame address (km_directory km)) (\<lambda>_.
               bindP (read_page_into (read (mi_offset m + (address - mi_addr m))) cur address) (\<lambda>_.
               retP address))) (\<lambda>address.
      if q = r then retP address
      else bindP refs_wait (\<lambda>_.
           bindP (stepP (\<lambda>s. add_ref (unat (pg_frame (page_at q s))) 1 s)) (\<lambda>_.
           bindP refs_release (\<lambda>_.
           bindP (getP (\<lambda>s. pg_rw (page_at q s))) (\<lambda>rw.
           bindP (if rw then bindP (updP (upd_page q (\<lambda>p. p\<lparr>pg_rw := False\<rparr>))) (\<lambda>_.
                    updP (upd_info q (\<lambda>i. i\<lparr>pi_commited := False\<rparr>))) else retP ()) (\<lambda>_.
           bindP (updP (\<lambda>s. upd_page r (\<lambda>_. page_at q s) s)) (\<lambda>_.
           bindP (updP (\<lambda>s. upd_info r (\<lambda>_. info_at q s) s)) (\<lambda>_.
           bindP (updP (arch_invalidate_page address)) (\<lambda>_.
           if mi_len m > mi_len (km_mmap km) then
             bindP (mmap_dup (km_directory km) cur (mi_addr (km_mmap km)) (mi_addr m)
                      (mi_len (km_mmap km))) (\<lambda>_.
             bindP (updP (\<lambda>s. s\<lparr>kmmaps := (kmmaps s)[k := (km\<lparr>km_mmap := m, km_directory := cur\<rparr>)]\<rparr>)) (\<lambda>_.
             retP address))
           else retP address))))))))))))"

text \<open>\<open>None\<close> is the jump to \<open>unhandled_fault\<close>; otherwise the value is the address, which the
  handler has rounded down when it read the page.\<close>

definition map_file_page :: "(i32 \<Rightarrow> addr option) \<Rightarrow> (addr \<Rightarrow> u32 \<Rightarrow> u8 list) \<Rightarrow> dir_ref \<Rightarrow>
    page_ref \<Rightarrow> u32 \<Rightarrow> u32 option mm" where
  "map_file_page fd_node read cur r address0 =
     bindP (task_mapping address0) (\<lambda>mo.
     case mo of None \<Rightarrow> retP None | Some m \<Rightarrow>
     (case fd_node (mi_fd m) of None \<Rightarrow> retP None | Some node \<Rightarrow>
      bindP (waitP kmmaps_lock put_kmmaps_lock) (\<lambda>_.
      bindP (getP (\<lambda>s. find (\<lambda>(_, km). km_node km = node \<and> mi_offset m = mi_offset (km_mmap km))
               (enumerate 0 (kmmaps s)))) (\<lambda>found.
      case found of
        Some (k, km) \<Rightarrow>
          bindP (share_mapping (read node) cur r address0 m k km) (\<lambda>address.
          bindP (releaseP kmmaps_lock put_kmmaps_lock) (\<lambda>_. retP (Some address)))
      | None \<Rightarrow>
          bindP malloc_struct (\<lambda>a.
          if a = NULL then bindP (releaseP kmmaps_lock put_kmmaps_lock) (\<lambda>_. retP None)
          else let address = page_start address0 in
            bindP (mmu_alloc_frame address cur) (\<lambda>_.
            bindP (read_page_into (read node (mi_offset m + (address - mi_addr m))) cur address) (\<lambda>_.
            bindP (updP (arch_invalidate_page address)) (\<lambda>_.
            bindP (updP (\<lambda>s. s\<lparr>kmmaps := kmmaps s @ [\<lparr>km_mmap = m, km_node = node,
                     km_directory = cur\<rparr>]\<rparr>)) (\<lambda>_.
            bindP (releaseP kmmaps_lock put_kmmaps_lock) (\<lambda>_. retP (Some address)))))))))))"

text \<open>
  The handler.  A fault it cannot handle is a signal to the task, or a panic in the kernel.
\<close>

datatype fault_result = Fault_Handled | Fault_Segv

definition unhandled_fault :: "i32 \<Rightarrow> fault_result mm" where
  "unhandled_fault pid = (if pid \<noteq> 0 then retP Fault_Segv else trapP Kernel_Panic)"

definition page_fault :: "(i32 \<Rightarrow> addr option) \<Rightarrow> (addr \<Rightarrow> u32 \<Rightarrow> u8 list) \<Rightarrow> i32 \<Rightarrow> u32 \<Rightarrow> u32 \<Rightarrow>
    fault_result mm" where
  "page_fault fd_node read pid err_code address0 =
     (let rw = (err_code AND 0x02 \<noteq> 0) in
      bindP (liftP (\<lambda>s. case current_directory s of None \<Rightarrow> Inl Null_Deref | Some d \<Rightarrow> Inr d)) (\<lambda>cur.
      bindP (liftP (\<lambda>s. case mmu_get_page cur address0 s of
               None \<Rightarrow> Inl Null_Deref | Some r \<Rightarrow> Inr r)) (\<lambda>r.
      bindP (getP (page_at r)) (\<lambda>page.
      bindP (getP (info_at r)) (\<lambda>inf.
      if pi_commited inf then unhandled_fault pid
      else bindP (if pi_mmap inf \<and> pg_frame page = 0
                  then map_file_page fd_node read cur r address0
                  else retP (Some address0)) (\<lambda>res.
           case res of
             None \<Rightarrow> unhandled_fault pid
           | Some address \<Rightarrow>
               if rw then bindP (commit_page cur r address) (\<lambda>_. retP Fault_Handled)
               else retP Fault_Handled))))))"

section \<open>Mapping files (mman.c)\<close>

definition MAP_SHARED :: i32 where "MAP_SHARED = 0x8"
definition MAP_PRIVATE :: i32 where "MAP_PRIVATE = 0x10"
definition PROT_WRITE :: i32 where "PROT_WRITE = 0x2"

definition shm_open :: "string \<Rightarrow> i32 \<Rightarrow> u32 \<Rightarrow> i32" where
  "shm_open a b c = ENOSYS"

definition mmap_kflags :: "i32 \<Rightarrow> i32 \<Rightarrow> u32" where
  "mmap_kflags prot flags =
     (let k0 = KALLOC_OPTN_MMAP;
          k1 = (if prot AND PROT_WRITE \<noteq> 0 then k0 OR KALLOC_OPTN_WRITEABLE else k0) in
      if flags AND MAP_PRIVATE \<noteq> 0 then k1 OR KALLOC_OPTN_NOCOW else k1)"

text \<open>
  \<open>fd_open\<close> says whether \<open>get_file_descriptor\<close> finds the descriptor.  The struct is not released
  when the pages cannot be allocated, and it records the address that was asked for.
\<close>

definition mmap_call :: "nat \<Rightarrow> (i32 \<Rightarrow> bool) \<Rightarrow> addr \<Rightarrow> u32 \<Rightarrow> i32 \<Rightarrow> i32 \<Rightarrow> i32 \<Rightarrow> u32 \<Rightarrow> addr mm" where
  "mmap_call n fd_open addr len prot flags fd off =
     (let fail = (\<lambda>e. bindP (liftP get_task) (\<lambda>_. bindP (updP (set_errno e)) (\<lambda>_. retP NULL))) in
      if flags AND (MAP_SHARED OR MAP_PRIVATE) = 0 then fail EINVAL
      else if \<not> fd_open fd then fail EBADF
      else bindP malloc_struct (\<lambda>m.
        if m = NULL then fail ENOMEM
        else
          let info = \<lparr>mi_addr = addr, mi_len = len, mi_flags = flags, mi_prot = prot,
                      mi_offset = off, mi_fd = fd\<rparr> in
          bindP (kalloc n (len + (addr AND 0xFFF)) (page_start addr) (mmap_kflags prot flags) m) (\<lambda>(ap, _).
          if ap = NULL then fail ENOMEM
          else bindP (liftP get_task) (\<lambda>_.
               bindP (waitP mmaps_lock put_mmaps_lock) (\<lambda>_.
               bindP (updP (\<lambda>s. s\<lparr>mm_current := map_option (\<lambda>t. t\<lparr>mt_mmaps := mt_mmaps t @ [(m, info)]\<rparr>)
                        (mm_current s)\<rparr>)) (\<lambda>_.
               bindP (releaseP mmaps_lock put_mmaps_lock) (\<lambda>_. retP ap)))))))"

end
