(* ===== verification/Cow.thy ===== *)
theory Cow
  imports Mmu_Space
begin

text \<open>
  Copy on write in the memory manager: what a write fault on a shared page does, and what cloning
  a page table shares and copies, over the accounting of frames in theory \<open>Frames\<close>.
\<close>

section \<open>Copy on write\<close>

lemma data_fields [mmu_simps]:
  "page_at r (arch_invalidate_page a s) = page_at r s"
  "info_at r (arch_invalidate_page a s) = info_at r s"
  "memmaps (arch_invalidate_page a s) = memmaps s"
  "frame_refs (arch_invalidate_page a s) = frame_refs s"
  "frame_refs_lock (arch_invalidate_page a s) = frame_refs_lock s"
  "dir_store (arch_invalidate_page a s) = dir_store s"
  "frame_data (arch_invalidate_page a s) = frame_data s"
  "page_at r (copy_physical_page f g s) = page_at r s"
  "info_at r (copy_physical_page f g s) = info_at r s"
  "memmaps (copy_physical_page f g s) = memmaps s"
  "frame_refs (copy_physical_page f g s) = frame_refs s"
  "frame_refs_lock (copy_physical_page f g s) = frame_refs_lock s"
  "dir_store (copy_physical_page f g s) = dir_store s"
  "frame_data (copy_physical_page f g s) = (frame_data s)(f := frame_data s g)"
  by (simp_all add: arch_invalidate_page_def copy_physical_page_def page_at_def info_at_def)

lemma commit_last_user:
  assumes "unlocked s" "pg_frame (page_at r s) = f" "unat f < length (frame_refs s)"
    "frame_refs s ! unat f = 1"
  shows "\<exists>s'. commit_page cur r a es s = Some (Inr ((), s', es)) \<and>
    page_at r s' = (page_at r s)\<lparr>pg_rw := True\<rparr> \<and> (\<forall>q. q \<noteq> r \<longrightarrow> page_at q s' = page_at q s) \<and>
    frame_data s' = frame_data s \<and> frame_refs s' = frame_refs s \<and> memmaps s' = memmaps s \<and>
    frame_refs_lock s' = frame_refs_lock s"
  using assms
  by (simp add: commit_page_def run_refs_wait run_refs_release unlocked_def mmu_simps mutex_same)

text \<open>The counters while the entry has lost its frame and not yet been given the new one.\<close>

lemma commit_shared:
  assumes ok: "frames_ok ts s" and lock: "unlocked s" and r: "mmu_get_page cur a s = Some r" "fst r \<in> ts"
    and f: "pg_frame (page_at r s) = f" "f \<noteq> 0" "frame_refs s ! unat f \<noteq> 1"
    and free: "first_free (physical_memmap s) = Some p"
  shows "\<exists>s'. commit_page cur r a es s = Some (Inr ((), s', es)) \<and> frames_ok ts s' \<and> unlocked s' \<and>
    pg_rw (page_at r s') \<and> pg_frame (page_at r s') = of_nat p \<and>
    (\<forall>q. q \<noteq> r \<longrightarrow> page_at q s' = page_at q s) \<and>
    frame_data s' = (frame_data s)(of_nat p := frame_data s f)"
proof -
  note D = frames_okD [OF ok] and p = find_free_run [OF frames_phys_ok [OF ok] free]
  have lt: "unat f < length (frame_refs s)" using D(6) [OF r(2)] f by simp
  have pf: "p \<noteq> unat f"
  proof
    assume "p = unat f"
    then have "mapped_at ts f s = {}" using D(8) [OF f(2) lt] p by simp
    then show False using mapped_atI [OF r(2) f(1)] by simp
  qed
  let ?l = "(frame_refs_lock s)\<lparr>ms := 1\<rparr>"
  let ?s1 = "upd_page r (\<lambda>p. p\<lparr>pg_frame := 0\<rparr>) (s\<lparr>frame_refs_lock := ?l\<rparr>)"
  have s1: "physical_memmap ?s1 = physical_memmap s" "frame_refs ?s1 = frame_refs s"
      "dir_store ?s1 = dir_store s" "pg_frame (page_at r ?s1) = 0"
    by (simp_all add: mmu_simps)
  from r(1) have t: "pd_tables (dir_store ?s1 cur) (table_idx a) = fst r" "fst r \<noteq> NULL"
      "(fst r, page_idx a) = r"
    by (auto simp: mmu_get_page_def Let_def s1 split: if_splits)
  have "phys_ok ?s1" using frames_phys_ok [OF ok] by (simp add: phys_ok_def s1)
  moreover have "ms (mm_lock (physical_memmap ?s1)) = 0" using lock by (simp add: unlocked_def s1)
  ultimately obtain m where m: "mmu_alloc_frame a cur es ?s1 =
      Some (Inr (of_nat p * PAGE_SIZE, alloc_state r p m ?s1, es))"
      "memmap_ok m" "capacity m = capacity (physical_memmap s)"
      "mm_lock m = mm_lock (physical_memmap s)"
      "\<And>q. used m q \<longleftrightarrow> used (physical_memmap s) q \<or> q = p"
    using mmu_alloc_frame_run [OF _ _ t(1,2), of p es] free t(3) s1 by metis
  let ?s2 = "alloc_state r p m ?s1"
  have fr: "pg_frame (page_at r ?s2) = of_nat p" "of_nat p \<noteq> (0 :: 20 word)"
    using p unat_frame_of_nat [of p]
    by (auto simp: alloc_state_fields frame_of_nat word_unat_eq_iff)
  let ?s3 = "upd_page r (\<lambda>p. p\<lparr>pg_rw := True\<rparr>) ?s2"
  let ?s4 = "?s3\<lparr>frame_refs := (frame_refs ?s3)[unat f := frame_refs ?s3 ! unat f - 1]\<rparr>"
  let ?s5 = "copy_physical_page (of_nat p) f ?s4"
  let ?s' = "?s5\<lparr>frame_refs_lock := frame_refs_lock s\<rparr>"
  have "commit_page cur r a es s = Some (Inr ((), ?s', es))"
    using lock f lt m(1) fr pf
    by (simp add: commit_page_def run_refs_wait run_refs_release unlocked_def mmu_simps mutex_same
        add_ref_def alloc_state_fields)
  moreover have "frames_ok ts ?s'"
  proof -
    let ?g = "free_state r (physical_memmap s) s"
    have g: "frames_ok ts ?g" using frames_ok_free [OF ok r(2) f(1,2), of "physical_memmap s"] D f by simp
    have "frames_ok ts (alloc_state r p m ?g)"
      by (rule frames_ok_alloc [OF g r(2)])
        (use p m pf f in \<open>simp_all add: free_state_fields\<close>)
    then show ?thesis
      by (rule frames_ok_cong [THEN iffD2, rotated -1])
        (use pf f in \<open>simp_all add: mmu_simps alloc_state_fields free_state_fields list_update_swap\<close>)
  qed
  moreover have "unlocked ?s'" using lock m(4) by (simp add: unlocked_def mmu_simps alloc_state_fields)
  moreover have "pg_rw (page_at r ?s')" "pg_frame (page_at r ?s') = of_nat p"
    using fr by (simp_all add: mmu_simps)
  moreover have "page_at q ?s' = page_at q s" if "q \<noteq> r" for q
    using that by (simp add: mmu_simps alloc_state_fields)
  moreover have "frame_data ?s' = (frame_data s)(of_nat p := frame_data s f)"
    by (simp add: mmu_simps alloc_state_fields)
  ultimately show ?thesis by blast
qed

lemma page_fault_commit:
  assumes "current_directory s = Some cur" "mmu_get_page cur a s = Some r"
    "pg_frame (page_at r s) \<noteq> 0" "\<not> pi_commited (info_at r s)" "err AND 0x02 \<noteq> 0"
    "commit_page cur r a es s = Some (Inr ((), s', es))"
  shows "page_fault fd_node read pid err a es s = Some (Inr (Fault_Handled, s', es))"
  using assms by (simp add: page_fault_def)

lemma mapped_at_single:
  assumes "r \<in> mapped_at ts f s" "card (mapped_at ts f s) = 1"
  shows "mapped_at ts f s = {r}"
  using assms by (auto simp: card_1_singleton_iff)

text \<open>C4. Copy on write: a write fault on a page that is mapped and not committed is handled when
  a frame is free.  Afterwards the page is writable, no other entry refers to its frame, it holds
  what it held before, every other entry and what it reads is unchanged, and the accounting of the
  frames is intact.\<close>

theorem cow_write_fault:
  assumes "frames_ok ts s" "unlocked s" "current_directory s = Some cur"
    "mmu_get_page cur a s = Some r" "fst r \<in> ts" "pg_frame (page_at r s) \<noteq> 0"
    "\<not> pi_commited (info_at r s)" "err AND 0x02 \<noteq> 0" "first_free (physical_memmap s) \<noteq> None"
  shows "\<exists>s'. page_fault fd_node read pid err a es s = Some (Inr (Fault_Handled, s', es)) \<and>
    frames_ok ts s' \<and> unlocked s' \<and> pg_rw (page_at r s') \<and>
    mapped_at ts (pg_frame (page_at r s')) s' = {r} \<and>
    frame_data s' (pg_frame (page_at r s')) = frame_data s (pg_frame (page_at r s)) \<and>
    (\<forall>q. fst q \<in> ts \<longrightarrow> q \<noteq> r \<longrightarrow> page_at q s' = page_at q s \<and>
       frame_data s' (pg_frame (page_at q s)) = frame_data s (pg_frame (page_at q s)))"
proof -
  let ?f = "pg_frame (page_at r s)"
  note D = frames_okD [OF assms(1)]
  have lt: "unat ?f < length (frame_refs s)" using D(6) assms(5) by simp
  have count: "unat (frame_refs s ! unat ?f) = card (mapped_at ts ?f s)" using D(7) [OF assms(6) lt] .
  have mem: "r \<in> mapped_at ts ?f s" using mapped_atI [OF assms(5) refl] .
  show ?thesis
  proof (cases "frame_refs s ! unat ?f = 1")
    case True
    from commit_last_user [OF assms(2) refl lt True, of cur a es] obtain s' where s':
        "commit_page cur r a es s = Some (Inr ((), s', es))" "page_at r s' = (page_at r s)\<lparr>pg_rw := True\<rparr>"
        "\<And>q. q \<noteq> r \<Longrightarrow> page_at q s' = page_at q s" "frame_data s' = frame_data s"
        "frame_refs s' = frame_refs s" "memmaps s' = memmaps s" "frame_refs_lock s' = frame_refs_lock s"
      by blast
    have frames: "pg_frame (page_at q s') = pg_frame (page_at q s)" for q
      using s'(2,3) by (cases "q = r") simp_all
    then have mapped: "mapped_at ts g s' = mapped_at ts g s" for g by (simp add: mapped_at_def)
    have "frames_ok ts s'" using frames_ok_cong [of s' s ts] s'(5,6) frames assms(1) by simp
    moreover have "mapped_at ts ?f s = {r}" using mapped_at_single [OF mem] count True by simp
    moreover have "unlocked s'" using assms(2) s'(6,7) by (simp add: unlocked_def)
    ultimately show ?thesis
      using page_fault_commit [OF assms(3,4,6-8) s'(1)] s'(2-4) frames mapped
      by (intro exI [of _ s']) simp
  next
    case False
    obtain p where free: "first_free (physical_memmap s) = Some p" using assms(9) by auto
    note p = find_free_run [OF frames_phys_ok [OF assms(1)] free]
    from commit_shared [OF assms(1,2,4,5) refl assms(6) False free, of es] obtain s' where s':
        "commit_page cur r a es s = Some (Inr ((), s', es))" "frames_ok ts s'" "unlocked s'"
        "pg_rw (page_at r s')" "pg_frame (page_at r s') = of_nat p"
        "\<And>q. q \<noteq> r \<Longrightarrow> page_at q s' = page_at q s"
        "frame_data s' = (frame_data s)(of_nat p := frame_data s ?f)"
      by blast
    have p0: "of_nat p \<noteq> (0 :: 20 word)" "unat (of_nat p :: 20 word) = p"
      using p unat_frame_of_nat [of p] by (auto simp: word_unat_eq_iff)
    then have "mapped_at ts (of_nat p) s = {}" using D(8) [of "of_nat p"] p by simp
    then have other: "pg_frame (page_at q s) \<noteq> of_nat p" if "fst q \<in> ts" for q
      using mapped_atI [OF that refl, of s] by auto
    then have "mapped_at ts (of_nat p) s' = {r}"
      using s'(5,6) assms(5) by (auto simp: mapped_at_def) metis
    then show ?thesis
      using page_fault_commit [OF assms(3,4,6-8) s'(1)] s'(2-7) other
      by (intro exI [of _ s']) simp
  qed
qed

text \<open>Two tables that share frame 5 read-only, the first of them in the current directory.\<close>

definition shared_table :: page_table_t where
  "shared_table = empty_table\<lparr>pt_pages := (\<lambda>_. empty_page)(0 := empty_page\<lparr>pg_present := True, pg_frame := 5\<rparr>)\<rparr>"

definition sample_shared :: mmu where
  "sample_shared = sample_mmu\<lparr>pt_store := (\<lambda>_. shared_table),
     memmaps := (\<lambda>_. sample_phys\<lparr>pagemap := Some [0x21, 0]\<rparr>),
     frame_refs := (replicate 64 0)[5 := 2], current_directory := Some (Directory 0x4000)\<rparr>"

lemma sample_shared_pages [simp]:
  "page_at r sample_shared = (if snd r = 0 then empty_page\<lparr>pg_present := True, pg_frame := 5\<rparr> else empty_page)"
  "info_at r sample_shared = empty_info"
  "physical_memmap sample_shared = sample_phys\<lparr>pagemap := Some [0x21, 0]\<rparr>"
  "pd_tables (dir_store sample_shared d) i = (if i = 1 then 0x8000 else NULL)"
  "frame_refs sample_shared = (replicate 64 0)[5 := 2]"
  "frame_refs_lock sample_shared = MUTEX_INITIALIZER"
  "current_directory sample_shared = Some (Directory 0x4000)"
  by (simp_all add: page_at_def info_at_def sample_shared_def shared_table_def empty_table_def sample_mmu_def)

lemma sample_shared_used:
  "p < 64 \<Longrightarrow> used (sample_phys\<lparr>pagemap := Some [0x21, 0]\<rparr>) p \<longleftrightarrow> p = 0 \<or> p = 5"
proof -
  assume p: "p < 64"
  have b: "bit (0x21 :: u32) n \<longleftrightarrow> n = 0 \<or> n = 5" if "n < 32" for n
    using that by (auto simp: bit_numeral_rec less_Suc_eq numeral_eq_Suc)
  from p have "p div 32 = 0 \<or> p div 32 = 1" "p = 32 * (p div 32) + p mod 32" by auto
  then show ?thesis using b [of "p mod 32"] by (auto simp: used_def)
qed

lemma sample_shared_ok: "frames_ok {0x8000, 0xA000} sample_shared" "unlocked sample_shared"
proof -
  let ?m = "sample_phys\<lparr>pagemap := Some [0x21, 0]\<rparr>"
  have m: "memmap_ok ?m" "capacity ?m = 64" "mm_lock ?m = MUTEX_INITIALIZER"
    by (simp_all add: sample_phys_def memmap_ok_def capacity_def)
  have mapped: "mapped_at {0x8000, 0xA000} f sample_shared =
      (if f = 5 then {(0x8000, 0), (0xA000, 0)} else {})" if "f \<noteq> 0" for f
    using that by (auto simp: mapped_at_def empty_page_def)
  have "unat ((replicate 64 0)[5 := 2] ! unat f :: u32) = card (mapped_at {0x8000, 0xA000} f sample_shared) \<and>
      (used ?m (unat f) \<longleftrightarrow> mapped_at {0x8000, 0xA000} f sample_shared \<noteq> {})"
    if f: "f \<noteq> 0" "unat f < 64" for f :: "20 word"
  proof (cases "f = 5")
    case True
    then show ?thesis using mapped [OF f(1)] sample_shared_used [OF f(2)] by simp
  next
    case False
    then have "unat f \<noteq> 5" using unat_frame_of_nat [of 5] by (auto simp: word_unat_eq_iff)
    then show ?thesis
      using False f mapped [OF f(1)] sample_shared_used [OF f(2)] by (auto simp: word_unat_eq_iff)
  qed
  then show "frames_ok {0x8000, 0xA000} sample_shared"
    using m sample_shared_used [of 0] by (auto simp: frames_ok_def empty_page_def)
  show "unlocked sample_shared" using m by (simp add: unlocked_def MUTEX_INITIALIZER_def)
qed

theorem cow_write_fault_witness:
  "\<exists>s'. page_fault (\<lambda>_. None) (\<lambda>_ _. []) 1 0x7 0x400004 [] sample_shared =
      Some (Inr (Fault_Handled, s', [])) \<and>
    frames_ok {0x8000, 0xA000} s' \<and> unlocked s' \<and> pg_rw (page_at (0x8000, 0) s') \<and>
    mapped_at {0x8000, 0xA000} (pg_frame (page_at (0x8000, 0) s')) s' = {(0x8000, 0)} \<and>
    frame_data s' (pg_frame (page_at (0x8000, 0) s')) =
      frame_data sample_shared (pg_frame (page_at (0x8000, 0) sample_shared)) \<and>
    (\<forall>q. fst q \<in> {0x8000, 0xA000} \<longrightarrow> q \<noteq> (0x8000, 0) \<longrightarrow> page_at q s' = page_at q sample_shared \<and>
       frame_data s' (pg_frame (page_at q sample_shared)) =
         frame_data sample_shared (pg_frame (page_at q sample_shared)))"
proof (rule cow_write_fault [OF sample_shared_ok])
  show "first_free (physical_memmap sample_shared) \<noteq> None"
    using sample_shared_used [of 1]
    by (auto simp: first_free_def find_None_iff sample_phys_def capacity_def used_def
        intro!: exI [of _ 1])
qed (simp_all add: mmu_get_page_def table_idx_def page_idx_def PAGE_SIZE_def empty_page_def empty_info_def)

section \<open>Cloning a table\<close>

lemma frames_ok_share:
  assumes ok: "frames_ok ts s" and dst: "fst dst \<in> ts" "pg_frame (page_at dst s) = 0"
    and src: "fst src \<in> ts" "pg_frame (page_at src s) = f" "f \<noteq> 0"
    and s': "physical_memmap s' = physical_memmap s"
      "frame_refs s' = (frame_refs s)[unat f := frame_refs s ! unat f + 1]"
      "\<And>q. pg_frame (page_at q s') = (if q = dst then f else pg_frame (page_at q s))"
  shows "frames_ok ts s'"
proof -
  note D = frames_okD [OF ok]
  have lt: "unat f < length (frame_refs s)" using D(6) [OF src(1)] src(2) by simp
  have mapped: "mapped_at ts g s' = (if g = f then insert dst (mapped_at ts f s) else mapped_at ts g s)"
    if "g \<noteq> 0" for g
    using that dst s'(3) by (auto simp: mapped_at_def)
  have new: "dst \<notin> mapped_at ts f s" using dst src(3) by (simp add: mapped_at_def)
  have count: "unat (frame_refs s ! unat f) = card (mapped_at ts f s)" using D(7) [OF src(3) lt] .
  moreover have "card (mapped_at ts f s) < 2 ^ 32 - 1" by (rule card_mapped_at) (use D(4) in simp)
  ultimately have inc: "unat (frame_refs s ! unat f + 1) = card (mapped_at ts f s) + 1"
    by (simp add: unat_word_ariths)
  have "unat (frame_refs s' ! unat g) = card (mapped_at ts g s') \<and>
      (used (physical_memmap s') (unat g) \<longleftrightarrow> mapped_at ts g s' \<noteq> {})"
    if g: "g \<noteq> 0" "unat g < length (frame_refs s)" for g
  proof (cases "g = f")
    case True
    then show ?thesis
      using mapped [OF g(1)] new inc lt s'(1,2) mapped_atI [OF src(1,2)] D(8) [OF src(3) lt] by auto
  next
    case False
    then have "unat g \<noteq> unat f" by (auto simp: word_unat_eq_iff)
    then show ?thesis using False mapped [OF g(1)] s'(1,2) D(7,8) [OF g] by simp
  qed
  moreover have "unat (pg_frame (page_at q s')) < length (frame_refs s)" if "fst q \<in> ts" for q
    using D(6) [OF that] lt s'(3) by simp
  ultimately show ?thesis
    using D(1-5,9) s'(1,2) by (simp add: frames_ok_def del: split_paired_All)
qed

text \<open>What one entry of the loop leaves alone.\<close>

definition entry_frame :: "page_ref \<Rightarrow> page_ref \<Rightarrow> mmu \<Rightarrow> mmu \<Rightarrow> bool" where
  "entry_frame dst src s s' \<longleftrightarrow> dir_store s' = dir_store s \<and>
     (\<forall>q. q \<noteq> dst \<longrightarrow> pg_frame (page_at q s') = pg_frame (page_at q s)) \<and>
     (\<forall>q. q \<noteq> dst \<longrightarrow> q \<noteq> src \<longrightarrow> page_at q s' = page_at q s \<and> info_at q s' = info_at q s)"

lemma entry_frame_frames:
  "entry_frame dst src s s' \<Longrightarrow> pg_frame (page_at dst s') = g \<Longrightarrow>
     pg_frame (page_at q s') = (if q = dst then g else pg_frame (page_at q s))"
  by (simp add: entry_frame_def del: split_paired_All)

lemma share_entry_run:
  assumes ok: "frames_ok ts s" and lock: "unlocked s"
    and dst: "fst dst \<in> ts" "pg_frame (page_at dst s) = 0"
    and src: "fst src \<in> ts" "pg_frame (page_at src s) \<noteq> 0"
  shows "\<exists>s'. share_entry dst src es s = Some (Inr ((), s', es)) \<and> frames_ok ts s' \<and> unlocked s' \<and>
    entry_frame dst src s s' \<and> pg_frame (page_at dst s') = pg_frame (page_at src s) \<and>
    \<not> pg_rw (page_at dst s') \<and> \<not> pg_rw (page_at src s') \<and> frame_data s' = frame_data s \<and>
    memmaps s' = memmaps s"
proof -
  let ?f = "pg_frame (page_at src s)"
  have lt: "unat ?f < length (frame_refs s)" using frames_okD(6) [OF ok src(1)] .
  have ne: "dst \<noteq> src" using dst src by auto
  let ?p = "(page_at src s)\<lparr>pg_rw := False, pg_accessed := False, pg_dirty := False\<rparr>"
  let ?i = "(info_at src s)\<lparr>pi_commited := False\<rparr>"
  let ?s1 = "upd_info src (\<lambda>i. i\<lparr>pi_commited := False\<rparr>)
    (upd_page src (\<lambda>p. p\<lparr>pg_rw := False, pg_accessed := False, pg_dirty := False\<rparr>) s)"
  let ?s2 = "upd_info dst (\<lambda>_. ?i) (upd_page dst (\<lambda>_. ?p) ?s1)"
  let ?s3 = "?s2\<lparr>frame_refs := (frame_refs s)[unat ?f := frame_refs s ! unat ?f + 1]\<rparr>"
  let ?s' = "arch_invalidate_page (frame_addr ?f) ?s3"
  have "share_entry dst src es s = Some (Inr ((), ?s', es))"
    using lt ne by (simp add: share_entry_def mmu_simps add_ref_def)
  moreover have "frames_ok ts ?s'"
    by (rule frames_ok_share [OF ok dst src(1) refl src(2)]) (use ne in \<open>simp_all add: mmu_simps\<close>)
  moreover have "unlocked ?s'" using lock by (simp add: unlocked_def mmu_simps)
  moreover have "entry_frame dst src s ?s'" using ne by (simp add: entry_frame_def mmu_simps)
  moreover have "page_at dst ?s' = ?p" "page_at src ?s' = ?p" using ne by (simp_all add: mmu_simps)
  moreover have "frame_data ?s' = frame_data s" "memmaps ?s' = memmaps s" by (simp_all add: mmu_simps)
  ultimately show ?thesis by (intro exI [of _ ?s']) simp
qed

lemma copy_entry_run:
  assumes ok: "frames_ok ts s" and lock: "unlocked s" and page: "mmu_get_page d a s = Some dst"
    and dst: "fst dst \<in> ts" "pg_frame (page_at dst s) = 0"
    and src: "fst src \<in> ts" "pg_frame (page_at src s) \<noteq> 0"
    and free: "first_free (physical_memmap s) = Some p"
  shows "\<exists>s'. copy_entry d a dst src es s = Some (Inr ((), s', es)) \<and> frames_ok ts s' \<and> unlocked s' \<and>
    entry_frame dst src s s' \<and> pg_frame (page_at dst s') = of_nat p \<and>
    frame_data s' = (frame_data s)(of_nat p := frame_data s (pg_frame (page_at src s))) \<and>
    capacity (physical_memmap s') = capacity (physical_memmap s) \<and>
    (\<forall>q. used (physical_memmap s') q \<longleftrightarrow> used (physical_memmap s) q \<or> q = p)"
proof -
  note p = find_free_run [OF frames_phys_ok [OF ok] free]
  have ne: "dst \<noteq> src" using dst src by auto
  have lk: "ms (mm_lock (physical_memmap s)) = 0" using lock by (simp add: unlocked_def)
  from page have t: "pd_tables (dir_store s d) (table_idx a) = fst dst" "fst dst \<noteq> NULL"
      "(fst dst, page_idx a) = dst"
    by (auto simp: mmu_get_page_def Let_def split: if_splits)
  obtain m where m: "mmu_alloc_frame a d es s =
      Some (Inr (of_nat p * PAGE_SIZE, alloc_state dst p m s, es))"
      "memmap_ok m" "capacity m = capacity (physical_memmap s)"
      "mm_lock m = mm_lock (physical_memmap s)"
      "\<And>q. used m q \<longleftrightarrow> used (physical_memmap s) q \<or> q = p"
    using mmu_alloc_frame_run [OF frames_phys_ok [OF ok] lk t(1,2), of p es] dst(2) free t(3) by metis
  let ?s1 = "alloc_state dst p m s"
  have ok1: "frames_ok ts ?s1" using frames_ok_alloc [OF ok dst] p m by blast
  have fr: "pg_frame (page_at dst ?s1) = of_nat p" using p by (simp add: alloc_state_fields frame_of_nat)
  let ?p = "(page_at src s)\<lparr>pg_frame := of_nat p, pg_accessed := False, pg_dirty := False\<rparr>"
  let ?s2 = "upd_page dst (\<lambda>q. (page_at src s)\<lparr>pg_frame := pg_frame q, pg_accessed := False,
    pg_dirty := False\<rparr>) ?s1"
  let ?s3 = "upd_info dst (\<lambda>_. (info_at src s)\<lparr>pi_commited := True\<rparr>) ?s2"
  let ?s' = "copy_physical_page (of_nat p) (pg_frame (page_at src s)) ?s3"
  have "copy_entry d a dst src es s = Some (Inr ((), ?s', es))"
    using m(1) fr ne by (simp add: copy_entry_def mmu_simps alloc_state_fields frame_of_nat)
  moreover have "frames_ok ts ?s'"
    by (rule frames_ok_cong [THEN iffD2, OF _ _ _ ok1]) (simp_all add: mmu_simps)
  moreover have "unlocked ?s'" using lock m(4) by (simp add: unlocked_def mmu_simps alloc_state_fields)
  moreover have "entry_frame dst src s ?s'" by (simp add: entry_frame_def mmu_simps alloc_state_fields)
  moreover have "pg_frame (page_at dst ?s') = of_nat p" using fr by (simp add: mmu_simps)
  moreover have "frame_data ?s' = (frame_data s)(of_nat p := frame_data s (pg_frame (page_at src s)))"
      "physical_memmap ?s' = m"
    by (simp_all add: mmu_simps alloc_state_fields)
  ultimately show ?thesis using m(3,5) by (intro exI [of _ ?s']) simp
qed

lemma unat_slot: "unat (i :: slot) < 1024"
  using unsigned_less [of i, where 'a = nat] by simp

lemma slot_ucast: "ucast (ucast i :: u32) = (i :: slot)"
  by (simp add: word_unat_eq_iff unsigned_ucast_eq take_bit_word_eq_self)

lemma slot_address:
  "table_idx (ucast i * 1024 * PAGE_SIZE + ucast j * PAGE_SIZE) = i"
  "page_idx (ucast i * 1024 * PAGE_SIZE + ucast j * PAGE_SIZE) = j" for i j :: slot
proof -
  let ?n = "unat i * 1024 + unat j"
  have "ucast i * 1024 * PAGE_SIZE + ucast j * PAGE_SIZE = (of_nat ?n * PAGE_SIZE :: u32)"
    by (simp add: algebra_simps)
  moreover have n: "?n < 2 ^ 20" using unat_slot [of i] unat_slot [of j] by (simp add: algebra_simps)
  moreover have "of_nat ?n * PAGE_SIZE div PAGE_SIZE = (of_nat ?n :: u32)"
    using unat_frame_addr [OF n] n
    by (simp add: word_unat_eq_iff unat_div PAGE_SIZE_def unat_of_nat_u32 del: of_nat_add of_nat_mult)
  moreover have "of_nat ?n div 1024 = (of_nat (unat i) :: u32)" "of_nat ?n mod 1024 = (of_nat (unat j) :: u32)"
    using n unat_slot [of i] unat_slot [of j]
    by (simp_all add: word_unat_eq_iff unat_div unat_mod unat_of_nat_u32 del: of_nat_add of_nat_mult of_nat_unat)
  ultimately show "table_idx (ucast i * 1024 * PAGE_SIZE + ucast j * PAGE_SIZE) = i"
      "page_idx (ucast i * 1024 * PAGE_SIZE + ucast j * PAGE_SIZE) = j"
    by (simp_all add: table_idx_def page_idx_def slot_ucast)
qed

text \<open>What a cloned entry is: empty, shared read-only, or private, with the same contents.\<close>

definition shares :: "u32 \<Rightarrow> page_info_t \<Rightarrow> bool" where
  "shares flags pin \<longleftrightarrow> has_flag flags CLONE_COW \<and> pi_cow pin \<and> \<not> pi_noshare pin"

definition cloned :: "addr set \<Rightarrow> u32 \<Rightarrow> addr \<Rightarrow> addr \<Rightarrow> mmu \<Rightarrow> mmu \<Rightarrow> slot \<Rightarrow> bool" where
  "cloned ts flags t src s s' j \<longleftrightarrow>
     (let f = pg_frame (page_at (src, j) s); g = pg_frame (page_at (t, j) s') in
      if f = 0 then g = 0
      else g \<noteq> 0 \<and> frame_data s' g = frame_data s f \<and>
        (if shares flags (info_at (src, j) s)
         then g = f \<and> \<not> pg_rw (page_at (t, j) s') \<and> \<not> pg_rw (page_at (src, j) s')
         else mapped_at ts g s' = {(t, j)}))"

definition private_slots :: "u32 \<Rightarrow> addr \<Rightarrow> mmu \<Rightarrow> slot set" where
  "private_slots flags src s =
     {j. pg_frame (page_at (src, j) s) \<noteq> 0 \<and> \<not> shares flags (info_at (src, j) s)}"

definition clone_inv :: "addr set \<Rightarrow> u32 \<Rightarrow> addr \<Rightarrow> addr \<Rightarrow> mmu \<Rightarrow> slot list \<Rightarrow> mmu \<Rightarrow> bool" where
  "clone_inv ts flags t src s xs s' \<longleftrightarrow> frames_ok ts s' \<and> unlocked s' \<and> dir_store s' = dir_store s \<and>
     distinct xs \<and> (\<forall>j. j \<notin> set xs \<longrightarrow> cloned ts flags t src s s' j) \<and>
     (\<forall>j \<in> set xs. pg_frame (page_at (t, j) s') = 0 \<and> info_at (src, j) s' = info_at (src, j) s) \<and>
     (\<forall>q. fst q \<noteq> t \<longrightarrow> pg_frame (page_at q s') = pg_frame (page_at q s)) \<and>
     (\<forall>q. fst q \<noteq> t \<longrightarrow> fst q \<noteq> src \<longrightarrow> page_at q s' = page_at q s) \<and>
     (\<forall>q. fst q \<in> ts \<longrightarrow> fst q \<noteq> t \<longrightarrow>
        frame_data s' (pg_frame (page_at q s)) = frame_data s (pg_frame (page_at q s))) \<and>
     card (private_slots flags src s \<inter> set xs) \<le> card (free_frames s')"

text \<open>An entry that is done stays done while another one is given a frame.\<close>

declare split_paired_All [simp del]

lemma cloned_step:
  assumes old: "cloned ts flags t src s s1 j" and j: "j \<noteq> y" and t: "t \<noteq> src" "t \<in> ts"
    and dst: "pg_frame (page_at (t, y) s1) = 0" "pg_frame (page_at (t, y) s2) = g"
    and frame: "entry_frame (t, y) (src, y) s1 s2"
    and data: "\<And>h. frame_data s2 h = frame_data s1 h \<or> mapped_at ts h s1 = {}"
    and g: "mapped_at ts g s1 = {} \<or> (src, y) \<in> mapped_at ts g s1"
  shows "cloned ts flags t src s s2 j"
proof -
  let ?f = "pg_frame (page_at (src, j) s)" and ?h = "pg_frame (page_at (t, j) s1)"
  have same: "page_at (t, j) s2 = page_at (t, j) s1" "page_at (src, j) s2 = page_at (src, j) s1"
    using frame j t(1) by (simp_all add: entry_frame_def)
  show ?thesis
  proof (cases "?f = 0")
    case True
    with old show ?thesis by (simp add: cloned_def Let_def same)
  next
    case False
    with old have h: "?h \<noteq> 0" "frame_data s1 ?h = frame_data s ?f" by (simp_all add: cloned_def Let_def)
    have mem: "(t, j) \<in> mapped_at ts ?h s1" using t(2) by (simp add: mapped_at_def)
    then have "frame_data s2 ?h = frame_data s ?f" using data [of ?h] h(2) by auto
    moreover have "mapped_at ts ?h s2 = {(t, j)}" if single: "mapped_at ts ?h s1 = {(t, j)}"
    proof -
      have "?h \<noteq> g" using g mem single t(1) by auto
      then have "mapped_at ts ?h s2 = mapped_at ts ?h s1"
        using dst(1) h(1) by (auto simp: mapped_at_def entry_frame_frames [OF frame dst(2)])
      then show ?thesis using single by simp
    qed
    ultimately show ?thesis using False old by (simp add: cloned_def Let_def same)
  qed
qed

lemma clone_entry_cases:
  "clone_entry d t src vaddr flags y es s =
     (if pg_frame (page_at (src, y) s) = 0 then Some (Inr ((), s, es))
      else if shares flags (info_at (src, y) s) then share_entry (t, y) (src, y) es s
      else copy_entry d (vaddr + ucast y * PAGE_SIZE) (t, y) (src, y) es s)"
  by (simp add: clone_entry_def shares_def)

lemma clone_inv_step:
  assumes inv: "clone_inv ts flags t src s (y # ys) s1" and t: "t \<noteq> src" "t \<in> ts" "src \<in> ts"
    and f: "pg_frame (page_at (src, y) s) = f" "f \<noteq> 0"
    and s2: "frames_ok ts s2" "unlocked s2" "entry_frame (t, y) (src, y) s1 s2"
      "\<And>h. frame_data s2 h = frame_data s1 h \<or> mapped_at ts h s1 = {}"
    and g: "pg_frame (page_at (t, y) s2) = g"
      "mapped_at ts g s1 = {} \<or> (src, y) \<in> mapped_at ts g s1"
    and y: "cloned ts flags t src s s2 y"
    and free: "card (private_slots flags src s \<inter> set ys) \<le> card (free_frames s2)"
  shows "clone_inv ts flags t src s ys s2"
proof -
  note I = inv [unfolded clone_inv_def]
  have "cloned ts flags t src s s2 j" if "j \<notin> set ys" for j
  proof (cases "j = y")
    case False
    with that I have "cloned ts flags t src s s1 j" by simp
    then show ?thesis
      by (rule cloned_step [OF _ False t(1,2) _ g(1) s2(3,4) g(2)]) (use I in simp)
  qed (use y in simp)
  moreover have "frame_data s2 (pg_frame (page_at q s)) = frame_data s (pg_frame (page_at q s))"
    if q: "fst q \<in> ts" "fst q \<noteq> t" for q
  proof -
    have "q \<in> mapped_at ts (pg_frame (page_at q s)) s1" using I q by (simp add: mapped_at_def)
    then show ?thesis using s2(4) [of "pg_frame (page_at q s)"] I q by auto
  qed
  moreover have "pg_frame (page_at q s2) = pg_frame (page_at q s)" if "fst q \<noteq> t" for q
    using that I s2(3) by (cases q) (auto simp: entry_frame_def)
  moreover have "page_at q s2 = page_at q s" if "fst q \<noteq> t" "fst q \<noteq> src" for q
    using that I s2(3) by (cases q) (auto simp: entry_frame_def)
  moreover have "pg_frame (page_at (t, j) s2) = 0 \<and> info_at (src, j) s2 = info_at (src, j) s"
    if "j \<in> set ys" for j
  proof -
    have "j \<noteq> y" using that I by auto
    then show ?thesis
      using that I t(1) s2(3) entry_frame_frames [OF s2(3) g(1), of "(t, j)"]
      by (simp add: entry_frame_def)
  qed
  moreover have "dir_store s2 = dir_store s" "distinct ys" using I s2(3) by (simp_all add: entry_frame_def)
  ultimately show ?thesis using s2(1,2) free by (simp add: clone_inv_def)
qed

lemma clone_entry_step:
  assumes inv: "clone_inv ts flags t src s (y # ys) s1" and t: "t \<noteq> src" "t \<in> ts" "src \<in> ts" "t \<noteq> NULL"
    and dir: "pd_tables (dir_store s d) i = t"
  shows "\<exists>s2. clone_entry d t src (ucast i * 1024 * PAGE_SIZE) flags y es s1 = Some (Inr ((), s2, es)) \<and>
    clone_inv ts flags t src s ys s2"
proof -
  note I = inv [unfolded clone_inv_def]
  let ?f = "pg_frame (page_at (src, y) s)"
  have f1: "pg_frame (page_at (src, y) s1) = ?f" "info_at (src, y) s1 = info_at (src, y) s"
      "pg_frame (page_at (t, y) s1) = 0" "frame_data s1 ?f = frame_data s ?f"
    using I t(1,3) by auto
  have ok: "frames_ok ts s1" "unlocked s1" using I by simp_all
  have ft: "fst (t, y) \<in> ts" "fst (src, y) \<in> ts" using t by simp_all
  consider "?f = 0" | "?f \<noteq> 0" "shares flags (info_at (src, y) s)"
    | "?f \<noteq> 0" "\<not> shares flags (info_at (src, y) s)" by blast
  then show ?thesis
  proof cases
    case 1
    then have "private_slots flags src s \<inter> set (y # ys) = private_slots flags src s \<inter> set ys"
      by (auto simp: private_slots_def)
    moreover have "cloned ts flags t src s s1 y" using 1 f1(3) by (simp add: cloned_def)
    ultimately have "clone_inv ts flags t src s ys s1" using I by (auto simp: clone_inv_def)
    then show ?thesis using 1 f1 by (simp add: clone_entry_cases)
  next
    case 2
    from share_entry_run [OF ok ft(1) f1(3) ft(2), of es] 2(1) f1(1) obtain s2 where s2:
        "share_entry (t, y) (src, y) es s1 = Some (Inr ((), s2, es))" "frames_ok ts s2" "unlocked s2"
        "entry_frame (t, y) (src, y) s1 s2" "pg_frame (page_at (t, y) s2) = ?f"
        "\<not> pg_rw (page_at (t, y) s2)" "\<not> pg_rw (page_at (src, y) s2)"
        "frame_data s2 = frame_data s1" "memmaps s2 = memmaps s1"
      by auto
    have "cloned ts flags t src s s2 y" using 2 s2 f1(4) by (simp add: cloned_def)
    moreover have "private_slots flags src s \<inter> set (y # ys) = private_slots flags src s \<inter> set ys"
      using 2 by (auto simp: private_slots_def)
    moreover have "free_frames s2 = free_frames s1" using s2(9) by (simp add: free_frames_def)
    ultimately have "clone_inv ts flags t src s ys s2"
      using I by (intro clone_inv_step [OF inv t(1-3) refl 2(1) s2(2-4) _ s2(5)])
        (simp_all add: s2(8) mapped_at_def f1(1) t)
    then show ?thesis using 2 f1 s2(1) by (simp add: clone_entry_cases)
  next
    case 3
    have y: "y \<in> private_slots flags src s" using 3 by (simp add: private_slots_def)
    have "card (private_slots flags src s \<inter> set ys) < card (free_frames s1)"
    proof -
      have "private_slots flags src s \<inter> set (y # ys) = insert y (private_slots flags src s \<inter> set ys)"
        using y by auto
      moreover have "y \<notin> set ys" using I by simp
      ultimately have "card (private_slots flags src s \<inter> set (y # ys)) =
          Suc (card (private_slots flags src s \<inter> set ys))" by simp
      then show ?thesis using I by (simp del: Int_insert_right_if0 Int_insert_right_if1)
    qed
    then obtain p where free: "first_free (physical_memmap s1) = Some p"
      using free_frames_find [of s1] by (cases "free_frames s1 = {}") auto
    have page: "mmu_get_page d (ucast i * 1024 * PAGE_SIZE + ucast y * PAGE_SIZE) s1 = Some (t, y)"
      using I dir t(4) by (simp add: mmu_get_page_def slot_address Let_def)
    from copy_entry_run [OF ok page ft(1) f1(3) ft(2) _ free, of es] 3(1) f1(1) obtain s2 where s2:
        "copy_entry d (ucast i * 1024 * PAGE_SIZE + ucast y * PAGE_SIZE) (t, y) (src, y) es s1 =
           Some (Inr ((), s2, es))" "frames_ok ts s2" "unlocked s2"
        "entry_frame (t, y) (src, y) s1 s2" "pg_frame (page_at (t, y) s2) = of_nat p"
        "frame_data s2 = (frame_data s1)(of_nat p := frame_data s1 ?f)"
        "capacity (physical_memmap s2) = capacity (physical_memmap s1)"
        "\<And>q. used (physical_memmap s2) q \<longleftrightarrow> used (physical_memmap s1) q \<or> q = p"
      by auto
    note p = find_free_run [OF frames_phys_ok [OF ok(1)] free]
    have p0: "of_nat p \<noteq> (0 :: 20 word)" "unat (of_nat p :: 20 word) = p"
      using p unat_frame_of_nat [of p] by (auto simp: word_unat_eq_iff)
    have empty: "mapped_at ts (of_nat p) s1 = {}"
      using frames_okD(8) [OF ok(1), of "of_nat p"] p p0 by simp
    have mapped: "mapped_at ts (of_nat p) s2 = {(t, y)}"
      using empty t(2) by (auto simp: mapped_at_def entry_frame_frames [OF s2(4,5)])
    have "cloned ts flags t src s s2 y" using 3 s2(5,6) f1(4) p0 mapped by (simp add: cloned_def)
    moreover have "free_frames s2 = free_frames s1 - {p}" using s2(7,8) by (auto simp: free_frames_def)
    moreover have "p \<in> free_frames s1" using first_free_in [OF free] .
    ultimately have "clone_inv ts flags t src s ys s2"
      using \<open>card (private_slots flags src s \<inter> set ys) < card (free_frames s1)\<close>
      by (intro clone_inv_step [OF inv t(1-3) refl 3(1) s2(2-4) _ s2(5)])
        (simp_all add: s2(6) empty)
    then show ?thesis using 3 f1 s2(1) by (simp add: clone_entry_cases)
  qed
qed

lemma all_slots_set: "set all_slots = UNIV" "distinct all_slots"
proof -
  have "i \<in> set all_slots" for i
    using unat_slot [of i] by (auto simp: all_slots_def intro!: image_eqI [of _ _ "unat i"])
  then show "set all_slots = UNIV" by blast
  have "inj_on (of_nat :: nat \<Rightarrow> slot) (set [0..<1024])"
    by (rule inj_on_inverseI [of _ unat]) (simp add: unsigned_of_nat take_bit_nat_eq_self)
  then show "distinct all_slots" by (simp add: all_slots_def distinct_map)
qed

text \<open>A new table that \<open>memset\<close> has emptied adds no reference.\<close>

lemma frames_ok_new_table:
  assumes ok: "frames_ok ts s" and t: "card ts < 2 ^ 22 - 1" "t \<notin> ts"
    and s': "memmaps s' = memmaps s" "frame_refs s' = frame_refs s"
      "\<And>q. page_at q s' = (if fst q = t then empty_page else page_at q s)"
  shows "frames_ok (insert t ts) s'"
proof -
  note D = frames_okD [OF ok]
  have mapped: "mapped_at (insert t ts) f s' = mapped_at ts f s" if "f \<noteq> 0" for f
    using that t(2) s'(3) by (auto simp: mapped_at_def empty_page_def)
  have "unat (pg_frame (page_at q s')) < length (frame_refs s')" if "fst q \<in> insert t ts" for q
    using that D(6) [of q] D(9) s'(2,3) by (auto simp: empty_page_def)
  then show ?thesis
    using D(1-5,7-9) t mapped s'(1,2) by (simp add: frames_ok_def card_insert_if)
qed

lemma cloned_cong:
  assumes "cloned ts flags t src s1 s' j" "page_at (src, j) s1 = page_at (src, j) s"
    "info_at (src, j) s1 = info_at (src, j) s" "frame_data s1 = frame_data s"
  shows "cloned ts flags t src s s' j"
  using assms by (simp only: cloned_def)

lemma new_table_fields:
  "memmaps (upd_table t g (set_dir_table d i a s)) = memmaps s"
  "frame_refs (upd_table t g (set_dir_table d i a s)) = frame_refs s"
  "frame_refs_lock (upd_table t g (set_dir_table d i a s)) = frame_refs_lock s"
  "frame_data (upd_table t g (set_dir_table d i a s)) = frame_data s"
  "pd_tables (dir_store (upd_table t g (set_dir_table d i a s)) d) i = a"
  "page_at q (upd_table t (\<lambda>_. empty_table\<lparr>pt_noshare := b\<rparr>) (set_dir_table d i a s)) =
     (if fst q = t then empty_page else page_at q s)"
  "fst q \<noteq> t \<Longrightarrow> info_at q (upd_table t g (set_dir_table d i a s)) = info_at q s"
  by (simp_all add: upd_table_def set_dir_table_def upd_dir_def page_at_def info_at_def empty_table_def)

text \<open>C3. Cloning a page table, when the table can be allocated and the frames for its private pages
  are free: every page of the new table holds what the page of the source holds.  A page that is
  copied on write is shared and read-only in both tables, any other mapped page has a frame no other
  entry refers to, an unmapped page stays unmapped; no other mapping changes its frame or contents,
  and the accounting of the frames is intact with the new table counted.\<close>

theorem clone_table_copies:
  assumes alloc: "kalloc n sizeof_page_table NULL
      (KALLOC_OPTN_ALIGN OR KALLOC_OPTN_KERNEL OR KALLOC_OPTN_WRITEABLE) NULL es0 s0 =
      Some (Inr ((t, phys), s, es))"
    and t: "t \<noteq> NULL" "t \<notin> ts" "src \<in> ts" "card ts < 2 ^ 22 - 1"
    and ok: "frames_ok ts s" "unlocked s"
    and room: "card (private_slots flags src s) \<le> card (free_frames s)"
  shows "\<exists>s'. mmu_clone_table n d i src (ucast i * 1024 * PAGE_SIZE) flags es0 s0 =
      Some (Inr ((t, phys), s', es)) \<and>
    frames_ok (insert t ts) s' \<and> unlocked s' \<and> pd_tables (dir_store s' d) i = t \<and>
    (\<forall>j. cloned (insert t ts) flags t src s s' j) \<and>
    (\<forall>q. fst q \<in> ts \<longrightarrow> pg_frame (page_at q s') = pg_frame (page_at q s) \<and>
       frame_data s' (pg_frame (page_at q s)) = frame_data s (pg_frame (page_at q s)))"
proof -
  let ?sd = "set_dir_table d i t s"
  let ?s1 = "upd_table t (\<lambda>_. empty_table\<lparr>pt_noshare := pt_noshare (pt_store ?sd src)\<rparr>) ?sd"
  have ts: "t \<noteq> src" using t by auto
  have "frames_ok (insert t ts) ?s1"
    by (rule frames_ok_new_table [OF ok(1) t(4,2)]) (simp_all only: new_table_fields)
  moreover have "unlocked ?s1" using ok(2) by (simp add: unlocked_def new_table_fields)
  moreover have page: "page_at (src, j) ?s1 = page_at (src, j) s" "info_at (src, j) ?s1 = info_at (src, j) s" for j
    using ts by (simp_all add: new_table_fields)
  moreover have "pg_frame (page_at (t, j) ?s1) = 0" for j by (simp add: new_table_fields empty_page_def)
  moreover have "private_slots flags src ?s1 = private_slots flags src s"
      "free_frames ?s1 = free_frames s"
    using ts by (auto simp: private_slots_def page free_frames_def new_table_fields)
  ultimately have "clone_inv (insert t ts) flags t src ?s1 all_slots ?s1"
    using room all_slots_set by (simp add: clone_inv_def)
  then obtain s' where s': "foldP (clone_entry d t src (ucast i * 1024 * PAGE_SIZE) flags) all_slots es ?s1 =
      Some (Inr ((), s', es))" "clone_inv (insert t ts) flags t src ?s1 [] s'"
    by (rule foldP_invariant [where P = "clone_inv (insert t ts) flags t src ?s1"])
      (use clone_entry_step [OF _ ts] t(1,3) in \<open>auto simp: new_table_fields\<close>)
  note I = s'(2) [unfolded clone_inv_def]
  have "mmu_clone_table n d i src (ucast i * 1024 * PAGE_SIZE) flags es0 s0 = Some (Inr ((t, phys), s', es))"
    using alloc s'(1) t(1) by (simp add: mmu_clone_table_def)
  moreover have "cloned (insert t ts) flags t src s s' j" for j
    by (rule cloned_cong [of _ _ _ _ ?s1]) (use I page in \<open>simp_all add: new_table_fields\<close>)
  moreover have "pg_frame (page_at q s') = pg_frame (page_at q s) \<and>
      frame_data s' (pg_frame (page_at q s)) = frame_data s (pg_frame (page_at q s))" if "fst q \<in> ts" for q
  proof -
    have "fst q \<noteq> t" using that t(2) by auto
    then have "page_at q ?s1 = page_at q s" by (simp add: new_table_fields)
    then show ?thesis using I \<open>fst q \<noteq> t\<close> that by (auto simp: new_table_fields)
  qed
  moreover have "pd_tables (dir_store s' d) i = t" using I by (simp add: new_table_fields)
  ultimately show ?thesis using I by blast
qed

definition sample_clone :: mmu where
  "sample_clone = sample_shared\<lparr>current_directory := None\<rparr>"

text \<open>The state after the allocation, which before paging only moves the placement address.\<close>

definition sample_cloned :: mmu where
  "sample_cloned = sample_clone\<lparr>placement_address := 0x102008\<rparr>"

lemma sample_clone_alloc:
  "kalloc 1 sizeof_page_table NULL
     (KALLOC_OPTN_ALIGN OR KALLOC_OPTN_KERNEL OR KALLOC_OPTN_WRITEABLE) NULL [] sample_clone =
   Some (Inr ((0x100000, Some 0x100000), sample_cloned, []))"
  by (simp add: sample_clone_def sample_cloned_def sample_shared_def sample_mmu_def kalloc_premmu_def
      has_flag_def mmu_options round_up_def sizeof_page_table_def numeral_eq_Suc Let_def)

lemma sample_cloned_fields:
  "page_at q sample_cloned = page_at q sample_shared" "info_at q sample_cloned = info_at q sample_shared"
  "memmaps sample_cloned = memmaps sample_shared" "frame_refs sample_cloned = frame_refs sample_shared"
  "frame_refs_lock sample_cloned = frame_refs_lock sample_shared"
  by (simp_all add: sample_cloned_def sample_clone_def page_at_def info_at_def)

lemma sample_cloned_ok: "frames_ok {0x8000, 0xA000} sample_cloned" "unlocked sample_cloned"
  using sample_shared_ok frames_ok_cong [of sample_cloned sample_shared]
  by (simp_all add: sample_cloned_fields unlocked_def)

theorem clone_table_copies_witness:
  "\<exists>s'. mmu_clone_table 1 (Directory 0x4000) 1 0x8000 (ucast (1 :: slot) * 1024 * PAGE_SIZE) CLONE_COW
      [] sample_clone = Some (Inr ((0x100000, Some 0x100000), s', [])) \<and>
    frames_ok (insert 0x100000 {0x8000, 0xA000}) s' \<and> unlocked s' \<and>
    pd_tables (dir_store s' (Directory 0x4000)) 1 = 0x100000 \<and>
    (\<forall>j. cloned (insert 0x100000 {0x8000, 0xA000}) CLONE_COW 0x100000 0x8000 sample_cloned s' j) \<and>
    (\<forall>q. fst q \<in> {0x8000, 0xA000} \<longrightarrow>
       pg_frame (page_at q s') = pg_frame (page_at q sample_cloned) \<and>
       frame_data s' (pg_frame (page_at q sample_cloned)) =
         frame_data sample_cloned (pg_frame (page_at q sample_cloned)))"
proof (rule clone_table_copies [OF sample_clone_alloc _ _ _ _ sample_cloned_ok])
  have "1 \<in> free_frames sample_cloned"
    using sample_shared_used [of 1]
    by (simp add: free_frames_def sample_cloned_fields sample_phys_def capacity_def)
  then have "1 \<le> card (free_frames sample_cloned)" by (simp add: Suc_le_eq card_gt_0_iff) blast
  moreover have "private_slots CLONE_COW 0x8000 sample_cloned = {0}"
    by (auto simp: private_slots_def sample_cloned_fields empty_page_def empty_info_def shares_def)
  ultimately show "card (private_slots CLONE_COW 0x8000 sample_cloned) \<le> card (free_frames sample_cloned)"
    by simp
qed simp_all

declare split_paired_All [simp]

end
