(* ===== verification/Bget.thy ===== *)
theory Bget
  imports Hydrax_Prelude
begin

text \<open>
  The kernel heap: the buffer allocator \<open>kernel/bget/bget.c\<close> in the configuration of the kernel
  (best fit, statistics, expansion control, validation) and the calls of \<open>kernel/kheap.c\<close> on it.
  Sizes are the \<open>long\<close> of the 32-bit ABI, as integers with the wrap-around written out; a pool is
  an object in memory, so addresses inside it are integers.  The links of a free buffer and the
  user's bytes share storage in the source and are separate components here, which agree as long
  as users write inside their buffers.
\<close>

section \<open>State\<close>

text \<open>The anchor \<open>freelist\<close> is a static object; the other buffers are at addresses.\<close>

datatype bref = Freelist | Buf int

record bheap =
  h_prevfree :: "int \<Rightarrow> int"
  h_bsize :: "int \<Rightarrow> int"
  h_tsize :: "int \<Rightarrow> int"
  h_data :: "int \<Rightarrow> u8"
  flink :: "bref \<Rightarrow> bref"
  blink :: "bref \<Rightarrow> bref"
  totalloc :: int
  numget :: int
  numrel :: int
  numpblk :: int
  numpget :: int
  numprel :: int
  numdget :: int
  numdrel :: int
  exp_incr :: int
  pool_len :: int

definition initial_heap :: bheap where
  "initial_heap = \<lparr>h_prevfree = (\<lambda>_. 0), h_bsize = (\<lambda>_. 0), h_tsize = (\<lambda>_. 0), h_data = (\<lambda>_. 0),
     flink = (\<lambda>_. Freelist), blink = (\<lambda>_. Freelist), totalloc = 0, numget = 0, numrel = 0,
     numpblk = 0, numpget = 0, numprel = 0, numdget = 0, numdrel = 0, exp_incr = 0, pool_len = 0\<rparr>"

text \<open>The functions that \<open>bectl\<close> installs; each may be \<open>NULL\<close>.\<close>

record control =
  compfcn :: "(int \<Rightarrow> int \<Rightarrow> bheap \<Rightarrow> bool \<times> bheap) option"
  acqfcn :: "(int \<Rightarrow> bheap \<Rightarrow> int \<times> bheap) option"
  relfcn :: "(int \<Rightarrow> bheap \<Rightarrow> bheap) option"

definition no_control :: control where
  "no_control = \<lparr>compfcn = None, acqfcn = None, relfcn = None\<rparr>"

definition wrap32 :: "int \<Rightarrow> int" where
  "wrap32 x = signed_take_bit 31 x"

text \<open>A comparison with \<open>sizeof\<close> is unsigned.\<close>

definition u32_of :: "int \<Rightarrow> int" where
  "u32_of x = x mod 2 ^ 32"

definition SizeQuant :: int where "SizeQuant = 0x1000 + 8"

definition QLSize :: int where "QLSize = 8"

definition SizeQ :: int where "SizeQ = (if SizeQuant > QLSize then SizeQuant else QLSize)"

definition ESent :: int where "ESent = - (((2 ^ 30) - 1) * 2) - 2"

definition sizeof_bhead :: int where "sizeof_bhead = 8"

definition sizeof_bdhead :: int where "sizeof_bdhead = 12"

section \<open>Pools\<close>

definition bectl :: "(int \<Rightarrow> int \<Rightarrow> bheap \<Rightarrow> bool \<times> bheap) option \<Rightarrow>
    (int \<Rightarrow> bheap \<Rightarrow> int \<times> bheap) option \<Rightarrow> (int \<Rightarrow> bheap \<Rightarrow> bheap) option \<Rightarrow> int \<Rightarrow> bheap \<Rightarrow>
    control \<times> bheap" where
  "bectl compact acquire release pool_incr h =
     (\<lparr>compfcn = compact, acqfcn = acquire, relfcn = release\<rparr>, h\<lparr>exp_incr := pool_incr\<rparr>)"

text \<open>Appending a buffer to the free list.\<close>

definition link_last :: "int \<Rightarrow> bheap \<Rightarrow> bheap outcome" where
  "link_last b h =
     bindE (assertE (flink h (blink h Freelist) = Freelist)) (\<lambda>_.
     bindE (assertE (blink h (flink h Freelist) = Freelist)) (\<lambda>_.
     let h1 = h\<lparr>flink := (flink h)(Buf b := Freelist),
                blink := (blink h)(Buf b := blink h Freelist, Freelist := Buf b)\<rparr> in
     Inr (h1\<lparr>flink := (flink h1)(blink h1 (Buf b) := Buf b)\<rparr>)))"

definition unlink_buffer :: "int \<Rightarrow> bheap \<Rightarrow> bheap" where
  "unlink_buffer b h =
     (let h1 = h\<lparr>flink := (flink h)(blink h (Buf b) := flink h (Buf b))\<rparr> in
      h1\<lparr>blink := (blink h1)(flink h1 (Buf b) := blink h1 (Buf b))\<rparr>)"

definition bpool :: "int \<Rightarrow> int \<Rightarrow> bheap \<Rightarrow> bheap outcome" where
  "bpool b len0 h =
     (let len = len0 AND NOT (SizeQuant - 1);
          h1 = h\<lparr>pool_len := (if pool_len h = 0 then len
                                else if len \<noteq> pool_len h then - 1 else pool_len h),
                 numpget := numpget h + 1, numpblk := numpblk h + 1\<rparr> in
      bindE (assertE (numpblk h1 = numpget h1 - numprel h1)) (\<lambda>_.
      bindE (assertE (u32_of (len - sizeof_bhead) \<le> - (ESent + 1))) (\<lambda>_.
      bindE (link_last b (h1\<lparr>h_prevfree := (h_prevfree h1)(b := 0)\<rparr>)) (\<lambda>h2.
      let len' = wrap32 (len - sizeof_bhead);
          h3 = h2\<lparr>h_bsize := (h_bsize h2)(b := len')\<rparr>;
          bn = b + len' in
      Inr (h3\<lparr>h_prevfree := (h_prevfree h3)(bn := len'), h_bsize := (h_bsize h3)(bn := ESent)\<rparr>)))))"

section \<open>Allocation\<close>

definition round_size :: "int \<Rightarrow> int" where
  "round_size requested =
     (let s0 = (if u32_of requested < SizeQ then SizeQ else requested);
          s1 = wrap32 (s0 + (SizeQuant - 1)) AND NOT (SizeQuant - 1) in
      wrap32 (s1 + sizeof_bhead))"

text \<open>The scan for the best fit, and the scan from there for a buffer that is big enough.\<close>

partial_function (option) best_scan :: "bheap \<Rightarrow> int \<Rightarrow> bref \<Rightarrow> bref \<Rightarrow> bref option" where
  "best_scan h sz b best =
     (case b of
        Freelist \<Rightarrow> Some best
      | Buf a \<Rightarrow> best_scan h sz (flink h b)
          (if h_bsize h a \<ge> sz \<and>
              (case best of Freelist \<Rightarrow> True | Buf c \<Rightarrow> h_bsize h a < h_bsize h c)
           then b else best))"

partial_function (option) fit_scan :: "bheap \<Rightarrow> int \<Rightarrow> bref \<Rightarrow> bref option" where
  "fit_scan h sz b =
     (case b of
        Freelist \<Rightarrow> Some Freelist
      | Buf a \<Rightarrow> if h_bsize h a \<ge> sz then Some b else fit_scan h sz (flink h b))"

declare best_scan.simps [code] fit_scan.simps [code]

definition take_buffer :: "int \<Rightarrow> int \<Rightarrow> bheap \<Rightarrow> (int \<times> bheap) outcome" where
  "take_buffer sz b h =
     (let bs = h_bsize h b in
      if u32_of (wrap32 (bs - sz)) > SizeQ + sizeof_bhead then
        let ba = b + wrap32 (bs - sz); bn = ba + sz; rest = wrap32 (bs - sz) in
        bindE (assertE (h_prevfree h bn = bs)) (\<lambda>_.
        Inr (ba + sizeof_bhead,
             h\<lparr>h_bsize := (h_bsize h)(b := rest, ba := wrap32 (- sz)),
               h_prevfree := (h_prevfree h)(ba := rest, bn := 0),
               totalloc := wrap32 (totalloc h + sz), numget := numget h + 1\<rparr>))
      else
        let ba = b + bs in
        bindE (assertE (h_prevfree h ba = bs)) (\<lambda>_.
        bindE (assertE (flink h (blink h (Buf b)) = Buf b)) (\<lambda>_.
        bindE (assertE (blink h (flink h (Buf b)) = Buf b)) (\<lambda>_.
        let h1 = unlink_buffer b h in
        Inr (b + sizeof_bhead,
             h1\<lparr>totalloc := wrap32 (totalloc h1 + bs), numget := numget h1 + 1,
                h_bsize := (h_bsize h1)(b := wrap32 (- bs)),
                h_prevfree := (h_prevfree h1)(ba := 0)\<rparr>)))))"

text \<open>The loop around the scans, which a compact function may ask to repeat; \<open>None\<close> as the value
  is the \<open>break\<close> out of it.\<close>

partial_function (option) search_loop :: "control \<Rightarrow> int \<Rightarrow> int \<Rightarrow> bheap \<Rightarrow>
    (int option \<times> bheap) run" where
  "search_loop ctl sz compactseq h =
     (case best_scan h sz (flink h Freelist) Freelist of
        None \<Rightarrow> None
      | Some best \<Rightarrow>
          (case fit_scan h sz best of
             None \<Rightarrow> None
           | Some (Buf b) \<Rightarrow> Some (bindE (take_buffer sz b h) (\<lambda>(p, h'). Inr (Some p, h')))
           | Some Freelist \<Rightarrow>
               (case compfcn ctl of
                  None \<Rightarrow> Some (Inr (None, h))
                | Some f \<Rightarrow>
                    if fst (f sz (compactseq + 1) h)
                    then search_loop ctl sz (compactseq + 1) (snd (f sz (compactseq + 1) h))
                    else Some (Inr (None, snd (f sz (compactseq + 1) h))))))"

declare search_loop.simps [code]

definition acquire_direct :: "(int \<Rightarrow> bheap \<Rightarrow> int \<times> bheap) \<Rightarrow> int \<Rightarrow> bheap \<Rightarrow> int \<times> bheap" where
  "acquire_direct acq sz0 h =
     (let sz = wrap32 (sz0 + (sizeof_bdhead - sizeof_bhead)); (bdh, h1) = acq sz h in
      if bdh = 0 then (0, h1)
      else (bdh + sizeof_bdhead,
            h1\<lparr>h_bsize := (h_bsize h1)(bdh + 4 := 0), h_prevfree := (h_prevfree h1)(bdh + 4 := 0),
               h_tsize := (h_tsize h1)(bdh := sz), totalloc := wrap32 (totalloc h1 + sz),
               numget := numget h1 + 1, numdget := numdget h1 + 1\<rparr>))"

partial_function (option) bget :: "control \<Rightarrow> int \<Rightarrow> bheap \<Rightarrow> (int \<times> bheap) run" where
  "bget ctl requested h =
     (if \<not> requested > 0 then Some (Inl Assert_Failed)
      else (case search_loop ctl (round_size requested) 0 h of
          None \<Rightarrow> None
        | Some (Inl t) \<Rightarrow> Some (Inl t)
        | Some (Inr (Some p, h1)) \<Rightarrow> Some (Inr (p, h1))
        | Some (Inr (None, h1)) \<Rightarrow>
            (case acqfcn ctl of
               None \<Rightarrow> Some (Inr (0, h1))
             | Some acq \<Rightarrow>
                 if u32_of (round_size requested) > u32_of (exp_incr h1 - sizeof_bhead)
                 then Some (Inr (acquire_direct acq (round_size requested) h1))
                 else if fst (acq (exp_incr h1) h1) = 0 then Some (Inr (0, snd (acq (exp_incr h1) h1)))
                 else (case bpool (fst (acq (exp_incr h1) h1)) (exp_incr h1) (snd (acq (exp_incr h1) h1)) of
                         Inl t \<Rightarrow> Some (Inl t)
                       | Inr h2 \<Rightarrow> bget ctl requested h2))))"

declare bget.simps [code]

section \<open>Release\<close>

text \<open>The buffer joins the free buffer before it, or goes to the end of the free list.\<close>

definition join_previous :: "int \<Rightarrow> bheap \<Rightarrow> (int \<times> bheap) outcome" where
  "join_previous b h =
     (let pf = h_prevfree h b; sz = h_bsize h b in
      if pf \<noteq> 0 then
        bindE (assertE (h_bsize h (b - pf) = pf)) (\<lambda>_.
        Inr (b - pf, h\<lparr>h_bsize := (h_bsize h)(b - pf := wrap32 (h_bsize h (b - pf) - sz))\<rparr>))
      else
        bindE (link_last b h) (\<lambda>h1.
        Inr (b, h1\<lparr>h_bsize := (h_bsize h1)(b := wrap32 (- sz))\<rparr>)))"

text \<open>A free buffer that follows is taken off the list and joined.\<close>

definition join_next :: "int \<Rightarrow> bheap \<Rightarrow> bheap outcome" where
  "join_next b h =
     (let bn = b + h_bsize h b in
      if h_bsize h bn > 0 then
        bindE (assertE (h_prevfree h (bn + h_bsize h bn) = h_bsize h bn)) (\<lambda>_.
        bindE (assertE (flink h (blink h (Buf bn)) = Buf bn)) (\<lambda>_.
        bindE (assertE (blink h (flink h (Buf bn)) = Buf bn)) (\<lambda>_.
        let h1 = unlink_buffer bn h in
        Inr (h1\<lparr>h_bsize := (h_bsize h1)(b := wrap32 (h_bsize h1 b + h_bsize h1 bn))\<rparr>))))
      else Inr h)"

text \<open>A pool that is free as a whole goes back to a release function, if there is one.\<close>

definition release_pool :: "control \<Rightarrow> int \<Rightarrow> bheap \<Rightarrow> bheap outcome" where
  "release_pool ctl b h =
     (case relfcn ctl of
        None \<Rightarrow> Inr h
      | Some rel \<Rightarrow>
          if u32_of (h_bsize h b) = u32_of (pool_len h - sizeof_bhead) then
            bindE (assertE (h_prevfree h b = 0)) (\<lambda>_.
            bindE (assertE (h_bsize h (b + h_bsize h b) = ESent)) (\<lambda>_.
            bindE (assertE (h_prevfree h (b + h_bsize h b) = h_bsize h b)) (\<lambda>_.
            let h1 = rel b (unlink_buffer b h);
                h2 = h1\<lparr>numprel := numprel h1 + 1, numpblk := numpblk h1 - 1\<rparr> in
            bindE (assertE (numpblk h2 = numpget h2 - numprel h2)) (\<lambda>_. Inr h2))))
          else Inr h)"

definition release_direct :: "control \<Rightarrow> int \<Rightarrow> bheap \<Rightarrow> bheap outcome" where
  "release_direct ctl buf h =
     (let b = buf - sizeof_bhead; bdh = buf - sizeof_bdhead in
      bindE (assertE (h_prevfree h b = 0)) (\<lambda>_.
      let h1 = h\<lparr>totalloc := wrap32 (totalloc h - h_tsize h bdh)\<rparr> in
      bindE (assertE (totalloc h1 \<ge> 0)) (\<lambda>_.
      case relfcn ctl of
        None \<Rightarrow> Inl Assert_Failed
      | Some rel \<Rightarrow> Inr (rel bdh (h1\<lparr>numdrel := numdrel h1 + 1\<rparr>)))))"

definition brel :: "control \<Rightarrow> int \<Rightarrow> bheap \<Rightarrow> bheap outcome" where
  "brel ctl buf h0 =
     (let b = buf - sizeof_bhead; h = h0\<lparr>numrel := numrel h0 + 1\<rparr> in
      bindE (assertE (buf \<noteq> 0)) (\<lambda>_.
      if h_bsize h b = 0 then release_direct ctl buf h
      else
        bindE (assertE (h_bsize h b < 0)) (\<lambda>_.
        bindE (assertE (h_prevfree h (b - h_bsize h b) = 0)) (\<lambda>_.
        let h1 = h\<lparr>totalloc := wrap32 (totalloc h + h_bsize h b)\<rparr> in
        bindE (assertE (totalloc h1 \<ge> 0)) (\<lambda>_.
        bindE (join_previous b h1) (\<lambda>(c, h2).
        bindE (join_next c h2) (\<lambda>h3.
        let bn = c + h_bsize h3 c in
        bindE (assertE (h_bsize h3 bn < 0)) (\<lambda>_.
        release_pool ctl c (h3\<lparr>h_prevfree := (h_prevfree h3)(bn := h_bsize h3 c)\<rparr>)))))))))"

section \<open>The other calls\<close>

text \<open>The bytes of a buffer behind its header.\<close>

definition usable :: "int \<Rightarrow> bheap \<Rightarrow> int" where
  "usable buf h =
     (let rsize = wrap32 (- h_bsize h (buf - sizeof_bhead)) in
      if rsize = 0 then wrap32 (h_tsize h (buf - sizeof_bdhead) - sizeof_bdhead)
      else wrap32 (rsize - sizeof_bhead))"

definition bgetz :: "control \<Rightarrow> int \<Rightarrow> bheap \<Rightarrow> (int \<times> bheap) run" where
  "bgetz ctl sz h =
     bindR (bget ctl sz h) (\<lambda>(buf, h1).
     if buf = 0 then Some (Inr (0, h1))
     else let rsize = usable buf h1 in
       bindR (Some (assertE (rsize \<ge> sz))) (\<lambda>_.
       Some (Inr (buf, h1\<lparr>h_data := (\<lambda>a. if buf \<le> a \<and> a < buf + rsize then 0 else h_data h1 a)\<rparr>))))"

definition bgetr :: "control \<Rightarrow> int \<Rightarrow> int \<Rightarrow> bheap \<Rightarrow> (int \<times> bheap) run" where
  "bgetr ctl buf sz h =
     bindR (bget ctl sz h) (\<lambda>(nbuf, h1).
     if nbuf = 0 then Some (Inr (0, h1))
     else if buf = 0 then Some (Inr (nbuf, h1))
     else let osize = usable buf h1; n = (if sz < osize then sz else osize) in
       bindR (Some (assertE (osize > 0))) (\<lambda>_.
       bindR (Some (brel ctl buf (h1\<lparr>h_data := (\<lambda>a. if nbuf \<le> a \<and> a < nbuf + n
           then h_data h1 (buf + (a - nbuf)) else h_data h1 a)\<rparr>))) (\<lambda>h2.
       Some (Inr (nbuf, h2)))))"

partial_function (option) stats_loop :: "bheap \<Rightarrow> bref \<Rightarrow> int \<Rightarrow> int \<Rightarrow> (int \<times> int) run" where
  "stats_loop h b totfree maxfree =
     (case b of
        Freelist \<Rightarrow> Some (Inr (totfree, maxfree))
      | Buf a \<Rightarrow>
          if \<not> h_bsize h a > 0 then Some (Inl Assert_Failed)
          else stats_loop h (flink h b) (wrap32 (totfree + h_bsize h a))
                 (if h_bsize h a > maxfree then h_bsize h a else maxfree))"

declare stats_loop.simps [code]

text \<open>The space allocated, the space free, the largest free buffer, and the calls made.\<close>

definition bstats :: "bheap \<Rightarrow> (int \<times> int \<times> int \<times> int \<times> int) run" where
  "bstats h = bindR (stats_loop h (flink h Freelist) 0 (- 1)) (\<lambda>(totfree, maxfree).
     Some (Inr (totalloc h, totfree, maxfree, numget h, numrel h)))"

definition bstatse :: "bheap \<Rightarrow> int \<times> int \<times> int \<times> int \<times> int \<times> int" where
  "bstatse h = ((if pool_len h < 0 then wrap32 (- exp_incr h) else exp_incr h), numpblk h, numpget h,
     numprel h, numdget h, numdrel h)"

text \<open>Validation of a pool; the exits behind a failed assertion are never reached.\<close>

partial_function (option) bpoolv :: "int \<Rightarrow> bheap \<Rightarrow> i32 run" where
  "bpoolv b h =
     (if h_bsize h b = ESent then Some (Inr 1)
      else if h_bsize h b < 0 then bpoolv (b + - h_bsize h b) h
      else if \<not> h_bsize h b > 0 then Some (Inl Assert_Failed)
      else if flink h (blink h (Buf b)) \<noteq> Buf b \<or> blink h (flink h (Buf b)) \<noteq> Buf b
      then Some (Inl Assert_Failed)
      else bpoolv (b + h_bsize h b) h)"

declare bpoolv.simps [code]

section \<open>The kernel heap (kheap.c)\<close>

definition KHEAP_INITIAL_SIZE :: int where "KHEAP_INITIAL_SIZE = 0x200000"

record kheap_t =
  kh_buffer :: int
  kh_len :: int

text \<open>\<open>buffer\<close> is what \<open>kalloc\<close> returned.\<close>

definition kheap_init :: "int \<Rightarrow> bheap \<Rightarrow> (kheap_t \<times> bheap) outcome" where
  "kheap_init buffer h =
     bindE (assertE (buffer \<noteq> 0)) (\<lambda>_.
     bindE (bpool buffer KHEAP_INITIAL_SIZE h) (\<lambda>h1.
     Inr (\<lparr>kh_buffer = buffer, kh_len = KHEAP_INITIAL_SIZE\<rparr>, h1)))"

text \<open>The unsigned request is passed on as a \<open>long\<close>.  The kernel installs no control functions.\<close>

definition malloc :: "u32 \<Rightarrow> bheap \<Rightarrow> (int \<times> bheap) run" where
  "malloc sz h = (if sz = 0 then Some (Inr (0, h)) else bget no_control (sint sz) h)"

definition free :: "int \<Rightarrow> bheap \<Rightarrow> bheap outcome" where
  "free ptr h = (if ptr = 0 then Inr h else brel no_control ptr h)"

end
