(* ===== verification/Heap.thy ===== *)
theory Heap
  imports Bget
begin

text \<open>
  Correctness of the heap of theory \<open>Bget\<close>.  A pool is a sequence of buffers, free or allocated,
  that tile its memory; no two free buffers are adjacent, every header agrees with the sequence, and
  the free list is a ring through exactly the free buffers.  The calls are shown to implement best
  fit and coalescing on that sequence.
\<close>

section \<open>Sequences of buffers\<close>

text \<open>Whether a buffer is free, and its size with the header.\<close>

type_synonym block = "bool \<times> int"

definition extent :: "block list \<Rightarrow> int" where
  "extent bs = sum_list (map snd bs)"

text \<open>The back link the buffer behind a sequence holds.\<close>

definition back_link :: "int \<Rightarrow> block list \<Rightarrow> int" where
  "back_link pf bs = (if bs = [] then pf else if fst (last bs) then snd (last bs) else 0)"

text \<open>The headers of the buffers from address \<open>a\<close> on, where \<open>pf\<close> is the first back link.\<close>

fun headers :: "bheap \<Rightarrow> int \<Rightarrow> int \<Rightarrow> block list \<Rightarrow> bool" where
  "headers h a pf [] = True"
| "headers h a pf ((f, n) # bs) \<longleftrightarrow> h_prevfree h a = pf \<and> h_bsize h a = (if f then n else - n) \<and>
     16 \<le> n \<and> (f \<longrightarrow> pf = 0) \<and> headers h (a + n) (if f then n else 0) bs"

definition sentinel :: "bheap \<Rightarrow> int \<Rightarrow> int \<Rightarrow> bool" where
  "sentinel h a pf \<longleftrightarrow> h_prevfree h a = pf \<and> h_bsize h a = ESent"

fun free_at :: "int \<Rightarrow> block list \<Rightarrow> int list" where
  "free_at a [] = []"
| "free_at a ((f, n) # bs) = (if f then [a] else []) @ free_at (a + n) bs"

definition allocated :: "block list \<Rightarrow> int" where
  "allocated bs = sum_list (map snd (filter (Not \<circ> fst) bs))"

lemma extent_simps [simp]:
  "extent [] = 0" "extent (b # bs) = snd b + extent bs" "extent (xs @ ys) = extent xs + extent ys"
  by (simp_all add: extent_def)

lemma allocated_simps [simp]:
  "allocated [] = 0" "allocated ((f, n) # bs) = (if f then 0 else n) + allocated bs"
  "allocated (xs @ ys) = allocated xs + allocated ys"
  by (simp_all add: allocated_def)

lemma back_link_simps [simp]:
  "back_link pf [] = pf" "back_link pf (bs @ [(f, n)]) = (if f then n else 0)"
  "back_link pf [(f, n)] = (if f then n else 0)"
  by (simp_all add: back_link_def)

lemma back_link_Cons: "back_link pf ((f, n) # bs) = back_link (if f then n else 0) bs"
  by (simp add: back_link_def)

lemma free_at_append: "free_at a (xs @ ys) = free_at a xs @ free_at (a + extent xs) ys"
  by (induction a xs rule: free_at.induct) (simp_all add: algebra_simps)

lemma headers_append:
  "headers h a pf (xs @ ys) \<longleftrightarrow> headers h a pf xs \<and> headers h (a + extent xs) (back_link pf xs) ys"
  by (induction h a pf xs rule: headers.induct) (auto simp: back_link_Cons algebra_simps)

lemma headers_pos: "headers h a pf bs \<Longrightarrow> 0 \<le> extent bs \<and> 0 \<le> allocated bs \<and> allocated bs \<le> extent bs"
  by (induction h a pf bs rule: headers.induct) auto

lemma headers_sizes: "headers h a pf bs \<Longrightarrow> b \<in> set bs \<Longrightarrow> 16 \<le> snd b"
  by (induction h a pf bs rule: headers.induct) auto

text \<open>Headers depend only on the memory they occupy.\<close>

lemma headers_cong:
  assumes "headers h a pf bs"
    "\<And>x. a \<le> x \<Longrightarrow> x < a + extent bs \<Longrightarrow> h_prevfree h' x = h_prevfree h x \<and> h_bsize h' x = h_bsize h x"
  shows "headers h' a pf bs"
  using assms
proof (induction h a pf bs rule: headers.induct)
  case (2 h a pf f n bs)
  have e: "0 \<le> extent bs" using 2(2) headers_pos by auto
  then have "headers h' (a + n) (if f then n else 0) bs"
    by (intro 2(1)) (use 2(2,3) in auto)
  then show ?case using 2(2,3) e by auto
qed simp

text \<open>A new back link in the first buffer.\<close>

lemma headers_back_link:
  assumes "headers h a pf bs" "h_prevfree h' a = pf'" "bs = [] \<or> \<not> fst (hd bs) \<or> pf' = 0"
    "\<And>x. a \<le> x \<Longrightarrow> x < a + extent bs \<Longrightarrow> h_bsize h' x = h_bsize h x \<and> (x \<noteq> a \<longrightarrow> h_prevfree h' x = h_prevfree h x)"
  shows "headers h' a pf' bs"
proof (cases bs)
  case (Cons b bs')
  obtain f n where b: "b = (f, n)" by (cases b)
  have hd: "headers h (a + n) (if f then n else 0) bs'" "16 \<le> n" "h_bsize h a = (if f then n else - n)"
    using assms(1) by (simp_all add: Cons b)
  have e: "0 \<le> extent bs'" using headers_pos [OF hd(1)] by simp
  have "headers h' (a + n) (if f then n else 0) bs'"
    by (rule headers_cong [OF hd(1)]) (use assms(4) hd(2) in \<open>simp add: Cons b\<close>)
  then show ?thesis using assms(2-4) hd e by (simp add: Cons b)
qed simp

lemma free_at_range:
  "headers h a pf bs \<Longrightarrow> x \<in> set (free_at a bs) \<Longrightarrow> a \<le> x \<and> x < a + extent bs \<and> 0 < h_bsize h x"
proof (induction h a pf bs rule: headers.induct)
  case (2 h a pf f n bs)
  have "0 \<le> extent bs" using 2(2) headers_pos by auto
  then show ?case using 2 by (auto split: if_splits)
qed simp

lemma distinct_free_at: "headers h a pf bs \<Longrightarrow> distinct (free_at a bs)"
proof (induction h a pf bs rule: headers.induct)
  case (2 h a pf f n bs)
  then have "x \<ge> a + n" if "x \<in> set (free_at (a + n) bs)" for x
    using free_at_range [of h "a + n" _ bs x] that by auto
  then show ?case using 2 by fastforce
qed simp

lemma free_at_split:
  assumes "x \<in> set (free_at a bs)"
  obtains xs n ys where "bs = xs @ (True, n) # ys" "x = a + extent xs"
proof -
  have "\<exists>xs n ys. bs = xs @ (True, n) # ys \<and> x = a + extent xs"
    using assms
  proof (induction a bs rule: free_at.induct)
    case (2 a f n bs)
    show ?case
    proof (cases "f \<and> x = a")
      case True
      then show ?thesis by (intro exI [of _ "[]"]) auto
    next
      case False
      then have "x \<in> set (free_at (a + n) bs)" using 2(2) by (auto split: if_splits)
      from 2(1) [OF this] obtain xs m ys where "bs = xs @ (True, m) # ys" "x = a + n + extent xs" by blast
      then show ?thesis by (intro exI [of _ "(f, n) # xs"]) simp
    qed
  qed simp
  then show ?thesis using that by blast
qed

section \<open>The free list\<close>

text \<open>From \<open>x\<close> the links lead through the listed buffers, in order, to \<open>z\<close>.\<close>

fun path :: "bheap \<Rightarrow> bref \<Rightarrow> int list \<Rightarrow> bref \<Rightarrow> bool" where
  "path h x [] z \<longleftrightarrow> flink h x = z \<and> blink h z = x"
| "path h x (y # ys) z \<longleftrightarrow> flink h x = Buf y \<and> blink h (Buf y) = x \<and> path h (Buf y) ys z"

definition end_of :: "bref \<Rightarrow> int list \<Rightarrow> bref" where
  "end_of x ys = (if ys = [] then x else Buf (last ys))"

definition start_of :: "int list \<Rightarrow> bref \<Rightarrow> bref" where
  "start_of ys z = (case ys of [] \<Rightarrow> z | y # _ \<Rightarrow> Buf y)"

lemma end_of_simps [simp]: "end_of x [] = x" "end_of x (y # ys) = end_of (Buf y) ys"
  by (simp_all add: end_of_def)

lemma start_of_simps [simp]: "start_of [] z = z" "start_of (y # ys) z = Buf y"
  by (simp_all add: start_of_def)

lemma end_of_in: "end_of x ys = x \<or> end_of x ys \<in> Buf ` set ys"
  by (simp add: end_of_def)

lemma path_ends: "path h x ys z \<Longrightarrow> flink h x = start_of ys z \<and> blink h z = end_of x ys \<and>
    flink h (end_of x ys) = z \<and> blink h (start_of ys z) = x"
  by (induction h x ys z rule: path.induct) auto

lemma path_append: "path h x (ys @ y # zs) z \<longleftrightarrow> path h x ys (Buf y) \<and> path h (Buf y) zs z"
  by (induction ys arbitrary: x) auto

lemma path_cong:
  assumes "path h x ys z" "\<And>u. u = x \<or> u \<in> Buf ` set ys \<Longrightarrow> flink h' u = flink h u"
    "\<And>u. u = z \<or> u \<in> Buf ` set ys \<Longrightarrow> blink h' u = blink h u"
  shows "path h' x ys z"
  using assms by (induction ys arbitrary: x) auto

lemma unlink_fields [simp]:
  "h_bsize (unlink_buffer b h) = h_bsize h" "h_prevfree (unlink_buffer b h) = h_prevfree h"
  "totalloc (unlink_buffer b h) = totalloc h" "numget (unlink_buffer b h) = numget h"
  by (simp_all add: unlink_buffer_def Let_def)

lemma unlink_links:
  assumes "flink h (Buf y) = q" "blink h (Buf y) = p" "p \<noteq> Buf y"
  shows "flink (unlink_buffer y h) = (flink h)(p := q)" "blink (unlink_buffer y h) = (blink h)(q := p)"
  using assms by (simp_all add: unlink_buffer_def Let_def)

lemma path_bridge:
  assumes "path h x ys (Buf y)" "path h (Buf y) zs z" "distinct (ys @ y # zs)"
    "x \<notin> Buf ` set (ys @ y # zs)" "z \<notin> Buf ` set (ys @ y # zs)"
    "flink h' = (flink h)(end_of x ys := start_of zs z)"
    "blink h' = (blink h)(start_of zs z := end_of x ys)"
  shows "path h' x (ys @ zs) z"
  using assms
proof (induction ys arbitrary: x)
  case Nil
  show ?case
  proof (cases zs)
    case (Cons q r)
    have "path h (Buf q) r z" using Nil Cons by simp
    then have "path h' (Buf q) r z"
      by (rule path_cong) (use Nil Cons in auto)
    then show ?thesis using Nil Cons by auto
  qed (use Nil in auto)
next
  case (Cons w ws)
  have e: "end_of (Buf w) ws \<noteq> x" using end_of_in [of "Buf w" ws] Cons(5) by auto
  have s: "start_of zs z \<noteq> Buf w" using Cons(4,6) by (cases zs) auto
  have "path h' (Buf w) (ws @ zs) z"
    by (rule Cons(1)) (use Cons(2-) in auto)
  then show ?case using Cons(2,7,8) e s by simp
qed

lemma unlink_path:
  assumes "path h Freelist (ys @ y # zs) Freelist" "distinct (ys @ y # zs)"
  shows "path (unlink_buffer y h) Freelist (ys @ zs) Freelist"
    "flink h (blink h (Buf y)) = Buf y" "blink h (flink h (Buf y)) = Buf y"
proof -
  have p: "path h Freelist ys (Buf y)" "path h (Buf y) zs Freelist"
    using assms(1) by (simp_all add: path_append)
  have l: "flink h (Buf y) = start_of zs Freelist" "blink h (Buf y) = end_of Freelist ys"
    using path_ends [OF p(1)] path_ends [OF p(2)] by simp_all
  have ne: "end_of Freelist ys \<noteq> Buf y" using end_of_in [of Freelist ys] assms(2) by auto
  show "path (unlink_buffer y h) Freelist (ys @ zs) Freelist"
    by (rule path_bridge [OF p assms(2)]) (use unlink_links [OF l ne] in auto)
  show "flink h (blink h (Buf y)) = Buf y" "blink h (flink h (Buf y)) = Buf y"
    using l path_ends [OF p(1)] path_ends [OF p(2)] by simp_all
qed

lemma path_extend:
  assumes "path h x ys z" "distinct ys" "x \<notin> Buf ` set ys" "z \<notin> Buf ` set (ys @ [b])" "b \<notin> set ys"
    "x \<noteq> Buf b" "flink h' = (flink h)(Buf b := z, end_of x ys := Buf b)"
    "blink h' = (blink h)(Buf b := end_of x ys, z := Buf b)"
  shows "path h' x (ys @ [b]) z"
  using assms
proof (induction ys arbitrary: x)
  case Nil
  then show ?case by auto
next
  case (Cons w ws)
  have e: "end_of (Buf w) ws \<noteq> x" using end_of_in [of "Buf w" ws] Cons(4) by auto
  have "path h' (Buf w) (ws @ [b]) z"
    by (rule Cons(1)) (use Cons(2-) in auto)
  then show ?case using Cons(2-) e by auto
qed

lemma link_last_path:
  assumes "path h Freelist ys Freelist" "b \<notin> set ys" "distinct ys"
  obtains h' where "link_last b h = Inr h'" "path h' Freelist (ys @ [b]) Freelist"
    "h_bsize h' = h_bsize h" "h_prevfree h' = h_prevfree h" "totalloc h' = totalloc h"
proof -
  note e = path_ends [OF assms(1)]
  have ne: "end_of Freelist ys \<noteq> Buf b" using end_of_in [of Freelist ys] assms(2) by auto
  let ?h1 = "h\<lparr>flink := (flink h)(Buf b := Freelist),
    blink := (blink h)(Buf b := end_of Freelist ys, Freelist := Buf b)\<rparr>"
  let ?h = "?h1\<lparr>flink := (flink ?h1)(end_of Freelist ys := Buf b)\<rparr>"
  have "link_last b h = Inr ?h" using e ne by (simp add: link_last_def Let_def)
  moreover have "path ?h Freelist (ys @ [b]) Freelist"
    by (rule path_extend [OF assms(1)]) (use assms in auto)
  ultimately show ?thesis by (rule that) simp_all
qed

section \<open>Well-formed heaps\<close>

text \<open>
  One pool at \<open>base\<close> with the buffers \<open>bs\<close>.  The kernel adds a single pool; its size is below the
  bound that \<open>bpool\<close> asserts, so sizes do not wrap around.
\<close>

definition heap_ok :: "int \<Rightarrow> block list \<Rightarrow> bheap \<Rightarrow> bool" where
  "heap_ok base bs h \<longleftrightarrow> 0 < base \<and> extent bs < 2 ^ 31 \<and> headers h base 0 bs \<and>
     sentinel h (base + extent bs) (back_link 0 bs) \<and> totalloc h = allocated bs \<and>
     (\<exists>fl. path h Freelist fl Freelist \<and> distinct fl \<and> set fl = set (free_at base bs))"

lemma wrap32_id [simp]: "- (2 ^ 31) \<le> x \<Longrightarrow> x < 2 ^ 31 \<Longrightarrow> wrap32 x = x"
  by (simp add: wrap32_def signed_take_bit_int_eq_self)

lemma u32_of_id [simp]: "0 \<le> x \<Longrightarrow> x < 2 ^ 32 \<Longrightarrow> u32_of x = x"
  by (simp add: u32_of_def)

lemmas size_consts = SizeQ_def SizeQuant_def QLSize_def sizeof_bhead_def sizeof_bdhead_def

text \<open>The buffers from an address to the end of the pool.\<close>

definition pool_tail :: "bheap \<Rightarrow> int \<Rightarrow> int \<Rightarrow> block list \<Rightarrow> bool" where
  "pool_tail h a pf ys \<longleftrightarrow> headers h a pf ys \<and> sentinel h (a + extent ys) (back_link pf ys)"

lemma back_link_middle [simp]:
  "back_link pf (xs @ (f, n) # ys) = back_link (if f then n else 0) ys"
  by (simp add: back_link_def)

lemma pool_tail_append:
  "pool_tail h a pf (xs @ ys) \<longleftrightarrow> headers h a pf xs \<and> pool_tail h (a + extent xs) (back_link pf xs) ys"
proof -
  have "back_link pf (xs @ ys) = back_link (back_link pf xs) ys" by (simp add: back_link_def)
  then show ?thesis by (auto simp: pool_tail_def headers_append algebra_simps)
qed

lemma pool_tail_Cons:
  "pool_tail h a pf ((f, n) # ys) \<longleftrightarrow> h_prevfree h a = pf \<and> h_bsize h a = (if f then n else - n) \<and>
     16 \<le> n \<and> (f \<longrightarrow> pf = 0) \<and> pool_tail h (a + n) (if f then n else 0) ys"
  by (auto simp: pool_tail_def back_link_Cons algebra_simps)

lemma pool_tail_extent: "pool_tail h a pf ys \<Longrightarrow> 0 \<le> extent ys"
  using headers_pos by (auto simp: pool_tail_def)

lemma pool_tail_head: "pool_tail h a pf ys \<Longrightarrow> h_prevfree h a = pf"
  by (cases ys) (auto simp: pool_tail_def sentinel_def)

lemma pool_tail_back_link:
  assumes "pool_tail h a pf ys" "h_prevfree h' a = pf'" "ys = [] \<or> \<not> fst (hd ys) \<or> pf' = 0"
    "\<And>x. a \<le> x \<Longrightarrow> h_bsize h' x = h_bsize h x \<and> (x \<noteq> a \<longrightarrow> h_prevfree h' x = h_prevfree h x)"
  shows "pool_tail h' a pf' ys"
proof -
  have "headers h' a pf' ys"
    by (rule headers_back_link [of h a pf]) (use assms in \<open>auto simp: pool_tail_def\<close>)
  moreover have "sentinel h' (a + extent ys) (back_link pf' ys)"
  proof (cases ys)
    case (Cons y ys')
    obtain f n where y: "y = (f, n)" by (cases y)
    have r: "pool_tail h (a + n) (if f then n else 0) ys'" "16 \<le> n"
      using assms(1) by (simp_all add: Cons y pool_tail_Cons)
    have "0 < extent ys" using pool_tail_extent [OF r(1)] r(2) by (simp add: Cons y)
    then show ?thesis
      using assms(1,4) by (auto simp: Cons y pool_tail_def sentinel_def back_link_Cons)
  qed (use assms in \<open>auto simp: pool_tail_def sentinel_def\<close>)
  ultimately show ?thesis by (simp add: pool_tail_def)
qed

lemma heap_ok_tail:
  "heap_ok base bs h \<longleftrightarrow> 0 < base \<and> extent bs < 2 ^ 31 \<and> pool_tail h base 0 bs \<and>
     totalloc h = allocated bs \<and>
     (\<exists>fl. path h Freelist fl Freelist \<and> distinct fl \<and> set fl = set (free_at base bs))"
  by (simp add: heap_ok_def pool_tail_def)

text \<open>The parts of a heap around one buffer.\<close>

lemma heap_ok_split:
  assumes "heap_ok base (xs @ (f, n) # ys) h" "a = base + extent xs"
  shows "headers h base 0 xs" "h_prevfree h a = back_link 0 xs" "h_bsize h a = (if f then n else - n)"
    "16 \<le> n" "f \<Longrightarrow> back_link 0 xs = 0" "pool_tail h (a + n) (if f then n else 0) ys"
    "0 \<le> extent xs" "0 \<le> extent ys" "extent xs + n + extent ys < 2 ^ 31" "0 < base"
    "totalloc h = allocated xs + (if f then 0 else n) + allocated ys" "0 \<le> allocated xs" "0 \<le> allocated ys"
proof -
  have p: "headers h base 0 xs" "pool_tail h a (back_link 0 xs) ((f, n) # ys)"
    using assms by (simp_all add: heap_ok_tail pool_tail_append)
  then show "headers h base 0 xs" "h_prevfree h a = back_link 0 xs" "h_bsize h a = (if f then n else - n)"
      "16 \<le> n" "f \<Longrightarrow> back_link 0 xs = 0" "pool_tail h (a + n) (if f then n else 0) ys"
    by (simp_all add: pool_tail_Cons)
  then show "0 \<le> extent ys" "0 \<le> allocated ys"
    using pool_tail_extent [of h] headers_pos [of h "a + n" _ ys] by (auto simp: pool_tail_def)
  show "0 \<le> extent xs" "0 \<le> allocated xs" using headers_pos [OF p(1)] by simp_all
  show "extent xs + n + extent ys < 2 ^ 31" "0 < base"
      "totalloc h = allocated xs + (if f then 0 else n) + allocated ys"
    using assms(1) by (simp_all add: heap_ok_def)
qed

lemma take_split:
  assumes ok: "heap_ok base (xs @ (True, n) # ys) h" and a: "a = base + extent xs"
    and sz: "16 \<le> sz" "n - sz > SizeQ + sizeof_bhead"
  obtains h' where "take_buffer sz a h = Inr (a + (n - sz) + sizeof_bhead, h')"
    "heap_ok base (xs @ (True, n - sz) # (False, sz) # ys) h'"
proof -
  note S = heap_ok_split [OF ok a]
  let ?ba = "a + (n - sz)" and ?bn = "a + n"
  let ?h = "h\<lparr>h_bsize := (h_bsize h)(a := n - sz, ?ba := - sz),
    h_prevfree := (h_prevfree h)(?ba := n - sz, ?bn := 0),
    totalloc := totalloc h + sz, numget := numget h + 1\<rparr>"
  have d: "0 < n - sz" "n < 2 ^ 31" "sz < 2 ^ 31" "n - sz < 2 ^ 31" "16 \<le> n - sz"
    using sz S(4,7,8,9) by (simp_all add: size_consts)
  have w: "wrap32 (n - sz) = n - sz" "wrap32 (- sz) = - sz" "u32_of (n - sz) = n - sz"
      "wrap32 (totalloc h + sz) = totalloc h + sz"
  proof -
    show "wrap32 (n - sz) = n - sz" "wrap32 (- sz) = - sz" "u32_of (n - sz) = n - sz"
      using d sz by simp_all
    have "allocated xs \<le> extent xs" using headers_pos [OF S(1)] by simp
    moreover have "allocated ys \<le> extent ys" using headers_pos [of h "a + n" _ ys] S(6) by (auto simp: pool_tail_def)
    ultimately have "0 \<le> totalloc h + sz" "totalloc h + sz < 2 ^ 31" using S d sz by simp_all
    then show "wrap32 (totalloc h + sz) = totalloc h + sz" by simp
  qed
  have "h_prevfree h ?bn = n" using pool_tail_head [OF S(6)] by simp
  then have "take_buffer sz a h = Inr (?ba + sizeof_bhead, ?h)"
    using sz S(3) by (simp add: take_buffer_def Let_def w)
  moreover have "heap_ok base (xs @ (True, n - sz) # (False, sz) # ys) ?h"
  proof -
    have "headers ?h base 0 xs" by (rule headers_cong [OF S(1)]) (use a d S(4) in auto)
    moreover have "pool_tail ?h ?bn 0 ys"
      by (rule pool_tail_back_link [OF S(6)]) (use d sz(1) in auto)
    moreover have "h_prevfree ?h a = 0" using S(2,5) d by simp
    ultimately have "pool_tail ?h base 0 (xs @ (True, n - sz) # (False, sz) # ys)"
      using S(5) d sz(1) a by (simp add: pool_tail_append pool_tail_Cons algebra_simps)
    moreover have "path ?h Freelist fl Freelist" if "path h Freelist fl Freelist" for fl
      by (rule path_cong [OF that]) simp_all
    ultimately show ?thesis
      using ok by (auto simp: heap_ok_tail free_at_append algebra_simps)
  qed
  ultimately show ?thesis by (rule that)
qed

lemma heap_ok_free_list:
  assumes "heap_ok base (xs @ (True, n) # ys) h" "a = base + extent xs"
  obtains us vs where "path h Freelist (us @ a # vs) Freelist" "distinct (us @ a # vs)"
    "set (us @ vs) = set (free_at base (xs @ (False, n) # ys))"
proof -
  obtain fl where fl: "path h Freelist fl Freelist" "distinct fl"
      "set fl = set (free_at base (xs @ (True, n) # ys))"
    using assms(1) by (auto simp: heap_ok_def)
  have "a \<in> set fl" using fl(3) assms(2) by (simp add: free_at_append)
  then obtain us vs where uv: "fl = us @ a # vs" by (auto dest: split_list)
  have "distinct (free_at base (xs @ (True, n) # ys))"
    using assms(1) by (auto simp: heap_ok_def intro: distinct_free_at)
  then have "set (free_at base (xs @ (False, n) # ys)) = set (free_at base (xs @ (True, n) # ys)) - {a}"
    using assms(2) by (auto simp: free_at_append)
  moreover have "set (us @ vs) = set fl - {a}" using fl(2) by (auto simp: uv)
  ultimately have "set (us @ vs) = set (free_at base (xs @ (False, n) # ys))" using fl(3) by simp
  then show ?thesis using that fl(1,2) uv by blast
qed

lemma totalloc_bounds:
  assumes "heap_ok base (xs @ (f, n) # ys) h"
  shows "0 \<le> allocated xs + allocated ys" "allocated xs + n + allocated ys < 2 ^ 31"
proof -
  note S = heap_ok_split [OF assms refl]
  have "allocated xs \<le> extent xs" using headers_pos [OF S(1)] by simp
  moreover have "allocated ys \<le> extent ys"
    using S(6) headers_pos [of h "base + extent xs + n" _ ys] by (auto simp: pool_tail_def)
  ultimately show "0 \<le> allocated xs + allocated ys" "allocated xs + n + allocated ys < 2 ^ 31"
    using S(9,12,13) by simp_all
qed

lemma take_whole:
  assumes ok: "heap_ok base (xs @ (True, n) # ys) h" and a: "a = base + extent xs"
    and sz: "0 \<le> n - sz" "n - sz \<le> SizeQ + sizeof_bhead" "0 < sz"
  obtains h' where "take_buffer sz a h = Inr (a + sizeof_bhead, h')"
    "heap_ok base (xs @ (False, n) # ys) h'"
proof -
  note S = heap_ok_split [OF ok a]
  obtain us vs where fl: "path h Freelist (us @ a # vs) Freelist" "distinct (us @ a # vs)"
      "set (us @ vs) = set (free_at base (xs @ (False, n) # ys))"
    by (rule heap_ok_free_list [OF ok a])
  note U = unlink_path [OF fl(1,2)]
  let ?u = "unlink_buffer a h"
  let ?h = "?u\<lparr>totalloc := totalloc h + n, numget := numget h + 1,
    h_bsize := (h_bsize h)(a := - n), h_prevfree := (h_prevfree h)(a + n := 0)\<rparr>"
  have w: "wrap32 (n - sz) = n - sz" "u32_of (n - sz) = n - sz" "wrap32 (- n) = - n"
      "wrap32 (totalloc h + n) = totalloc h + n"
    using S(4,7,8,9,11) sz totalloc_bounds [OF ok] by simp_all
  have "h_prevfree h (a + n) = n" using pool_tail_head [OF S(6)] by simp
  then have "take_buffer sz a h = Inr (a + sizeof_bhead, ?h)"
    using sz S(3) U(2,3) by (simp add: take_buffer_def Let_def w)
  moreover have "heap_ok base (xs @ (False, n) # ys) ?h"
  proof -
    have "headers ?h base 0 xs" by (rule headers_cong [OF S(1)]) (use a S(4) in auto)
    moreover have "pool_tail ?h (a + n) 0 ys"
      by (rule pool_tail_back_link [OF S(6)]) (use S(4) in auto)
    moreover have "h_prevfree ?h a = back_link 0 xs" using S(2,4) by simp
    ultimately have "pool_tail ?h base 0 (xs @ (False, n) # ys)"
      using S(4) a by (simp add: pool_tail_append pool_tail_Cons)
    moreover have "path ?h Freelist (us @ vs) Freelist"
      by (rule path_cong [OF U(1)]) simp_all
    moreover have "distinct (us @ vs)" using fl(2) by simp
    ultimately show ?thesis
      using ok fl(3) S(11) unfolding heap_ok_tail by auto
  qed
  ultimately show ?thesis by (rule that)
qed

section \<open>The search\<close>

text \<open>The smallest buffer of a set that is big enough, or the anchor when there is none.\<close>

definition best_of :: "bheap \<Rightarrow> int \<Rightarrow> int set \<Rightarrow> bref \<Rightarrow> bool" where
  "best_of h sz S r \<longleftrightarrow> (case r of Freelist \<Rightarrow> \<forall>y \<in> S. h_bsize h y < sz
     | Buf a \<Rightarrow> a \<in> S \<and> sz \<le> h_bsize h a \<and> (\<forall>y \<in> S. sz \<le> h_bsize h y \<longrightarrow> h_bsize h a \<le> h_bsize h y))"

lemma best_of_insert:
  assumes "best_of h sz S best"
  shows "best_of h sz (insert y S) (if h_bsize h y \<ge> sz \<and>
    (case best of Freelist \<Rightarrow> True | Buf c \<Rightarrow> h_bsize h y < h_bsize h c) then Buf y else best)"
proof (cases best)
  case Freelist
  then show ?thesis using assms by (auto simp: best_of_def)
next
  case (Buf c)
  then show ?thesis using assms by (cases "h_bsize h y < h_bsize h c") (auto simp: best_of_def)
qed

lemma best_scan_path:
  assumes "path h x fl Freelist" "best_of h sz S best"
  shows "\<exists>r. best_scan h sz (start_of fl Freelist) best = Some r \<and> best_of h sz (S \<union> set fl) r"
  using assms
proof (induction fl arbitrary: x best S)
  case Nil
  then show ?case by (subst best_scan.simps) simp
next
  case (Cons y fl)
  have p: "path h (Buf y) fl Freelist" using Cons(2) by simp
  have step: "best_scan h sz (start_of (y # fl) Freelist) best =
      best_scan h sz (start_of fl Freelist) (if h_bsize h y \<ge> sz \<and>
        (case best of Freelist \<Rightarrow> True | Buf c \<Rightarrow> h_bsize h y < h_bsize h c) then Buf y else best)"
    using path_ends [OF p] by (subst best_scan.simps) simp
  show ?case
    using Cons(1) [OF p best_of_insert [OF Cons(3), of y]]
    by (simp only: step list.set Un_insert_right Un_insert_left)
qed

lemma search_loop_run:
  assumes "path h Freelist fl Freelist" "compfcn ctl = None"
  shows "\<exists>r. best_of h sz (set fl) r \<and> search_loop ctl sz k h = (case r of
    Freelist \<Rightarrow> Some (Inr (None, h))
  | Buf a \<Rightarrow> Some (bindE (take_buffer sz a h) (\<lambda>(p, h'). Inr (Some p, h'))))"
proof -
  have "best_of h sz {} Freelist" by (simp add: best_of_def)
  from best_scan_path [OF assms(1) this] path_ends [OF assms(1)]
  obtain r where r: "best_scan h sz (flink h Freelist) Freelist = Some r" "best_of h sz (set fl) r"
    by auto
  have "fit_scan h sz r = Some r"
    using r(2) by (subst fit_scan.simps) (auto simp: best_of_def split: bref.splits)
  then show ?thesis
    using r assms(2) by (intro exI [of _ r], subst search_loop.simps) (auto split: bref.splits)
qed

section \<open>Release\<close>

text \<open>What releasing does to the sequence: the buffer joins its free neighbours.\<close>

definition release_blocks :: "block list \<Rightarrow> int \<Rightarrow> block list \<Rightarrow> block list" where
  "release_blocks us n vs =
     (let (us', k) = (if us \<noteq> [] \<and> fst (last us) then (butlast us, snd (last us) + n) else (us, n));
          (vs', k') = (case vs of (True, j) # ws \<Rightarrow> (ws, k + j) | _ \<Rightarrow> (vs, k)) in
      us' @ (True, k') # vs')"

text \<open>A heap whose buffer of size \<open>k\<close> behind \<open>us\<close> is free, while the back link behind it is still \<open>q\<close>.\<close>

definition joined :: "int \<Rightarrow> block list \<Rightarrow> int \<Rightarrow> int \<Rightarrow> block list \<Rightarrow> bheap \<Rightarrow> bool" where
  "joined base us k q vs h \<longleftrightarrow> (let c = base + extent us in
     0 < base \<and> extent us + k + extent vs < 2 ^ 31 \<and> 0 \<le> extent us \<and> headers h base 0 us \<and>
     back_link 0 us = 0 \<and> h_prevfree h c = 0 \<and> h_bsize h c = k \<and> 16 \<le> k \<and>
     totalloc h = allocated us + allocated vs \<and> pool_tail h (c + k) q vs \<and>
     (\<exists>fl. path h Freelist fl Freelist \<and> distinct fl \<and>
        set fl = insert c (set (free_at base us) \<union> set (free_at (c + k) vs))))"

lemma join_previous_run:
  assumes ok: "heap_ok base (us @ (False, n) # vs) h" and a: "a = base + extent us"
    and h1: "h1 = h\<lparr>numrel := r, totalloc := totalloc h - n\<rparr>"
  obtains h2 where "join_previous a h1 = Inr (if us \<noteq> [] \<and> fst (last us)
      then base + extent (butlast us) else a, h2)"
    "joined base (if us \<noteq> [] \<and> fst (last us) then butlast us else us)
       (if us \<noteq> [] \<and> fst (last us) then snd (last us) + n else n) 0 vs h2"
proof -
  note S = heap_ok_split [OF ok a]
  obtain fl where fl: "path h Freelist fl Freelist" "distinct fl"
      "set fl = set (free_at base us) \<union> set (free_at (a + n) vs)"
    using ok a by (auto simp: heap_ok_def free_at_append)
  have fl1: "path h1 Freelist fl Freelist" by (rule path_cong [OF fl(1)]) (simp_all add: h1)
  show ?thesis
  proof (cases "us \<noteq> [] \<and> fst (last us)")
    case True
    then obtain ws m where us: "us = ws @ [(True, m)]" by (metis append_butlast_last_id prod.collapse)
    let ?c = "base + extent ws"
    have W: "headers h base 0 ws" "h_prevfree h ?c = back_link 0 ws" "back_link 0 ws = 0"
        "h_bsize h ?c = m" "16 \<le> m" "0 \<le> extent ws"
      using S(1) headers_pos [of h base 0 ws] by (simp_all add: us headers_append)
    have pf: "h_prevfree h a = m" using S(2) by (simp add: us)
    have c: "a - m = ?c" using a by (simp add: us)
    have w: "wrap32 (m + n) = m + n" using S(4,7-9) W by (simp add: us)
    let ?h2 = "h1\<lparr>h_bsize := (h_bsize h)(?c := m + n)\<rparr>"
    have "join_previous a h1 = Inr (?c, ?h2)"
      using W S(3) pf c w by (simp add: join_previous_def h1 Let_def)
    moreover have "joined base ws (m + n) 0 vs ?h2"
    proof -
      have "headers ?h2 base 0 ws" by (rule headers_cong [OF W(1)]) (simp add: h1)
      moreover have "pool_tail ?h2 (a + n) 0 vs"
        by (rule pool_tail_back_link [OF S(6)])
          (use W(5) S(4) pool_tail_head [OF S(6)] in \<open>auto simp: h1 a us\<close>)
      moreover have "path ?h2 Freelist fl Freelist" by (rule path_cong [OF fl1]) simp_all
      ultimately show ?thesis
        using S W fl a by (auto simp: joined_def Let_def h1 us free_at_append algebra_simps intro!: exI [of _ fl])
    qed
    ultimately show ?thesis using that True by (simp add: us)
  next
    case False
    then have pf: "back_link 0 us = 0" by (auto simp: back_link_def)
    have "a \<notin> set fl"
    proof
      assume "a \<in> set fl"
      moreover have "x < a" if "x \<in> set (free_at base us)" for x
        using free_at_range [OF S(1) that] a by simp
      moreover have "x > a" if "x \<in> set (free_at (a + n) vs)" for x
        using free_at_range [of h "a + n" 0 vs x] that S(4,6) by (auto simp: pool_tail_def)
      ultimately show False using fl(3) by auto
    qed
    then obtain h2 where h2: "link_last a h1 = Inr h2" "path h2 Freelist (fl @ [a]) Freelist"
        "h_bsize h2 = h_bsize h1" "h_prevfree h2 = h_prevfree h1" "totalloc h2 = totalloc h1"
      by (rule link_last_path [OF fl1 _ fl(2)])
    let ?h2 = "h2\<lparr>h_bsize := (h_bsize h)(a := n)\<rparr>"
    have "wrap32 n = n" using S(4,7-9) by simp
    then have "join_previous a h1 = Inr (a, ?h2)"
      using S(2,3) pf h2 by (simp add: join_previous_def h1 Let_def)
    moreover have "joined base us n 0 vs ?h2"
    proof -
      have "headers ?h2 base 0 us" by (rule headers_cong [OF S(1)]) (simp add: h1 h2 a)
      moreover have "pool_tail ?h2 (a + n) 0 vs"
        by (rule pool_tail_back_link [OF S(6)])
          (use S(4) pool_tail_head [OF S(6)] in \<open>auto simp: h1 h2\<close>)
      moreover have "path ?h2 Freelist (fl @ [a]) Freelist" by (rule path_cong [OF h2(2)]) simp_all
      moreover have "distinct (fl @ [a])" using fl(2) \<open>a \<notin> set fl\<close> by simp
      moreover have "set (fl @ [a]) = insert a (set (free_at base us) \<union> set (free_at (a + n) vs))"
        using fl(3) by auto
      ultimately show ?thesis
        using S pf a h2 unfolding joined_def Let_def by (auto simp: h1 simp del: set_append)
    qed
    ultimately show ?thesis using that False by simp
  qed
qed

lemma close_joined:
  assumes j: "joined base us k q vs h" and c: "c = base + extent us" and vs: "vs = [] \<or> \<not> fst (hd vs)"
  shows "h_bsize h (c + k) < 0"
    "heap_ok base (us @ (True, k) # vs) (h\<lparr>h_prevfree := (h_prevfree h)(c + k := k)\<rparr>)"
proof -
  let ?h = "h\<lparr>h_prevfree := (h_prevfree h)(c + k := k)\<rparr>"
  note J = j [unfolded joined_def Let_def, folded c]
  obtain fl where fl: "path h Freelist fl Freelist" "distinct fl"
      "set fl = insert c (set (free_at base us) \<union> set (free_at (c + k) vs))"
    using J by blast
  show "h_bsize h (c + k) < 0"
    using J vs by (cases vs) (auto simp: pool_tail_def sentinel_def ESent_def split: prod.splits)
  have "headers ?h base 0 us"
    by (rule headers_cong [of h]) (use J c in auto)
  moreover have "pool_tail ?h (c + k) k vs"
    by (rule pool_tail_back_link [of h _ q]) (use J vs in auto)
  moreover have "h_prevfree ?h c = 0" using J by simp
  ultimately have "pool_tail ?h base 0 (us @ (True, k) # vs)"
    using J c by (simp add: pool_tail_append pool_tail_Cons)
  moreover have "path ?h Freelist fl Freelist" by (rule path_cong [OF fl(1)]) simp_all
  moreover have "set fl = set (free_at base (us @ (True, k) # vs))"
    using fl(3) c by (auto simp: free_at_append)
  ultimately show "heap_ok base (us @ (True, k) # vs) ?h"
    using J fl(2) unfolding heap_ok_tail by auto
qed

lemma join_next_free:
  assumes j: "joined base us k q ((True, n) # vs) h" and c: "c = base + extent us"
  obtains h' where "join_next c h = Inr h'" "joined base us (k + n) n vs h'"
    "vs = [] \<or> \<not> fst (hd vs)"
proof -
  note J = j [unfolded joined_def Let_def, folded c]
  let ?bn = "c + k"
  have tl: "h_bsize h ?bn = n" "16 \<le> n" "pool_tail h (?bn + n) n vs"
    using J by (simp_all add: pool_tail_Cons)
  have nf: "vs = [] \<or> \<not> fst (hd vs)"
    using tl by (cases vs; cases "hd vs") (auto simp: pool_tail_Cons)
  obtain fl where fl: "path h Freelist fl Freelist" "distinct fl"
      "set fl = insert c (set (free_at base us) \<union> set (free_at ?bn ((True, n) # vs)))"
    using J by blast
  have "?bn \<in> set fl" using fl(3) by simp
  then obtain xs ys where xy: "fl = xs @ ?bn # ys" by (auto dest: split_list)
  note U = unlink_path [OF fl(1,2) [unfolded xy]]
  have e: "0 \<le> extent vs" using pool_tail_extent [OF tl(3)] .
  have w: "wrap32 (k + n) = k + n" using J e tl(2) by simp
  let ?h = "(unlink_buffer ?bn h)\<lparr>h_bsize := (h_bsize h)(c := k + n)\<rparr>"
  have "join_next c h = Inr ?h"
    using J tl U(2,3) w pool_tail_head [OF tl(3)] by (simp add: join_next_def Let_def)
  moreover have "joined base us (k + n) n vs ?h"
  proof -
    have "headers ?h base 0 us" by (rule headers_cong [of h]) (use J c in auto)
    moreover have "pool_tail ?h (?bn + n) n vs"
      by (rule pool_tail_back_link [OF tl(3)])
        (use J tl(2) nf pool_tail_head [OF tl(3)] in auto)
    moreover have "path ?h Freelist (xs @ ys) Freelist" by (rule path_cong [OF U(1)]) simp_all
    moreover have "distinct (xs @ ys)" using fl(2) by (simp add: xy)
    moreover have "set (xs @ ys) = insert c (set (free_at base us) \<union> set (free_at (c + (k + n)) vs))"
    proof -
      have "set (xs @ ys) = set fl - {?bn}" using fl(2) by (auto simp: xy)
      moreover have "?bn \<notin> set (free_at base us)"
        using free_at_range [of h base 0 us ?bn] J c by auto
      moreover have "?bn \<notin> set (free_at (c + (k + n)) vs)"
        using free_at_range [of h "?bn + n" n vs ?bn] tl by (auto simp: pool_tail_def algebra_simps)
      moreover have "?bn \<noteq> c" using J by simp
      ultimately show ?thesis using fl(3) by (auto simp: algebra_simps)
    qed
    ultimately show ?thesis
      using J tl(2) e unfolding joined_def Let_def
      by (auto simp: c [symmetric] algebra_simps simp del: set_append)
  qed
  ultimately show ?thesis using nf by (rule that)
qed

lemma join_next_used:
  assumes j: "joined base us k q vs h" and vs: "vs = [] \<or> \<not> fst (hd vs)"
  shows "join_next (base + extent us) h = Inr h"
  using close_joined(1) [OF j refl vs] j by (simp add: join_next_def joined_def Let_def)

lemma brel_run:
  assumes ok: "heap_ok base (us @ (False, n) # vs) h" and ctl: "relfcn ctl = None"
  shows "\<exists>h'. brel ctl (base + extent us + sizeof_bhead) h = Inr h' \<and>
    heap_ok base (release_blocks us n vs) h'"
proof -
  let ?a = "base + extent us"
  let ?P = "us \<noteq> [] \<and> fst (last us)"
  let ?us = "if ?P then butlast us else us" and ?k = "if ?P then snd (last us) + n else n"
  note S = heap_ok_split [OF ok refl]
  have w: "wrap32 (totalloc h + - n) = totalloc h - n" "0 \<le> totalloc h - n"
    using S(4,11) totalloc_bounds [OF ok] by simp_all
  obtain h2 where h2: "join_previous ?a (h\<lparr>numrel := numrel h + 1, totalloc := totalloc h - n\<rparr>) =
      Inr (if ?P then base + extent (butlast us) else ?a, h2)" "joined base ?us ?k 0 vs h2"
    by (rule join_previous_run [OF ok refl refl])
  have c: "(if ?P then base + extent (butlast us) else ?a) = base + extent ?us" by simp
  have start: "brel ctl (?a + sizeof_bhead) h =
      bindE (join_next (base + extent ?us) h2) (\<lambda>h3.
        let bn = base + extent ?us + h_bsize h3 (base + extent ?us) in
        bindE (assertE (h_bsize h3 bn < 0)) (\<lambda>_.
        Inr (h3\<lparr>h_prevfree := (h_prevfree h3)(bn := h_bsize h3 (base + extent ?us))\<rparr>)))"
    using S(3,4,7,10) w h2(1) pool_tail_head [OF S(6)] ctl
    by (simp add: brel_def Let_def release_pool_def sizeof_bhead_def c)
  show ?thesis
  proof (cases "vs \<noteq> [] \<and> fst (hd vs)")
    case True
    then obtain j ws where vs: "vs = (True, j) # ws" by (cases vs) auto
    obtain h3 where h3: "join_next (base + extent ?us) h2 = Inr h3" "joined base ?us (?k + j) j ws h3"
        "ws = [] \<or> \<not> fst (hd ws)"
      by (rule join_next_free [OF h2(2) [unfolded vs] refl])
    have "h_bsize h3 (base + extent ?us) = ?k + j" using h3(2) by (simp add: joined_def Let_def)
    moreover have "release_blocks us n vs = ?us @ (True, ?k + j) # ws"
      by (simp add: release_blocks_def vs)
    ultimately show ?thesis
      using start h3(1) close_joined [OF h3(2) refl h3(3)] by simp
  next
    case False
    then have vs: "vs = [] \<or> \<not> fst (hd vs)" by simp
    have "h_bsize h2 (base + extent ?us) = ?k" using h2(2) by (simp add: joined_def Let_def)
    moreover have "release_blocks us n vs = ?us @ (True, ?k) # vs"
      using vs by (auto simp: release_blocks_def split: list.splits prod.splits bool.splits)
    ultimately show ?thesis
      using start join_next_used [OF h2(2) vs] close_joined [OF h2(2) refl vs] by simp
  qed
qed

section \<open>Requests\<close>

lemma and_not_bounds: "0 \<le> m \<Longrightarrow> x - m \<le> x AND NOT m \<and> x AND NOT m \<le> x" for x m :: int
proof -
  assume "0 \<le> m"
  have "(x AND m) AND (x AND NOT m) = 0" "(x AND m) OR (x AND NOT m) = x"
    by (auto intro!: bit_eqI simp: bit_and_iff bit_or_iff bit_not_iff)
  then have "(x AND m) + (x AND NOT m) = x" using plus_and_or [of "x AND m" "x AND NOT m"] by simp
  moreover have "0 \<le> x AND m" "x AND m \<le> m"
    using \<open>0 \<le> m\<close> by (simp_all add: AND_upper2)
  ultimately show ?thesis by linarith
qed

lemma round_size_bounds:
  assumes "0 < req" "req \<le> 0x7FFFEFF0"
  shows "req + sizeof_bhead \<le> round_size req" "16 \<le> round_size req" "round_size req < 2 ^ 31"
proof -
  let ?s = "(if req < SizeQ then SizeQ else req)"
  have s: "u32_of req = req" "wrap32 (?s + (SizeQuant - 1)) = ?s + (SizeQuant - 1)"
      "0 \<le> ?s + (SizeQuant - 1)" "?s + (SizeQuant - 1) < 2 ^ 31 - 8" "req \<le> ?s" "16 \<le> ?s"
    using assms by (simp_all add: size_consts)
  have b: "?s \<le> (?s + (SizeQuant - 1)) AND NOT (SizeQuant - 1) \<and>
      (?s + (SizeQuant - 1)) AND NOT (SizeQuant - 1) \<le> ?s + (SizeQuant - 1)"
    using and_not_bounds [of "SizeQuant - 1" "?s + (SizeQuant - 1)"] by (simp add: SizeQuant_def)
  have "round_size req = ((?s + (SizeQuant - 1)) AND NOT (SizeQuant - 1)) + sizeof_bhead"
    using b s by (simp only: round_size_def Let_def) (simp add: sizeof_bhead_def)
  then show "req + sizeof_bhead \<le> round_size req" "16 \<le> round_size req" "round_size req < 2 ^ 31"
    using b s(4-6) by (simp_all add: sizeof_bhead_def)
qed

lemma free_sizes:
  "headers h a pf bs \<Longrightarrow> h_bsize h ` set (free_at a bs) = {m. (True, m) \<in> set bs}"
  by (induction h a pf bs rule: headers.induct) auto

text \<open>
  The abstract allocation of \<open>sz\<close> bytes: some smallest free buffer that is big enough is split, the
  rear part being allocated, or is given away whole when the rest would be too small.
\<close>

definition allocates :: "block list \<Rightarrow> int \<Rightarrow> block list \<Rightarrow> int \<Rightarrow> block list \<Rightarrow> bool" where
  "allocates bs sz us n vs \<longleftrightarrow> (\<exists>xs m. bs = xs @ (True, m) # vs \<and> sz \<le> m \<and>
     (\<forall>k. (True, k) \<in> set bs \<longrightarrow> sz \<le> k \<longrightarrow> m \<le> k) \<and>
     (if m - sz > SizeQ + sizeof_bhead then us = xs @ [(True, m - sz)] \<and> n = sz else us = xs \<and> n = m))"

definition no_fit :: "block list \<Rightarrow> int \<Rightarrow> bool" where
  "no_fit bs sz \<longleftrightarrow> (\<forall>k. (True, k) \<in> set bs \<longrightarrow> k < sz)"

lemma bget_run:
  assumes ok: "heap_ok base bs h" and req: "0 < req" "req \<le> 0x7FFFEFF0"
    and ctl: "compfcn ctl = None" "acqfcn ctl = None"
  shows "(\<exists>us n vs h'. allocates bs (round_size req) us n vs \<and>
      bget ctl req h = Some (Inr (base + extent us + sizeof_bhead, h')) \<and>
      heap_ok base (us @ (False, n) # vs) h' \<and> req + sizeof_bhead \<le> n) \<or>
    no_fit bs (round_size req) \<and> bget ctl req h = Some (Inr (0, h))"
proof -
  let ?sz = "round_size req"
  note R = round_size_bounds [OF req]
  obtain fl where fl: "path h Freelist fl Freelist" "set fl = set (free_at base bs)"
    using ok by (auto simp: heap_ok_def)
  have hd: "headers h base 0 bs" using ok by (simp add: heap_ok_def)
  obtain r where r: "best_of h ?sz (set fl) r" "search_loop ctl ?sz 0 h = (case r of
      Freelist \<Rightarrow> Some (Inr (None, h))
    | Buf a \<Rightarrow> Some (bindE (take_buffer ?sz a h) (\<lambda>(p, h'). Inr (Some p, h'))))"
    using search_loop_run [OF fl(1) ctl(1)] by blast
  show ?thesis
  proof (cases r)
    case Freelist
    then have "no_fit bs ?sz"
      using r(1) free_sizes [OF hd] fl(2) by (force simp: best_of_def no_fit_def)
    moreover have "bget ctl req h = Some (Inr (0, h))"
      using r(2) Freelist req ctl(2) by (subst bget.simps) simp
    ultimately show ?thesis by blast
  next
    case (Buf a)
    then have a: "a \<in> set (free_at base bs)" "?sz \<le> h_bsize h a"
        "\<And>y. y \<in> set (free_at base bs) \<Longrightarrow> ?sz \<le> h_bsize h y \<Longrightarrow> h_bsize h a \<le> h_bsize h y"
      using r(1) fl(2) by (auto simp: best_of_def)
    from a(1) obtain xs m ys where bs: "bs = xs @ (True, m) # ys" "a = base + extent xs"
      by (rule free_at_split)
    note S = heap_ok_split [OF ok [unfolded bs(1)] bs(2)]
    have m: "h_bsize h a = m" using S(3) by simp
    have best: "m \<le> k" if k: "(True, k) \<in> set bs" "?sz \<le> k" for k
    proof -
      have "k \<in> h_bsize h ` set (free_at base bs)" using k(1) free_sizes [OF hd] by simp
      then show ?thesis using a(3) k(2) m by auto
    qed
    have get: "bget ctl req h = Some (Inr (p, h'))" if "take_buffer ?sz a h = Inr (p, h')" for p h'
      using that r(2) Buf req by (subst bget.simps) simp
    show ?thesis
    proof (cases "m - ?sz > SizeQ + sizeof_bhead")
      case True
      obtain h' where h': "take_buffer ?sz a h = Inr (a + (m - ?sz) + sizeof_bhead, h')"
          "heap_ok base (xs @ (True, m - ?sz) # (False, ?sz) # ys) h'"
        by (rule take_split [OF ok [unfolded bs(1)] bs(2) R(2) True])
      have "allocates bs ?sz (xs @ [(True, m - ?sz)]) ?sz ys"
        using bs(1) a(2) m best True by (auto simp: allocates_def)
      then show ?thesis
        using h' get R(1) bs(2)
        by (intro disjI1 exI [of _ "xs @ [(True, m - ?sz)]"] exI [of _ ?sz] exI [of _ ys] exI [of _ h'])
          (simp add: algebra_simps)
    next
      case False
      obtain h' where h': "take_buffer ?sz a h = Inr (a + sizeof_bhead, h')"
          "heap_ok base (xs @ (False, m) # ys) h'"
        by (rule take_whole [OF ok [unfolded bs(1)] bs(2), of ?sz]) (use False a(2) m R in auto)
      have "allocates bs ?sz xs m ys" using bs(1) a(2) m best False by (auto simp: allocates_def)
      then show ?thesis
        using h' get R(1) a(2) m bs(2)
        by (intro disjI1 exI [of _ xs] exI [of _ m] exI [of _ ys] exI [of _ h']) simp
    qed
  qed
qed

text \<open>Two free buffers are never adjacent, so releasing what was allocated undoes it.\<close>

lemma release_allocated:
  assumes "heap_ok base bs h" "allocates bs sz us n vs"
  shows "release_blocks us n vs = bs"
proof -
  obtain xs m where bs: "bs = xs @ (True, m) # vs"
      "if m - sz > SizeQ + sizeof_bhead then us = xs @ [(True, m - sz)] \<and> n = sz else us = xs \<and> n = m"
    using assms(2) by (auto simp: allocates_def)
  note S = heap_ok_split [OF assms(1) [unfolded bs(1)] refl]
  have xs: "xs = [] \<or> \<not> fst (last xs)" using S(4,5) S(1) headers_sizes [OF S(1), of "last xs"]
    by (auto simp: back_link_def split: if_splits)
  have vs: "vs = [] \<or> \<not> fst (hd vs)"
    using S(4,6) by (cases vs; cases "hd vs") (auto simp: pool_tail_Cons)
  show ?thesis
    using bs xs vs by (cases "m - sz > SizeQ + sizeof_bhead")
      (auto simp: release_blocks_def split: list.splits prod.splits bool.splits)
qed

section \<open>Users of the heap\<close>

fun used_at :: "int \<Rightarrow> block list \<Rightarrow> int list" where
  "used_at a [] = []"
| "used_at a ((f, n) # bs) = (if f then [] else [a]) @ used_at (a + n) bs"

lemma used_at_append: "used_at a (xs @ ys) = used_at a xs @ used_at (a + extent xs) ys"
  by (induction a xs rule: used_at.induct) (simp_all add: algebra_simps)

lemma used_at_range:
  "headers h a pf bs \<Longrightarrow> x \<in> set (used_at a bs) \<Longrightarrow>
     a \<le> x \<and> h_bsize h x \<le> - 16 \<and> x - h_bsize h x \<le> a + extent bs"
proof (induction h a pf bs rule: headers.induct)
  case (2 h a pf f n bs)
  have "0 \<le> extent bs" using 2(2) headers_pos by auto
  then show ?case using 2 by (auto split: if_splits)
qed simp

lemma distinct_used_at: "headers h a pf bs \<Longrightarrow> distinct (used_at a bs)"
proof (induction h a pf bs rule: headers.induct)
  case (2 h a pf f n bs)
  then have "x \<ge> a + n" if "x \<in> set (used_at (a + n) bs)" for x
    using used_at_range [of h "a + n" _ bs x] that by auto
  then show ?case using 2 by fastforce
qed simp

lemma used_at_disjoint:
  "headers h a pf bs \<Longrightarrow> x \<in> set (used_at a bs) \<Longrightarrow> y \<in> set (used_at a bs) \<Longrightarrow> x < y \<Longrightarrow>
     x - h_bsize h x \<le> y"
proof (induction h a pf bs rule: headers.induct)
  case (2 h a pf f n bs)
  have r: "z \<ge> a + n" if "z \<in> set (used_at (a + n) bs)" for z
    using used_at_range [of h "a + n" _ bs z] that 2(2) by auto
  show ?case
  proof (cases "x \<in> set (used_at (a + n) bs)")
    case True
    then have "y \<in> set (used_at (a + n) bs)" using 2(2,4,5) r by (fastforce split: if_splits)
    then show ?thesis using 2(1,2,5) True by simp
  next
    case False
    then have x: "x = a" "\<not> f" using 2(3) by (auto split: if_splits)
    then have "y \<in> set (used_at (a + n) bs)" using 2(4,5) by auto
    then show ?thesis using 2(2) x r by simp
  qed
qed simp

lemma used_at_split:
  assumes "x \<in> set (used_at a bs)"
  obtains us n vs where "bs = us @ (False, n) # vs" "x = a + extent us"
proof -
  have "\<exists>us n vs. bs = us @ (False, n) # vs \<and> x = a + extent us"
    using assms
  proof (induction a bs rule: used_at.induct)
    case (2 a f n bs)
    show ?case
    proof (cases "\<not> f \<and> x = a")
      case True
      then show ?thesis by (intro exI [of _ "[]"]) auto
    next
      case False
      then have "x \<in> set (used_at (a + n) bs)" using 2(2) by (auto split: if_splits)
      from 2(1) [OF this] obtain us m vs where "bs = us @ (False, m) # vs" "x = a + n + extent us" by blast
      then show ?thesis by (intro exI [of _ "(f, n) # us"]) simp
    qed
  qed simp
  then show ?thesis using that by blast
qed

lemma used_at_release:
  "set (used_at a (release_blocks us n vs)) = set (used_at a us) \<union> set (used_at (a + extent us + n) vs)"
proof (cases "us \<noteq> [] \<and> fst (last us)")
  case True
  then obtain ws m where us: "us = ws @ [(True, m)]" by (metis append_butlast_last_id prod.collapse)
  show ?thesis
    by (auto simp: us release_blocks_def used_at_append algebra_simps split: list.splits prod.splits bool.splits)
next
  case False
  then have "release_blocks us n vs = (case vs of (True, j) # ws \<Rightarrow> us @ (True, n + j) # ws | _ \<Rightarrow> us @ (True, n) # vs)"
    by (auto simp: release_blocks_def split: list.splits prod.splits bool.splits)
  then show ?thesis
    by (auto simp: used_at_append algebra_simps split: list.splits prod.splits bool.splits)
qed

lemma used_at_allocates:
  assumes "allocates bs sz us n vs"
  obtains xs ys where "used_at a (us @ (False, n) # vs) = xs @ (a + extent us) # ys" "used_at a bs = xs @ ys"
proof -
  have "used_at a bs = used_at a us @ used_at (a + extent us + n) vs"
    using assms by (auto simp: allocates_def used_at_append algebra_simps split: if_splits)
  then show ?thesis
    by (intro that [of "used_at a us" "used_at (a + extent us + n) vs"]) (simp_all add: used_at_append)
qed

lemma bpoolv_run:
  assumes "pool_tail h a pf ys" "extent ys < 2 ^ 31"
    "\<And>y. y \<in> set (free_at a ys) \<Longrightarrow> flink h (blink h (Buf y)) = Buf y \<and> blink h (flink h (Buf y)) = Buf y"
  shows "bpoolv a h = Some (Inr 1)"
  using assms
proof (induction ys arbitrary: a pf)
  case Nil
  then show ?case by (subst bpoolv.simps) (simp add: pool_tail_def sentinel_def)
next
  case (Cons y ys)
  obtain f n where y: "y = (f, n)" by (cases y)
  have r: "pool_tail h (a + n) (if f then n else 0) ys" "16 \<le> n" "h_bsize h a = (if f then n else - n)"
    using Cons(2) by (simp_all add: y pool_tail_Cons)
  have "0 \<le> extent ys" using pool_tail_extent [OF r(1)] .
  then have "bpoolv (a + n) h = Some (Inr 1)" "n < 2 ^ 31"
    using Cons(1) [OF r(1)] Cons(3,4) r(2) by (auto simp: y)
  then show ?case
    using r Cons(4) [of a] by (subst bpoolv.simps) (auto simp: y ESent_def)
qed

lemma heap_ok_valid: "heap_ok base bs h \<Longrightarrow> bpoolv base h = Some (Inr 1)"
proof -
  assume ok: "heap_ok base bs h"
  then obtain fl where fl: "path h Freelist fl Freelist" "distinct fl" "set fl = set (free_at base bs)"
    by (auto simp: heap_ok_def)
  have "flink h (blink h (Buf y)) = Buf y \<and> blink h (flink h (Buf y)) = Buf y"
    if "y \<in> set (free_at base bs)" for y
  proof -
    from that fl(3) obtain us vs where "fl = us @ y # vs" by (metis split_list)
    then show ?thesis using unlink_path(2,3) [of h us y vs] fl by simp
  qed
  then show ?thesis using bpoolv_run [of h base 0 bs] ok by (simp add: heap_ok_tail)
qed

end
