(* ===== verification/Heap_Calls.thy ===== *)
theory Heap_Calls
  imports Heap
begin

text \<open>
  What users of \<open>malloc\<close> and \<open>free\<close> rely on, as the locale \<open>allocator\<close>: a request never gets stuck,
  a buffer can be released, and live buffers are disjoint.  The locale is interpreted on the kernel
  heap, and holds the behaviour of whole sequences of calls.
\<close>

section \<open>Sequences of calls\<close>

text \<open>A request, and the release of one of the buffers held.\<close>

datatype heap_call = Get u32 | Rel nat

fun run_calls :: "(u32 \<Rightarrow> 's \<Rightarrow> (int \<times> 's) run) \<Rightarrow> (int \<Rightarrow> 's \<Rightarrow> 's outcome) \<Rightarrow> heap_call list \<Rightarrow>
    int list \<times> 's \<Rightarrow> (int list \<times> 's) run" where
  "run_calls get rel [] st = Some (Inr st)"
| "run_calls get rel (Get sz # cs) (ps, s) =
     bindR (get sz s) (\<lambda>(p, s'). run_calls get rel cs (if p = 0 then ps else p # ps, s'))"
| "run_calls get rel (Rel i # cs) (ps, s) =
     (if i < length ps
      then bindR (Some (rel (ps ! i) s)) (\<lambda>s'. run_calls get rel cs (remove1 (ps ! i) ps, s'))
      else run_calls get rel cs (ps, s))"

definition call_fits :: "int \<Rightarrow> heap_call \<Rightarrow> bool" where
  "call_fits limit c = (case c of Get sz \<Rightarrow> int (unat sz) \<le> limit | Rel _ \<Rightarrow> True)"

text \<open>\<open>ok s ps\<close>: the state is well formed and the live buffers are \<open>ps\<close>; \<open>room\<close> is the size of one.\<close>

locale allocator =
  fixes ok :: "'s \<Rightarrow> int list \<Rightarrow> bool"
    and get :: "u32 \<Rightarrow> 's \<Rightarrow> (int \<times> 's) run"
    and rel :: "int \<Rightarrow> 's \<Rightarrow> 's outcome"
    and room :: "int \<Rightarrow> 's \<Rightarrow> int"
    and limit :: int
  assumes get_law: "ok s ps \<Longrightarrow> int (unat sz) \<le> limit \<Longrightarrow> \<exists>p s'. get sz s = Some (Inr (p, s')) \<and>
      (p = 0 \<and> ok s' ps \<or> p \<noteq> 0 \<and> ok s' (p # ps) \<and> int (unat sz) \<le> room p s')"
    and rel_law: "ok s ps \<Longrightarrow> p \<in> set ps \<Longrightarrow> \<exists>s'. rel p s = Inr s' \<and> ok s' (remove1 p ps)"
    and disjoint_law: "ok s ps \<Longrightarrow> distinct ps \<and> (\<forall>p \<in> set ps. \<forall>q \<in> set ps. p \<noteq> q \<longrightarrow>
      p + room p s \<le> q \<or> q + room q s \<le> p)"
begin

lemma calls_return:
  assumes "ok s ps" "\<And>c. c \<in> set cs \<Longrightarrow> call_fits limit c"
  shows "\<exists>ps' s'. run_calls get rel cs (ps, s) = Some (Inr (ps', s')) \<and> ok s' ps'"
  using assms
proof (induction cs arbitrary: ps s)
  case (Cons c cs)
  show ?case
  proof (cases c)
    case (Get sz)
    then have "int (unat sz) \<le> limit" using Cons(3) [of c] by (simp add: call_fits_def)
    from get_law [OF Cons(2) this] obtain p s' where g: "get sz s = Some (Inr (p, s'))"
        "ok s' (if p = 0 then ps else p # ps)" by auto
    show ?thesis using Cons(1) [OF g(2)] Cons(3) g(1) by (simp add: Get)
  next
    case (Rel i)
    show ?thesis
    proof (cases "i < length ps")
      case True
      then obtain s' where r: "rel (ps ! i) s = Inr s'" "ok s' (remove1 (ps ! i) ps)"
        using rel_law [OF Cons(2), of "ps ! i"] by auto
      show ?thesis using Cons(1) [OF r(2)] Cons(3) r(1) True by (simp add: Rel)
    next
      case False
      then show ?thesis using Cons(1) [OF Cons(2)] Cons(3) by (simp add: Rel)
    qed
  qed
qed simp

end

section \<open>The kernel heap is an allocator\<close>

definition heap_users :: "int \<Rightarrow> bheap \<Rightarrow> int list \<Rightarrow> bool" where
  "heap_users base h ps \<longleftrightarrow> (\<exists>bs. heap_ok base bs h \<and> distinct ps \<and>
     set ps = (\<lambda>a. a + sizeof_bhead) ` set (used_at base bs))"

definition max_request :: int where "max_request = 0x7FFFEFF0"

lemma malloc_run:
  assumes ok: "heap_ok base bs h" and sz: "sz \<noteq> 0" "int (unat sz) \<le> max_request"
  shows "(\<exists>us n vs h'. allocates bs (round_size (int (unat sz))) us n vs \<and>
      malloc sz h = Some (Inr (base + extent us + sizeof_bhead, h')) \<and>
      heap_ok base (us @ (False, n) # vs) h' \<and> int (unat sz) + sizeof_bhead \<le> n) \<or>
    no_fit bs (round_size (int (unat sz))) \<and> malloc sz h = Some (Inr (0, h))"
proof -
  have "signed_take_bit 31 (uint sz) = uint sz"
    by (rule signed_take_bit_int_eq_self)
      (use sz(2) in \<open>auto simp: max_request_def intro: order_trans [of _ 0]\<close>)
  then have "sint sz = int (unat sz)" by (simp add: sint_uint)
  moreover have "0 < int (unat sz)" using sz(1) unat_gt_0 [of sz] by linarith
  ultimately show ?thesis
    using bget_run [OF ok, of "int (unat sz)" no_control] sz
    by (simp add: malloc_def no_control_def max_request_def)
qed

lemma usable_eq:
  assumes "heap_ok base bs h" "a \<in> set (used_at base bs)"
  shows "usable (a + sizeof_bhead) h = - h_bsize h a - sizeof_bhead"
proof -
  have hd: "headers h base 0 bs" "extent bs < 2 ^ 31" using assms(1) by (simp_all add: heap_ok_def)
  have "h_bsize h a \<le> - 16" "- (2 ^ 31) < h_bsize h a"
    using used_at_range [OF hd(1) assms(2)] hd(2) by auto
  then show ?thesis by (simp add: usable_def Let_def sizeof_bhead_def)
qed

lemma heap_users_get:
  assumes "heap_users base h ps" "int (unat sz) \<le> max_request"
  shows "\<exists>p h'. malloc sz h = Some (Inr (p, h')) \<and>
    (p = 0 \<and> heap_users base h' ps \<or>
     p \<noteq> 0 \<and> heap_users base h' (p # ps) \<and> int (unat sz) \<le> usable p h')"
proof -
  obtain bs where bs: "heap_ok base bs h" "distinct ps"
      "set ps = (\<lambda>a. a + sizeof_bhead) ` set (used_at base bs)"
    using assms(1) by (auto simp: heap_users_def)
  consider "sz = 0" | us n vs h' where "allocates bs (round_size (int (unat sz))) us n vs"
      "malloc sz h = Some (Inr (base + extent us + sizeof_bhead, h'))"
      "heap_ok base (us @ (False, n) # vs) h'" "int (unat sz) + sizeof_bhead \<le> n"
    | "malloc sz h = Some (Inr (0, h))"
    using malloc_run [OF bs(1) _ assms(2)] by blast
  then show ?thesis
  proof cases
    case 1
    then show ?thesis using assms(1) by (simp add: malloc_def)
  next
    case 2
    let ?a = "base + extent us"
    obtain xs ys where used: "used_at base (us @ (False, n) # vs) = xs @ ?a # ys" "used_at base bs = xs @ ys"
      by (rule used_at_allocates [OF 2(1)])
    have hd: "headers h' base 0 (us @ (False, n) # vs)" "0 < base" using 2(3) by (simp_all add: heap_ok_def)
    have new: "?a \<notin> set (used_at base bs)" using distinct_used_at [OF hd(1)] by (simp add: used)
    have "heap_users base h' ((?a + sizeof_bhead) # ps)"
      unfolding heap_users_def using 2(3) bs(2,3) new used by (intro exI [of _ "us @ (False, n) # vs"]) auto
    moreover have "h_bsize h' ?a = - n" "0 \<le> extent us" using heap_ok_split [OF 2(3) refl] by simp_all
    moreover from this have "int (unat sz) \<le> usable (?a + sizeof_bhead) h'"
      using usable_eq [OF 2(3), of ?a] 2(4) by (simp add: used)
    ultimately show ?thesis
      using 2(2) hd(2) by (intro exI [of _ "?a + sizeof_bhead"] exI [of _ h']) (simp add: sizeof_bhead_def)
  next
    case 3
    then show ?thesis using assms(1) by simp
  qed
qed

lemma heap_users_rel:
  assumes "heap_users base h ps" "p \<in> set ps"
  shows "\<exists>h'. free p h = Inr h' \<and> heap_users base h' (remove1 p ps)"
proof -
  obtain bs where bs: "heap_ok base bs h" "distinct ps"
      "set ps = (\<lambda>a. a + sizeof_bhead) ` set (used_at base bs)"
    using assms(1) by (auto simp: heap_users_def)
  then obtain a where a: "p = a + sizeof_bhead" "a \<in> set (used_at base bs)" using assms(2) by auto
  from a(2) obtain us n vs where b: "bs = us @ (False, n) # vs" "a = base + extent us"
    by (rule used_at_split)
  from brel_run [of base us n vs h no_control] bs(1) obtain h' where h':
      "brel no_control p h = Inr h'" "heap_ok base (release_blocks us n vs) h'"
    by (auto simp: b a(1) no_control_def)
  have hd: "headers h base 0 bs" "0 < base" using bs(1) by (simp_all add: heap_ok_def)
  have "distinct (used_at base bs)" using distinct_used_at [OF hd(1)] .
  then have "set (used_at base (release_blocks us n vs)) = set (used_at base bs) - {a}"
    unfolding used_at_release by (auto simp: b used_at_append)
  then have "set (remove1 p ps) = (\<lambda>a. a + sizeof_bhead) ` set (used_at base (release_blocks us n vs))"
    using bs(2,3) a(1) by (auto simp: set_remove1_eq)
  moreover have "p \<noteq> 0" using used_at_range [OF hd(1) a(2)] hd(2) by (simp add: a(1) sizeof_bhead_def)
  ultimately show ?thesis
    using h' bs(2) by (auto simp: free_def heap_users_def)
qed

lemma heap_users_disjoint:
  assumes "heap_users base h ps"
  shows "distinct ps \<and> (\<forall>p \<in> set ps. \<forall>q \<in> set ps. p \<noteq> q \<longrightarrow> p + usable p h \<le> q \<or> q + usable q h \<le> p)"
proof -
  obtain bs where bs: "heap_ok base bs h" "distinct ps"
      "set ps = (\<lambda>a. a + sizeof_bhead) ` set (used_at base bs)"
    using assms by (auto simp: heap_users_def)
  have hd: "headers h base 0 bs" using bs(1) by (simp add: heap_ok_def)
  have "p + usable p h \<le> q" if pq: "p \<in> set ps" "q \<in> set ps" "p < q" for p q
  proof -
    obtain a b where ab: "p = a + sizeof_bhead" "q = b + sizeof_bhead"
        "a \<in> set (used_at base bs)" "b \<in> set (used_at base bs)"
      using pq(1,2) bs(3) by auto
    have "a - h_bsize h a \<le> b" using used_at_disjoint [OF hd ab(3,4)] pq(3) ab(1,2) by simp
    then show ?thesis using usable_eq [OF bs(1) ab(3)] ab(1,2) by (simp add: sizeof_bhead_def)
  qed
  then show ?thesis using bs(2) by (metis linorder_neqE)
qed

interpretation kh: allocator "heap_users base" malloc free usable max_request
  by unfold_locales (fact heap_users_get heap_users_rel heap_users_disjoint)+

section \<open>Start\<close>

lemma kheap_init_run:
  assumes "0 < base"
  obtains k h where "kheap_init base initial_heap = Inr (k, h)" "heap_ok base [(True, 0x1FFFF8)] h"
    "kh_buffer k = base" "kh_len k = KHEAP_INITIAL_SIZE"
proof -
  have len: "KHEAP_INITIAL_SIZE AND NOT (SizeQuant - 1) = 0x200000"
    by (simp add: KHEAP_INITIAL_SIZE_def SizeQuant_def)
  obtain h where h: "link_last base (initial_heap\<lparr>pool_len := 0x200000, numpget := 1, numpblk := 1,
        h_prevfree := (h_prevfree initial_heap)(base := 0)\<rparr>) = Inr h"
      "path h Freelist [base] Freelist" "h_bsize h = (\<lambda>_. 0)" "h_prevfree h = (\<lambda>_. 0)" "totalloc h = 0"
    using link_last_path [of "initial_heap\<lparr>pool_len := 0x200000, numpget := 1, numpblk := 1,
        h_prevfree := (h_prevfree initial_heap)(base := 0)\<rparr>" "[]" base]
    by (auto simp: initial_heap_def fun_upd_idem)
  let ?h = "h\<lparr>h_bsize := (\<lambda>_. 0)(base := 0x1FFFF8, base + 0x1FFFF8 := ESent),
    h_prevfree := (\<lambda>_. 0)(base + 0x1FFFF8 := 0x1FFFF8)\<rparr>"
  have "bpool base KHEAP_INITIAL_SIZE initial_heap = Inr ?h"
    using h by (simp add: bpool_def len Let_def initial_heap_def sizeof_bhead_def ESent_def)
  then have "kheap_init base initial_heap = Inr (\<lparr>kh_buffer = base, kh_len = KHEAP_INITIAL_SIZE\<rparr>, ?h)"
    using assms by (simp add: kheap_init_def)
  moreover have "heap_ok base [(True, 0x1FFFF8)] ?h"
  proof -
    have "path ?h Freelist [base] Freelist" by (rule path_cong [OF h(2)]) simp_all
    then show ?thesis
      using assms h(5) by (auto simp: heap_ok_def sentinel_def intro!: exI [of _ "[base]"])
  qed
  ultimately show ?thesis by (rule that) simp_all
qed

section \<open>Properties\<close>

text \<open>C7. Every sequence of requests of at most \<open>max_request\<close> bytes and releases of live buffers, on
  the heap that \<open>kheap_init\<close> builds, runs without a failed assertion and returns.  Afterwards the
  validation of the pool accepts it, and the live buffers are distinct and do not overlap.\<close>

theorem heap_calls_well_formed:
  assumes "0 < base" "\<And>c. c \<in> set cs \<Longrightarrow> call_fits max_request c"
  shows "\<exists>k h0 ps h. kheap_init base initial_heap = Inr (k, h0) \<and>
    run_calls malloc free cs ([], h0) = Some (Inr (ps, h)) \<and> bpoolv base h = Some (Inr 1) \<and>
    distinct ps \<and> (\<forall>p \<in> set ps. \<forall>q \<in> set ps. p \<noteq> q \<longrightarrow> p + usable p h \<le> q \<or> q + usable q h \<le> p)"
proof -
  obtain k h0 where h0: "kheap_init base initial_heap = Inr (k, h0)" "heap_ok base [(True, 0x1FFFF8)] h0"
    by (rule kheap_init_run [OF assms(1)])
  then have "heap_users base h0 []" by (auto simp: heap_users_def intro!: exI [of _ "[(True, 0x1FFFF8)]"])
  from kh.calls_return [OF this assms(2)] obtain ps h where
    h: "run_calls malloc free cs ([], h0) = Some (Inr (ps, h))" "heap_users base h ps" by blast
  then have "bpoolv base h = Some (Inr 1)" using heap_ok_valid by (auto simp: heap_users_def)
  then show ?thesis using h0(1) h kh.disjoint_law [OF h(2)] by blast
qed

theorem heap_calls_well_formed_witness:
  "\<exists>k h0 ps h. kheap_init 0x400000 initial_heap = Inr (k, h0) \<and>
    run_calls malloc free [Get 100, Get 5000, Rel 1, Get 0x100000, Rel 0] ([], h0) = Some (Inr (ps, h)) \<and>
    bpoolv 0x400000 h = Some (Inr 1) \<and>
    distinct ps \<and> (\<forall>p \<in> set ps. \<forall>q \<in> set ps. p \<noteq> q \<longrightarrow> p + usable p h \<le> q \<or> q + usable q h \<le> p)"
  by (rule heap_calls_well_formed) (auto simp: call_fits_def max_request_def)

text \<open>C8. \<open>malloc\<close> implements best fit on the sequence of buffers of a well-formed heap: it allocates
  the rear of some smallest free buffer that is big enough, or that buffer as a whole when the rest
  would be too small, and the buffer holds the bytes asked for; without such a buffer it returns
  \<open>NULL\<close> and leaves the heap alone.\<close>

theorem malloc_best_fit:
  assumes "heap_ok base bs h" "sz \<noteq> 0" "int (unat sz) \<le> max_request"
  shows "(\<exists>us n vs h'. allocates bs (round_size (int (unat sz))) us n vs \<and>
      malloc sz h = Some (Inr (base + extent us + sizeof_bhead, h')) \<and>
      heap_ok base (us @ (False, n) # vs) h' \<and>
      int (unat sz) \<le> usable (base + extent us + sizeof_bhead) h') \<or>
    no_fit bs (round_size (int (unat sz))) \<and> malloc sz h = Some (Inr (0, h))"
proof -
  have "int (unat sz) \<le> usable (base + extent us + sizeof_bhead) h'"
    if "heap_ok base (us @ (False, n) # vs) h'" "int (unat sz) + sizeof_bhead \<le> n" for us n vs h'
    using usable_eq [OF that(1), of "base + extent us"] heap_ok_split(3) [OF that(1) refl] that(2)
    by (simp add: used_at_append)
  then show ?thesis using malloc_run [OF assms] by blast
qed

definition sample_heap :: bheap where
  "sample_heap = snd (projr (kheap_init 0x400000 initial_heap))"

lemma sample_heap_ok: "heap_ok 0x400000 [(True, 0x1FFFF8)] sample_heap"
proof -
  have "(0 :: int) < 0x400000" by simp
  then obtain k h where "kheap_init 0x400000 initial_heap = Inr (k, h)" "heap_ok 0x400000 [(True, 0x1FFFF8)] h"
    by (rule kheap_init_run)
  then show ?thesis by (simp add: sample_heap_def)
qed

theorem malloc_best_fit_witness:
  "(\<exists>us n vs h'. allocates [(True, 0x1FFFF8)] (round_size (int (unat (100 :: u32)))) us n vs \<and>
      malloc 100 sample_heap = Some (Inr (0x400000 + extent us + sizeof_bhead, h')) \<and>
      heap_ok 0x400000 (us @ (False, n) # vs) h' \<and>
      int (unat (100 :: u32)) \<le> usable (0x400000 + extent us + sizeof_bhead) h') \<or>
    no_fit [(True, 0x1FFFF8)] (round_size (int (unat (100 :: u32)))) \<and>
    malloc 100 sample_heap = Some (Inr (0, sample_heap))"
  by (rule malloc_best_fit [OF sample_heap_ok]) (simp_all add: max_request_def)

text \<open>C11. Releasing a buffer that \<open>malloc\<close> returned gives back the sequence of buffers there was
  before: splitting and coalescing are inverse, and nothing is lost or fragmented.\<close>

theorem malloc_free_roundtrip:
  assumes "heap_ok base bs h" "sz \<noteq> 0" "int (unat sz) \<le> max_request"
    "malloc sz h = Some (Inr (p, h1))" "p \<noteq> 0"
  shows "\<exists>h2. free p h1 = Inr h2 \<and> heap_ok base bs h2 \<and> totalloc h2 = totalloc h"
proof -
  from malloc_run [OF assms(1-3)] assms(4,5) obtain us n vs where
    a: "allocates bs (round_size (int (unat sz))) us n vs" "p = base + extent us + sizeof_bhead"
      "heap_ok base (us @ (False, n) # vs) h1"
    by auto
  from brel_run [OF a(3), of no_control] obtain h2 where
    h2: "brel no_control p h1 = Inr h2" "heap_ok base (release_blocks us n vs) h2"
    by (auto simp: a(2) no_control_def)
  have "heap_ok base bs h2" using h2(2) release_allocated [OF assms(1) a(1)] by simp
  then show ?thesis using h2(1) assms(1,5) by (auto simp: free_def heap_ok_def)
qed

theorem malloc_free_roundtrip_witness:
  "\<exists>p h1 h2. malloc 100 sample_heap = Some (Inr (p, h1)) \<and> p \<noteq> 0 \<and> free p h1 = Inr h2 \<and>
    heap_ok 0x400000 [(True, 0x1FFFF8)] h2 \<and> totalloc h2 = totalloc sample_heap"
proof -
  have size: "round_size 100 = 0x2010"
    by (simp add: round_size_def size_consts Let_def)
  have "\<not> no_fit [(True, 0x1FFFF8)] (round_size (int (unat (100 :: u32))))"
    using size by (simp add: no_fit_def)
  then obtain us n vs h1 where m: "malloc 100 sample_heap = Some (Inr (0x400000 + extent us + sizeof_bhead, h1))"
      "heap_ok 0x400000 (us @ (False, n) # vs) h1"
    using malloc_run [OF sample_heap_ok, of 100] by (auto simp: max_request_def)
  have "0 \<le> extent us" using heap_ok_split(7) [OF m(2) refl] .
  then have "0x400000 + extent us + sizeof_bhead \<noteq> 0" by (simp add: sizeof_bhead_def)
  then show ?thesis
    using malloc_free_roundtrip [OF sample_heap_ok _ _ m(1)] m(1) by (auto simp: max_request_def)
qed

text \<open>C37. Rounding up a request makes room for it and the header up to \<open>max_request\<close> bytes.  From
  \<open>0x7FFFEFF9\<close> bytes on the sum overflows and the rounded size is negative, so that every free
  buffer counts as big enough.\<close>

theorem request_rounding:
  assumes "0 < req" "req < 2 ^ 31"
  shows "(req \<le> max_request \<longrightarrow> req + sizeof_bhead \<le> round_size req) \<and>
    (0x7FFFEFF9 \<le> req \<longrightarrow> round_size req < 0)"
proof -
  have "round_size req < 0" if big: "0x7FFFEFF9 \<le> req"
  proof -
    let ?y = "req + 0x1007 - 2 ^ 32" and ?z = "(req + 0x1007 - 2 ^ 32) AND NOT 0x1007"
    have y: "wrap32 (req + 0x1007) = ?y"
    proof -
      have "take_bit 32 (req + 0x1007) = take_bit 32 ?y"
        using mod_diff_right_eq [of "req + 0x1007" "2 ^ 32" "2 ^ 32"] by (simp add: take_bit_eq_mod)
      then have "wrap32 (req + 0x1007) = wrap32 ?y"
        by (simp add: wrap32_def signed_take_bit_eq_iff_take_bit_eq)
      then show ?thesis using assms(2) big by simp
    qed
    have "wrap32 ?z = wrap32 ?y AND wrap32 (NOT 0x1007)"
      by (rule bit_eqI) (simp only: wrap32_def bit_signed_take_bit_iff bit_and_iff simp_thms)
    also have "\<dots> = ?z" using assms(2) big by simp
    finally have "- (2 ^ 31) \<le> ?z"
      using signed_take_bit_int_greater_eq_minus_exp [of 31 ?z] by (simp add: wrap32_def)
    moreover have "?z \<le> ?y" using and_not_bounds [of "0x1007" ?y] by simp
    ultimately have "wrap32 (?z + 8) = ?z + 8" "?z + 8 < 0" using assms(2) by simp_all
    then show ?thesis using assms big y by (simp add: round_size_def size_consts Let_def)
  qed
  then show ?thesis using round_size_bounds [OF assms(1)] by (simp add: max_request_def)
qed

theorem request_rounding_witness:
  "100 \<le> max_request \<and> 100 + sizeof_bhead \<le> round_size 100 \<and> round_size 0x7FFFFFFF < 0"
  using request_rounding [of 100] request_rounding [of "0x7FFFFFFF"] by (simp add: max_request_def)

end
