(* ===== verification/LinkedList.thy ===== *)
theory LinkedList
  imports Chains
begin

text \<open>
  The generic list of \<open>kernel/include/linkedlist.h\<close> that holds the task lists.  Items live in a
  store indexed by address.  The store is total and includes cell 0, because the kernel maps page
  0 and the macros dereference \<open>last\<close> and \<open>current\<close> without a check: appending to an empty list
  writes the \<open>next\<close> field of cell 0.  Well-formed lists are those that hold a sequence of items;
  appending and seeking are shown to be the operations on that sequence, and removal is shown to
  be so only at the head.
\<close>

section \<open>Types\<close>

record ll_item =
  item_val :: addr
  item_next :: addr

type_synonym ll_heap = "addr \<Rightarrow> ll_item"

record ll_list =
  ll_first :: addr
  ll_last :: addr
  ll_current :: addr
  ll_scratch :: addr
  ll_count :: u32

record ll_iter =
  it_current :: addr

definition LINKED_LIST_INIT :: ll_list where
  "LINKED_LIST_INIT = \<lparr>ll_first = NULL, ll_last = NULL, ll_current = NULL, ll_scratch = NULL, ll_count = 0\<rparr>"

definition LINKED_LIST_ITEM_INIT :: ll_item where
  "LINKED_LIST_ITEM_INIT = \<lparr>item_val = NULL, item_next = NULL\<rparr>"

definition LINKED_LIST_ITER_INIT :: "ll_list \<Rightarrow> ll_iter" where
  "LINKED_LIST_ITER_INIT list = \<lparr>it_current = ll_first list\<rparr>"

section \<open>Operations\<close>

definition next_of_item :: "ll_heap \<Rightarrow> addr \<Rightarrow> addr" where
  "next_of_item h a = item_next (h a)"

definition set_next_item :: "ll_heap \<Rightarrow> addr \<Rightarrow> addr \<Rightarrow> ll_heap" where
  "set_next_item h a b = h(a := (h a)\<lparr>item_next := b\<rparr>)"

text \<open>\<open>a\<close> is what \<open>malloc\<close> returned.\<close>

definition append_new :: "addr \<Rightarrow> addr \<Rightarrow> ll_heap \<times> ll_list \<Rightarrow> addr \<times> ll_heap \<times> ll_list" where
  "append_new a item st =
     (let (h, l) = st; l = l\<lparr>ll_scratch := a\<rparr> in
      if a = NULL then (NULL, h, l)
      else
        let h = h(a := LINKED_LIST_ITEM_INIT\<lparr>item_val := item, item_next := NULL\<rparr>);
            h = set_next_item h (ll_last l) a;
            l = l\<lparr>ll_last := a\<rparr>;
            l = (if ll_first l = NULL \<or> ll_current l = NULL
                 then l\<lparr>ll_first := a, ll_current := a\<rparr> else l)
        in (a, h, l\<lparr>ll_count := ll_count l + 1\<rparr>))"

text \<open>The second component is the cell handed to \<open>free\<close>.\<close>

definition remove_first_free :: "ll_heap \<Rightarrow> ll_list \<Rightarrow> ll_list \<times> addr" where
  "remove_first_free h l =
     (let l = l\<lparr>ll_scratch := ll_first l\<rparr>; l = l\<lparr>ll_first := next_of_item h (ll_scratch l)\<rparr>
      in (l, ll_scratch l))"

text \<open>The moves return the value of the new current item, and \<open>NULL\<close> at the end.\<close>

definition current_val :: "ll_heap \<Rightarrow> addr \<Rightarrow> addr" where
  "current_val h c = (if c = NULL then NULL else item_val (h c))"

definition MOVE_NEXT :: "ll_heap \<Rightarrow> ll_list \<Rightarrow> addr \<times> ll_list" where
  "MOVE_NEXT h l =
     (let l = l\<lparr>ll_current := next_of_item h (ll_current l)\<rparr> in (current_val h (ll_current l), l))"

definition MOVE_FIRST :: "ll_heap \<Rightarrow> ll_list \<Rightarrow> addr \<times> ll_list" where
  "MOVE_FIRST h l =
     (let l = l\<lparr>ll_current := ll_first l\<rparr> in (current_val h (ll_current l), l))"

definition MOVE_LAST :: "ll_heap \<Rightarrow> ll_list \<Rightarrow> addr \<times> ll_list" where
  "MOVE_LAST h l =
     (let l = l\<lparr>ll_current := ll_last l\<rparr> in (current_val h (ll_current l), l))"

definition iter_next :: "ll_heap \<Rightarrow> ll_iter \<Rightarrow> addr \<times> ll_iter" where
  "iter_next h it =
     (let it = it\<lparr>it_current := next_of_item h (it_current it)\<rparr> in
      (current_val h (it_current it), it))"

definition REMOVE_CURRENT :: "ll_heap \<Rightarrow> ll_list \<Rightarrow> ll_iter \<Rightarrow> addr \<times> ll_list \<times> ll_iter" where
  "REMOVE_CURRENT h l it =
     (let l = l\<lparr>ll_scratch := it_current it\<rparr>;
          it = it\<lparr>it_current := next_of_item h (it_current it)\<rparr>;
          l = l\<lparr>ll_first := (if ll_first l = ll_scratch l then it_current it else ll_first l)\<rparr>;
          l = l\<lparr>ll_last := (if ll_last l = ll_scratch l then it_current it else ll_last l)\<rparr>;
          l = l\<lparr>ll_count := ll_count l - 1\<rparr>
      in (ll_scratch l, l, it))"

text \<open>\<open>LINKED_LIST_SEEK_UNTIL\<close>; the condition is a predicate on the current item's address.\<close>

partial_function (option) SEEK_UNTIL :: "ll_heap \<Rightarrow> (addr \<Rightarrow> bool) \<Rightarrow> ll_iter \<Rightarrow> ll_iter option" where
  "SEEK_UNTIL h cond it =
     (if it_current it \<noteq> NULL then
        (if cond (it_current it) then Some it else SEEK_UNTIL h cond (snd (iter_next h it)))
      else Some it)"

declare SEEK_UNTIL.simps [code]

section \<open>Well-formed lists\<close>

definition ll_ok :: "ll_heap \<Rightarrow> ll_list \<Rightarrow> addr list \<Rightarrow> bool" where
  "ll_ok h l xs = (chain (next_of_item h) (ll_first l) xs NULL \<and>
     ll_last l = (if xs = [] then NULL else last xs) \<and>
     ll_count l = of_nat (length xs))"

definition vals :: "ll_heap \<Rightarrow> addr list \<Rightarrow> addr list" where
  "vals h xs = map (\<lambda>a. item_val (h a)) xs"

interpretation item_cells: linked_cells next_of_item set_next_item
  by unfold_locales (auto simp: next_of_item_def set_next_item_def)

lemma item_val_set_next [simp]: "item_val (set_next_item h a b c) = item_val (h c)"
  by (simp add: set_next_item_def)

lemma next_of_new_item [simp]:
  "next_of_item (h(a := \<lparr>item_val = v, item_next = n\<rparr>)) = (next_of_item h)(a := n)"
  by (auto simp: next_of_item_def)

lemma append_new_ok:
  assumes "ll_ok h l xs" "xs = [] \<or> ll_current l \<noteq> NULL" "a \<noteq> NULL" "a \<notin> set xs"
  obtains h' l' where "append_new a item (h, l) = (a, h', l')" "ll_ok h' l' (xs @ [a])"
    "vals h' (xs @ [a]) = vals h xs @ [item]" "ll_current l' \<noteq> NULL"
    "\<And>b. b \<noteq> a \<Longrightarrow> item_val (h' b) = item_val (h b)"
proof -
  let ?h1 = "h(a := \<lparr>item_val = item, item_next = NULL\<rparr>)"
  let ?h2 = "set_next_item ?h1 (ll_last l) a"
  let ?l' = "(if ll_first l = NULL \<or> ll_current l = NULL
      then l\<lparr>ll_scratch := a, ll_last := a, ll_first := a, ll_current := a\<rparr>
      else l\<lparr>ll_scratch := a, ll_last := a\<rparr>)\<lparr>ll_count := ll_count l + 1\<rparr>"
  have app: "append_new a item (h, l) = (a, ?h2, ?l')"
    using assms(3) by (simp add: append_new_def LINKED_LIST_ITEM_INIT_def Let_def)
  have vals: "vals ?h2 (xs @ [a]) = vals h xs @ [item]" using assms(4) by (auto simp: vals_def)
  have ok: "ll_ok ?h2 ?l' (xs @ [a])"
  proof (cases xs rule: rev_cases)
    case Nil
    with assms(1,3) show ?thesis by (auto simp: ll_ok_def item_cells.next_set)
  next
    case (snoc ys y)
    have c: "chain (next_of_item ?h1) (ll_first l) (ys @ [y]) NULL"
      using assms(1,4) snoc by (simp add: ll_ok_def chain_upd_other)
    then have "ll_first l \<noteq> NULL" by (cases ys) auto
    moreover have "ll_last l = y" using assms(1) snoc by (simp add: ll_ok_def)
    moreover have "chain (next_of_item (set_next_item ?h1 y a)) (ll_first l) (ys @ [y, a]) NULL"
      using item_cells.append_last(2) [OF c assms(3)] assms(4) snoc by simp
    ultimately show ?thesis
      using assms(1,2) snoc by (simp add: ll_ok_def del: chain_append)
  qed
  moreover have "ll_current ?l' \<noteq> NULL" using assms(3) by auto
  ultimately show ?thesis using that [OF app ok vals] by auto
qed

lemma SEEK_UNTIL_chain:
  "chain (next_of_item h) p xs NULL \<Longrightarrow> SEEK_UNTIL h cond \<lparr>it_current = p\<rparr> =
   Some \<lparr>it_current = (case find cond xs of None \<Rightarrow> NULL | Some x \<Rightarrow> x)\<rparr>"
proof (induction xs arbitrary: p)
  case Nil
  then show ?case by (simp add: SEEK_UNTIL.simps)
next
  case (Cons x xs)
  then show ?case
    by (simp add: SEEK_UNTIL.simps [of h cond "\<lparr>it_current = x\<rparr>"] iter_next_def Let_def)
qed

section \<open>Properties\<close>

text \<open>Appending to a well-formed list whose cursor is set (or which is empty) is appending to
  the sequence of its values, and keeps it well formed; so any number of appends to an empty list
  leaves the appended values in order.\<close>

theorem append_new_refines:
  assumes "ll_ok h l xs" "xs = [] \<or> ll_current l \<noteq> NULL" "a \<noteq> NULL" "a \<notin> set xs"
  shows "\<exists>h' l'. append_new a item (h, l) = (a, h', l') \<and> ll_ok h' l' (xs @ [a]) \<and>
    vals h' (xs @ [a]) = vals h xs @ [item] \<and> ll_current l' \<noteq> NULL"
  by (rule append_new_ok [OF assms, of item]) blast

definition sample_items :: ll_heap where
  "sample_items = (\<lambda>_. LINKED_LIST_ITEM_INIT)"

theorem append_new_refines_witness:
  "\<exists>h' l'. append_new 16 7 (sample_items, LINKED_LIST_INIT) = (16, h', l') \<and>
     ll_ok h' l' [16] \<and> vals h' [16] = [7]"
  using append_new_refines [of sample_items LINKED_LIST_INIT "[]" 16 7]
  by (auto simp: ll_ok_def LINKED_LIST_INIT_def vals_def)

text \<open>Appending while the cursor has run off the end of a non-empty list loses the list: the
  new item becomes the only one reachable from \<open>first\<close>, while the count still includes the
  others.\<close>

theorem append_new_drops_list:
  assumes "ll_ok h l xs" "xs \<noteq> []" "ll_current l = NULL" "a \<noteq> NULL" "a \<notin> set xs"
  shows "\<exists>h' l'. append_new a item (h, l) = (a, h', l') \<and>
    chain (next_of_item h') (ll_first l') [a] NULL \<and> ll_count l' = of_nat (Suc (length xs))"
proof -
  have "ll_last l \<noteq> a" using assms(1,2,5) by (auto simp: ll_ok_def)
  then show ?thesis
    using assms by (simp add: append_new_def ll_ok_def LINKED_LIST_ITEM_INIT_def Let_def
        item_cells.next_set)
qed

theorem append_new_drops_list_witness:
  "\<exists>h' l'. append_new 16 7 (sample_items, LINKED_LIST_INIT\<lparr>ll_first := 8, ll_last := 8, ll_count := 1\<rparr>) =
     (16, h', l') \<and> chain (next_of_item h') (ll_first l') [16] NULL \<and> ll_count l' = 2"
proof -
  have "ll_ok sample_items (LINKED_LIST_INIT\<lparr>ll_first := 8, ll_last := 8, ll_count := 1\<rparr>) [8]"
    by (simp add: ll_ok_def sample_items_def next_of_item_def LINKED_LIST_ITEM_INIT_def)
  from append_new_drops_list [OF this, of 16 7] show ?thesis by (simp add: LINKED_LIST_INIT_def)
qed

text \<open>\<open>LINKED_LIST_SEEK_UNTIL\<close> terminates on every well-formed list and stops at the first item
  that satisfies the condition, with a null cursor when there is none.\<close>

theorem seek_until_first:
  assumes "ll_ok h l xs"
  shows "SEEK_UNTIL h cond (LINKED_LIST_ITER_INIT l) =
    Some \<lparr>it_current = (case find cond xs of None \<Rightarrow> NULL | Some x \<Rightarrow> x)\<rparr>"
  using assms SEEK_UNTIL_chain by (simp add: ll_ok_def LINKED_LIST_ITER_INIT_def)

theorem seek_until_first_witness:
  "SEEK_UNTIL sample_items (\<lambda>a. a = 8)
     (LINKED_LIST_ITER_INIT (LINKED_LIST_INIT\<lparr>ll_first := 8, ll_last := 8, ll_count := 1\<rparr>)) =
   Some \<lparr>it_current = 8\<rparr>"
proof -
  have "ll_ok sample_items (LINKED_LIST_INIT\<lparr>ll_first := 8, ll_last := 8, ll_count := 1\<rparr>) [8]"
    by (simp add: ll_ok_def sample_items_def next_of_item_def LINKED_LIST_ITEM_INIT_def)
  from seek_until_first [OF this, of "\<lambda>a. a = 8"] show ?thesis by simp
qed

text \<open>\<open>LINKED_LIST_REMOVE_CURRENT\<close> removes the current item only when it is the first one.
  Behind the head the item stays linked, although the count drops and the caller frees it.\<close>

theorem remove_current_effect:
  assumes "ll_ok h l (us @ x # vs)" "(a, l', it') = REMOVE_CURRENT h l \<lparr>it_current = x\<rparr>"
  shows "a = x \<and> ll_count l' = of_nat (length (us @ vs)) \<and>
    chain (next_of_item h) (ll_first l') (if us = [] then vs else us @ x # vs) NULL"
proof (cases us)
  case Nil
  with assms show ?thesis by (auto simp: REMOVE_CURRENT_def Let_def ll_ok_def)
next
  case (Cons u us')
  with assms(1) chain_distinct [of "next_of_item h" "ll_first l" "us @ x # vs"] have "ll_first l \<noteq> x"
    by (auto simp: ll_ok_def)
  with assms Cons show ?thesis by (auto simp: REMOVE_CURRENT_def Let_def ll_ok_def)
qed

theorem remove_current_effect_witness:
  "\<exists>l' it'. REMOVE_CURRENT (set_next_item sample_items 8 16)
     (LINKED_LIST_INIT\<lparr>ll_first := 8, ll_last := 16, ll_count := 2\<rparr>) \<lparr>it_current = 16\<rparr> = (16, l', it') \<and>
     ll_count l' = 1 \<and> chain (next_of_item (set_next_item sample_items 8 16)) (ll_first l') [8, 16] NULL"
proof -
  let ?h = "set_next_item sample_items 8 16"
  let ?l = "LINKED_LIST_INIT\<lparr>ll_first := 8, ll_last := 16, ll_count := 2\<rparr>"
  have "ll_ok ?h ?l ([8] @ 16 # [])"
    by (simp add: ll_ok_def item_cells.next_set sample_items_def next_of_item_def
        LINKED_LIST_ITEM_INIT_def)
  moreover obtain a l' it' where r: "(a, l', it') = REMOVE_CURRENT ?h ?l \<lparr>it_current = 16\<rparr>"
    by (metis surj_pair)
  ultimately have "a = 16 \<and> ll_count l' = 1 \<and> chain (next_of_item ?h) (ll_first l') [8, 16] NULL"
    using remove_current_effect [of ?h ?l "[8]" 16 "[]" a l' it'] by simp
  with r show ?thesis by (metis)
qed

end
