(* ===== verification/Task.thy ===== *)
theory Task
  imports LinkedList Mutex
begin

text \<open>
  The task structure of \<open>kernel/include/scheduler.h\<close> and the signal structures of
  \<open>kernel/include/signal.h\<close> it contains, with the part of the kernel's global state that the
  signal and scheduling code works on: the tasks by address, the items of the task lists, the
  list of all tasks, the current task and the scheduler lock.
\<close>

section \<open>Signal structures\<close>

record siginfo_t =
  si_signo :: i32
  si_code :: i32
  si_errno :: i32
  si_pid :: i32
  si_uid :: i32
  si_addr :: addr
  si_status :: i32
  si_band :: i32
  si_value :: u32

record sigaction_t =
  sa_mask :: u32
  sa_flags :: i32
  sa_handler :: addr

record stack_t =
  ss_sp :: addr
  ss_size :: u32
  ss_flags :: i32

section \<open>Tasks\<close>

definition TASK_STATE_RUNNING :: u32 where "TASK_STATE_RUNNING = 0"
definition TASK_STATE_WAITING :: u32 where "TASK_STATE_WAITING = 1"
definition TASK_STATE_STOPPED :: u32 where "TASK_STATE_STOPPED = 2"
definition TASK_STATE_ZOMBIE :: u32 where "TASK_STATE_ZOMBIE = 3"

lemmas TASK_STATE_defs = TASK_STATE_RUNNING_def TASK_STATE_WAITING_def TASK_STATE_STOPPED_def
  TASK_STATE_ZOMBIE_def

text \<open>
  The machine state, the saved registers and the stacks belong to the architecture code and are
  left out.  \<open>sig_pending\<close> and \<open>sig_delivered\<close> have four levels, \<open>sig_info\<close> is indexed by signal
  number minus one and then by level.
\<close>

record task_t =
  t_id :: i32
  t_pid :: i32
  t_uid :: i32
  t_gid :: i32
  t_euid :: i32
  t_egid :: i32
  t_saved_uid :: i32
  t_saved_gid :: i32
  t_errno :: i32
  t_status :: u32
  t_exit_code :: i32
  t_sigmask :: u32
  t_sig_pending :: "u32 list"
  t_sig_delivered :: "u32 list"
  t_sig_info :: "siginfo_t list list"
  t_sig_action :: "sigaction_t list"
  t_sig_altstack :: stack_t
  t_procfs_node :: addr
  t_cwd :: addr
  t_root :: addr
  t_lock :: mutex_t
  t_parent :: addr
  t_main_thread :: addr
  t_children :: ll_list
  t_threads :: ll_list

record sys =
  tasks :: "addr \<Rightarrow> task_t"
  items :: ll_heap
  tasks_list :: ll_list
  current_task :: addr
  schedule_lock :: mutex_t

abbreviation cur :: "'a sys_scheme \<Rightarrow> task_t" where
  "cur s \<equiv> tasks s (current_task s)"

definition upd_task :: "addr \<Rightarrow> (task_t \<Rightarrow> task_t) \<Rightarrow> 'a sys_scheme \<Rightarrow> 'a sys_scheme" where
  "upd_task a f s = s\<lparr>tasks := (tasks s)(a := f (tasks s a))\<rparr>"

abbreviation upd_cur :: "(task_t \<Rightarrow> task_t) \<Rightarrow> 'a sys_scheme \<Rightarrow> 'a sys_scheme" where
  "upd_cur f s \<equiv> upd_task (current_task s) f s"

text \<open>The task an item of a task list holds.\<close>

abbreviation item_task :: "'a sys_scheme \<Rightarrow> addr \<Rightarrow> task_t" where
  "item_task s c \<equiv> tasks s (item_val (items s c))"

text \<open>The tasks of the global list in order, when the list is well formed.\<close>

definition task_list_ok :: "'a sys_scheme \<Rightarrow> addr list \<Rightarrow> bool" where
  "task_list_ok s xs = ll_ok (items s) (tasks_list s) xs"

lemma upd_task_simps [simp]:
  "tasks (upd_task a f s) = (tasks s)(a := f (tasks s a))"
  "items (upd_task a f s) = items s"
  "tasks_list (upd_task a f s) = tasks_list s"
  "current_task (upd_task a f s) = current_task s"
  "schedule_lock (upd_task a f s) = schedule_lock s"
  by (simp_all add: upd_task_def)

lemma task_list_ok_upd [simp]: "task_list_ok (upd_task a f s) xs = task_list_ok s xs"
  by (simp add: task_list_ok_def)

lemma seek_tasks:
  assumes "task_list_ok s xs"
  shows "SEEK_UNTIL (items s) cond (LINKED_LIST_ITER_INIT (tasks_list s)) =
    Some \<lparr>it_current = (case find cond xs of None \<Rightarrow> NULL | Some x \<Rightarrow> x)\<rparr>"
  using assms SEEK_UNTIL_chain
  by (simp add: task_list_ok_def ll_ok_def LINKED_LIST_ITER_INIT_def)

lemma task_items_nonnull: "task_list_ok s xs \<Longrightarrow> x \<in> set xs \<Longrightarrow> x \<noteq> NULL"
  by (auto simp: task_list_ok_def ll_ok_def dest: chain_cells)

end
