(* ===== verification/Bounded_Queue.thy ===== *)
theory Bounded_Queue
  imports Hydrax_Prelude
begin

text \<open>
  The contract of a first-in first-out buffer of bounded capacity, which three parts of the kernel
  implement over fixed storage: the four levels of a pending signal, the ring of a pipe and the
  ring of the keyboard driver.  The client's theorem is that whatever the interleaving of
  insertions and removals, what comes out is what went in, in order, with nothing lost but what
  was refused.
\<close>

datatype 'a queue_op = Put 'a | Get

text \<open>
  A run over a sequence of operations: the values accepted, the values taken out, the final state.
  A removal from an empty queue is skipped, as the callers test for emptiness first.
\<close>

fun queue_run :: "('a \<Rightarrow> 's \<Rightarrow> 's option) \<Rightarrow> ('s \<Rightarrow> bool) \<Rightarrow> ('s \<Rightarrow> 'a \<times> 's) \<Rightarrow>
    'a queue_op list \<Rightarrow> 's \<Rightarrow> 'a list \<times> 'a list \<times> 's" where
  "queue_run put avail get [] s = ([], [], s)"
| "queue_run put avail get (Put x # ops) s =
     (case put x s of
        None \<Rightarrow> queue_run put avail get ops s
      | Some s' \<Rightarrow> let (ins, outs, s'') = queue_run put avail get ops s' in (x # ins, outs, s''))"
| "queue_run put avail get (Get # ops) s =
     (if avail s then
        let (x, s') = get s; (ins, outs, s'') = queue_run put avail get ops s' in
        (ins, x # outs, s'')
      else queue_run put avail get ops s)"

locale bounded_queue =
  fixes inv :: "'s \<Rightarrow> bool"
    and content :: "'s \<Rightarrow> 'a list"
    and cap :: nat
    and put :: "'a \<Rightarrow> 's \<Rightarrow> 's option"
    and avail :: "'s \<Rightarrow> bool"
    and get :: "'s \<Rightarrow> 'a \<times> 's"
  assumes put_law: "inv s \<Longrightarrow> length (content s) < cap \<Longrightarrow>
      \<exists>s'. put x s = Some s' \<and> inv s' \<and> content s' = content s @ [x]"
    and full_law: "inv s \<Longrightarrow> cap \<le> length (content s) \<Longrightarrow> put x s = None"
    and avail_law: "inv s \<Longrightarrow> avail s \<longleftrightarrow> content s \<noteq> []"
    and get_law: "inv s \<Longrightarrow> content s \<noteq> [] \<Longrightarrow>
      \<exists>s'. get s = (hd (content s), s') \<and> inv s' \<and> content s' = tl (content s)"
    and bound_law: "inv s \<Longrightarrow> length (content s) \<le> cap"
begin

lemma put_cases:
  assumes "inv s"
  obtains (stored) s' where "put x s = Some s'" "inv s'" "content s' = content s @ [x]"
      "length (content s) < cap"
    | (refused) "put x s = None" "length (content s) = cap"
  using put_law [OF assms, of x] full_law [OF assms, of x] bound_law [OF assms]
  by (meson le_less_linear le_antisym)

lemma run_fifo:
  assumes "inv s"
  shows "\<exists>ins outs s'. queue_run put avail get ops s = (ins, outs, s') \<and> inv s' \<and>
    outs @ content s' = content s @ ins \<and> length (content s') \<le> cap"
  using assms
proof (induction ops arbitrary: s)
  case Nil
  then show ?case using bound_law by simp
next
  case (Cons op ops)
  show ?case
  proof (cases op)
    case (Put x)
    consider (stored) s1 where "put x s = Some s1" "inv s1" "content s1 = content s @ [x]"
      | (refused) "put x s = None"
      using put_cases [OF Cons.prems, of x] by metis
    then show ?thesis
    proof cases
      case (stored s1)
      from Cons.IH [OF stored(2)] stored Put show ?thesis by auto
    next
      case refused
      from Cons.IH [OF Cons.prems] refused Put show ?thesis by auto
    qed
  next
    case Get
    show ?thesis
    proof (cases "content s = []")
      case True
      with Cons.IH [OF Cons.prems] avail_law [OF Cons.prems] Get show ?thesis by auto
    next
      case False
      from get_law [OF Cons.prems False] obtain s1 where
        s1: "get s = (hd (content s), s1)" "inv s1" "content s1 = tl (content s)" by auto
      from Cons.IH [OF s1(2)] obtain ins outs s' where
        "queue_run put avail get ops s1 = (ins, outs, s')" "inv s'"
        "outs @ content s' = content s1 @ ins" "length (content s') \<le> cap" by blast
      moreover from False obtain y ys where "content s = y # ys" by (cases "content s") auto
      ultimately show ?thesis using s1 avail_law [OF Cons.prems] Get by simp
    qed
  qed
qed

text \<open>Up to its capacity an empty queue stores everything it is given.\<close>

lemma put_all:
  assumes "inv s" "length (content s) + length xs \<le> cap"
  shows "\<exists>s'. queue_run put avail get (map Put xs) s = (xs, [], s') \<and> inv s' \<and>
    content s' = content s @ xs"
  using assms
proof (induction xs arbitrary: s)
  case (Cons x xs)
  then obtain s1 where s1: "put x s = Some s1" "inv s1" "content s1 = content s @ [x]"
    using put_law [of s x] by auto
  with Cons.IH [of s1] Cons.prems show ?case by auto
qed simp

end

end
