(* ===== verification/Signal.thy ===== *)
theory Signal
  imports Task Bounded_Queue
begin

text \<open>
  Signals, after \<open>kernel/signal.c\<close> and the inline functions of \<open>kernel/include/signal.h\<close>.  Each
  signal of a task has four pending levels with one \<open>siginfo_t\<close> each; the abstraction
  \<open>signal_queue\<close> reads them as a queue of at most four.  What happens while a task is scheduled
  away, and what a user handler does, are arguments.
\<close>

section \<open>Constants\<close>

definition SIGHUP :: i32 where "SIGHUP = 1"
definition SIGKILL :: i32 where "SIGKILL = 9"
definition SIGSTOP :: i32 where "SIGSTOP = 17"
definition SIGCONT :: i32 where "SIGCONT = 19"

definition SIG_DFL :: addr where "SIG_DFL = 0"
definition SIG_ERR :: addr where "SIG_ERR = -1"
definition SIG_HOLD :: addr where "SIG_HOLD = 1"
definition SIG_IGN :: addr where "SIG_IGN = 2"

definition SIG_BLOCK :: i32 where "SIG_BLOCK = 2"
definition SIG_UNBLOCK :: i32 where "SIG_UNBLOCK = 3"
definition SIG_SETMASK :: i32 where "SIG_SETMASK = 4"
definition SS_DISABLE :: i32 where "SS_DISABLE = 12"
definition MINSIGSTKSZ :: u32 where "MINSIGSTKSZ = 1024"
definition SI_USER :: i32 where "SI_USER = 1"
definition SI_QUEUE :: i32 where "SI_QUEUE = 2"

text \<open>\<open>sig < 1 || sig > 32\<close>\<close>

definition bad_signal :: "i32 \<Rightarrow> bool" where
  "bad_signal sig = (sint sig < 1 \<or> sint sig > 32)"

text \<open>\<open>1 << (sig - 1)\<close>\<close>

definition sigbit :: "i32 \<Rightarrow> u32" where
  "sigbit sig = bit32 (unat (sig - 1))"

section \<open>Signal sets\<close>

definition sigaddset :: "u32 \<Rightarrow> i32 \<Rightarrow> i32 \<times> u32" where
  "sigaddset w sig = (if bad_signal sig then (EINVAL, w) else (ESUCCESS, w OR sigbit sig))"

text \<open>\<open>None\<close> is a null pointer.\<close>

definition sigdelset :: "u32 option \<Rightarrow> i32 \<Rightarrow> i32 \<times> u32 option" where
  "sigdelset p sig =
     (if bad_signal sig then (EINVAL, p)
      else case p of None \<Rightarrow> (EFAULT, None)
        | Some w \<Rightarrow> (ESUCCESS, Some (w AND NOT (sigbit sig))))"

definition sigemptyset :: "u32 \<Rightarrow> i32 \<times> u32" where
  "sigemptyset w = (ESUCCESS, 0)"

definition sigfillset :: "u32 option \<Rightarrow> i32 \<times> u32 option" where
  "sigfillset p = (case p of None \<Rightarrow> (-1, None) | Some _ \<Rightarrow> (ESUCCESS, Some 0xFFFFFFFF))"

section \<open>Queueing\<close>

abbreviation pend :: "task_t \<Rightarrow> nat \<Rightarrow> u32" where
  "pend t k \<equiv> t_sig_pending t ! k"

abbreviation deliv :: "task_t \<Rightarrow> nat \<Rightarrow> u32" where
  "deliv t k \<equiv> t_sig_delivered t ! k"

definition new_siginfo :: "i32 \<Rightarrow> u32 \<Rightarrow> i32 \<Rightarrow> task_t \<Rightarrow> siginfo_t" where
  "new_siginfo code val sig sender =
     \<lparr>si_signo = sig, si_code = code, si_errno = 0, si_pid = t_pid sender, si_uid = t_euid sender,
      si_addr = NULL, si_status = 0, si_band = 0, si_value = val\<rparr>"

text \<open>Set the bit at one level and fill in the information of that level.\<close>

definition put_level :: "nat \<Rightarrow> i32 \<Rightarrow> siginfo_t \<Rightarrow> task_t \<Rightarrow> task_t" where
  "put_level k sig info t =
     (let n = unat (sig - 1) in
      t\<lparr>t_sig_pending := (t_sig_pending t)[k := pend t k OR sigbit sig],
        t_sig_info := (t_sig_info t)[n := (t_sig_info t ! n)[k := info]]\<rparr>)"

text \<open>
  The macro \<open>queue_signal\<close>.  It does not check the signal number, so a number outside 1..32 indexes
  outside \<open>sig_info\<close>.  The tests of levels 1 to 3 compare with 1, as in the source.
\<close>

definition queue_signal :: "task_t \<Rightarrow> i32 \<Rightarrow> task_t \<Rightarrow> task_t outcome" where
  "queue_signal sender sig t =
     (if sig = 0 then Inr t
      else if bad_signal sig then Inl Out_Of_Bounds
      else
        let info = new_siginfo SI_USER 0 sig sender in
        if pend t 0 AND sigbit sig = 0 then Inr (put_level 0 sig info t)
        else if pend t 1 AND sigbit sig = 1 then Inr (put_level 1 sig info t)
        else if pend t 2 AND sigbit sig = 1 then Inr (put_level 2 sig info t)
        else if pend t 3 AND sigbit sig = 1 then Inr (put_level 3 sig info t)
        else Inr t)"

text \<open>The body of \<open>sigqueue\<close> once the target is known: \<open>None\<close> is the \<open>EAGAIN\<close> branch.\<close>

definition enqueue_signal :: "siginfo_t \<Rightarrow> i32 \<Rightarrow> task_t \<Rightarrow> task_t option" where
  "enqueue_signal info sig t =
     (if pend t 0 AND sigbit sig = 0 then Some (put_level 0 sig info t)
      else if pend t 1 AND sigbit sig = 0 then Some (put_level 1 sig info t)
      else if pend t 2 AND sigbit sig = 0 then Some (put_level 2 sig info t)
      else if pend t 3 AND sigbit sig = 0 then Some (put_level 3 sig info t)
      else None)"

definition sigqueue :: "(sys \<Rightarrow> sys) \<Rightarrow> i32 \<Rightarrow> i32 \<Rightarrow> u32 \<Rightarrow> sys \<Rightarrow> (i32 \<times> sys) option" where
  "sigqueue sched tid sig val s =
     (if bad_signal sig then Some (EINVAL, s)
      else case SEEK_UNTIL (items s) (\<lambda>c. t_id (item_task s c) = tid)
                  (LINKED_LIST_ITER_INIT (tasks_list s)) of
          None \<Rightarrow> None
        | Some it \<Rightarrow>
            if it_current it = NULL then Some (ESRCH, s)
            else
              let tmp = item_val (items s (it_current it)) in
              (case enqueue_signal (new_siginfo SI_QUEUE val sig (cur s)) sig (tasks s tmp) of
                 None \<Rightarrow> Some (EAGAIN, s)
               | Some t \<Rightarrow> Some (ESUCCESS, sched (upd_task tmp (\<lambda>_. t) s))))"

text \<open>Queue a signal for the task at address \<open>a\<close>.\<close>

definition queue_to :: "i32 \<Rightarrow> addr \<Rightarrow> sys \<Rightarrow> sys outcome" where
  "queue_to sig a s = bindE (queue_signal (cur s) sig (tasks s a)) (\<lambda>t. Inr (upd_task a (\<lambda>_. t) s))"

text \<open>The loop over all tasks; \<open>cond\<close> selects those that get the signal.\<close>

partial_function (option) queue_all :: "(sys \<Rightarrow> addr \<Rightarrow> bool) \<Rightarrow> i32 \<Rightarrow> ll_iter \<Rightarrow> sys \<Rightarrow> sys run" where
  "queue_all cond sig it s =
     (if it_current it = NULL then Some (Inr s)
      else Option.bind
        (Some (if cond s (it_current it) then queue_to sig (item_val (items s (it_current it))) s
               else Inr s))
        (\<lambda>r. if isl r then Some r
             else queue_all cond sig (snd (iter_next (items s) it)) (projr r)))"

declare queue_all.simps [code]

definition pthread_kill_nolock :: "i32 \<Rightarrow> i32 \<Rightarrow> sys \<Rightarrow> (i32 \<times> sys) run" where
  "pthread_kill_nolock tid sig s =
     (let iter = LINKED_LIST_ITER_INIT (tasks_list s) in
      if tid = 0 then bindR (queue_all (\<lambda>_ _. True) sig iter s) (\<lambda>s'. Some (Inr (0, s')))
      else case SEEK_UNTIL (items s) (\<lambda>c. t_id (item_task s c) = tid) iter of
          None \<Rightarrow> None
        | Some it \<Rightarrow>
            if it_current it = NULL then Some (Inr (-1, s))
            else Some (bindE (queue_to sig (item_val (items s (it_current it))) s) (\<lambda>s'. Inr (0, s'))))"

definition kill_nolock :: "i32 \<Rightarrow> i32 \<Rightarrow> sys \<Rightarrow> (i32 \<times> sys) run" where
  "kill_nolock pid sig s =
     (let iter = LINKED_LIST_ITER_INIT (tasks_list s);
          hit = (\<lambda>s c. t_pid (item_task s c) = pid \<and>
                       t_main_thread (item_task s c) = item_val (items s c)) in
      if pid = 0 then bindR (queue_all hit sig iter s) (\<lambda>s'. Some (Inr (0, s')))
      else case SEEK_UNTIL (items s) (hit s) iter of
          None \<Rightarrow> None
        | Some it \<Rightarrow>
            if it_current it = NULL then Some (Inr (-1, s))
            else Some (bindE (queue_to sig (item_val (items s (it_current it))) s) (\<lambda>s'. Inr (0, s'))))"

text \<open>The locked variants; \<open>envs\<close> is what happens while the caller waits for the scheduler lock.\<close>

abbreviation put_schedule_lock :: "mutex_t \<Rightarrow> sys \<Rightarrow> sys" where
  "put_schedule_lock l s \<equiv> s\<lparr>schedule_lock := l\<rparr>"

definition with_schedule_lock :: "(sys \<Rightarrow> sys) list \<Rightarrow> (sys \<Rightarrow> (i32 \<times> sys) run) \<Rightarrow> sys \<Rightarrow> (i32 \<times> sys) run" where
  "with_schedule_lock envs body s =
     bindR (mutex_wait schedule_lock put_schedule_lock envs s) (\<lambda>(s1, _).
     bindR (body s1) (\<lambda>(r, s2).
     Some (bindE (mutex_release (schedule_lock s2)) (\<lambda>l. Inr (r, put_schedule_lock l s2)))))"

definition pthread_kill :: "(sys \<Rightarrow> sys) list \<Rightarrow> i32 \<Rightarrow> i32 \<Rightarrow> sys \<Rightarrow> (i32 \<times> sys) run" where
  "pthread_kill envs t signum = with_schedule_lock envs (pthread_kill_nolock t signum)"

definition kill :: "(sys \<Rightarrow> sys) list \<Rightarrow> i32 \<Rightarrow> i32 \<Rightarrow> sys \<Rightarrow> (i32 \<times> sys) run" where
  "kill envs pid signum = with_schedule_lock envs (kill_nolock pid signum)"

definition raise :: "(sys \<Rightarrow> sys) list \<Rightarrow> i32 \<Rightarrow> sys \<Rightarrow> (i32 \<times> sys) run" where
  "raise envs sig s = pthread_kill envs (t_id (cur s)) sig s"

section \<open>Dispositions and masks\<close>

abbreviation upd_action :: "i32 \<Rightarrow> (sigaction_t \<Rightarrow> sigaction_t) \<Rightarrow> task_t \<Rightarrow> task_t" where
  "upd_action sig f t \<equiv> t\<lparr>t_sig_action := (t_sig_action t)[unat (sig - 1) :=
     f (t_sig_action t ! unat (sig - 1))]\<rparr>"

definition sigset :: "i32 \<Rightarrow> addr \<Rightarrow> task_t \<Rightarrow> addr \<times> task_t" where
  "sigset sig disp t =
     (if bad_signal sig then (SIG_ERR, t)
      else (sa_handler (t_sig_action t ! unat (sig - 1)), upd_action sig (\<lambda>a. a\<lparr>sa_handler := disp\<rparr>) t))"

definition sighold :: "i32 \<Rightarrow> task_t \<Rightarrow> i32 \<times> task_t" where
  "sighold sig t = (if bad_signal sig then (-1, t)
     else (ESUCCESS, t\<lparr>t_sigmask := t_sigmask t OR sigbit sig\<rparr>))"

definition sigrelse :: "i32 \<Rightarrow> task_t \<Rightarrow> i32 \<times> task_t" where
  "sigrelse sig t = (if bad_signal sig then (-1, t)
     else (ESUCCESS, t\<lparr>t_sigmask := t_sigmask t AND NOT (sigbit sig)\<rparr>))"

definition sigignore :: "i32 \<Rightarrow> task_t \<Rightarrow> i32 \<times> task_t" where
  "sigignore sig t = (if bad_signal sig then (-1, t)
     else (ESUCCESS, upd_action sig (\<lambda>a. a\<lparr>sa_flags := 0, sa_mask := 0, sa_handler := SIG_IGN\<rparr>) t))"

text \<open>\<open>set\<close> and \<open>oldset\<close> are pointers; the result carries what is stored through \<open>oldset\<close>.\<close>

definition sigprocmask :: "i32 \<Rightarrow> u32 option \<Rightarrow> bool \<Rightarrow> task_t \<Rightarrow> (i32 \<times> u32 option \<times> task_t) outcome" where
  "sigprocmask how setp want_old t =
     (let old = (if want_old then Some (t_sigmask t) else None);
          change = (\<lambda>f. case setp of None \<Rightarrow> Inl Null_Deref
            | Some w \<Rightarrow> Inr (ESUCCESS, old, t\<lparr>t_sigmask := f w\<rparr>)) in
      if how = SIG_BLOCK then change (\<lambda>w. t_sigmask t OR w)
      else if how = SIG_UNBLOCK then change (\<lambda>w. t_sigmask t AND NOT w)
      else if how = SIG_SETMASK then change (\<lambda>w. w)
      else Inr (EINVAL, old, t))"

definition sigpending :: "bool \<Rightarrow> task_t \<Rightarrow> i32 \<times> u32 option" where
  "sigpending have_set t = (if \<not> have_set then (EFAULT, None) else (ESUCCESS, Some (pend t 0)))"

definition signal :: "i32 \<Rightarrow> addr \<Rightarrow> task_t \<Rightarrow> i32 \<times> task_t" where
  "signal sig disp t =
     (if bad_signal sig \<or> sig = SIGKILL \<or> sig = SIGSTOP then (EINVAL, t)
      else (ESUCCESS, upd_action sig (\<lambda>a. a\<lparr>sa_flags := 0, sa_mask := 0, sa_handler := disp\<rparr>) t))"

definition sigaction :: "i32 \<Rightarrow> sigaction_t option \<Rightarrow> bool \<Rightarrow> task_t \<Rightarrow> i32 \<times> sigaction_t option \<times> task_t" where
  "sigaction signum act have_old t =
     (if bad_signal signum \<or> signum = SIGKILL \<or> signum = SIGSTOP then (EINVAL, None, t)
      else if \<not> have_old then (EFAULT, None, t)
      else case act of None \<Rightarrow> (EFAULT, None, t)
        | Some a \<Rightarrow> (ESUCCESS, Some (t_sig_action t ! unat (signum - 1)), upd_action signum (\<lambda>_. a) t))"

definition sigaltstack :: "stack_t option \<Rightarrow> bool \<Rightarrow> task_t \<Rightarrow> i32 \<times> stack_t option \<times> task_t" where
  "sigaltstack ss want_old t =
     (let old = (if want_old then Some (t_sig_altstack t) else None) in
      case ss of None \<Rightarrow> (ESUCCESS, old, t)
      | Some st \<Rightarrow>
          if ss_flags st AND NOT SS_DISABLE \<noteq> 0 then (EINVAL, old, t)
          else if ss_size st > MINSIGSTKSZ then (ENOMEM, old, t)
          else (ESUCCESS, old, t\<lparr>t_sig_altstack := st\<rparr>))"

text \<open>\<open>memset\<close> of \<open>sizeof(siginfo_t) * 4\<close> bytes clears the four levels of the first signal only.\<close>

definition zero_siginfo :: siginfo_t where
  "zero_siginfo = \<lparr>si_signo = 0, si_code = 0, si_errno = 0, si_pid = 0, si_uid = 0, si_addr = NULL,
     si_status = 0, si_band = 0, si_value = 0\<rparr>"

definition clear_task_signals :: "task_t \<Rightarrow> task_t" where
  "clear_task_signals t = t\<lparr>t_sig_pending := [0, 0, 0, 0], t_sig_delivered := [0, 0, 0, 0],
     t_sig_info := (t_sig_info t)[0 := replicate 4 zero_siginfo]\<rparr>"

section \<open>Delivery\<close>

text \<open>The inner \<open>while (1)\<close> of the handler: the position of the lowest bit set.  On 0 it would not
  return, and is not called.\<close>

partial_function (option) low_signal :: "u32 \<Rightarrow> nat \<Rightarrow> nat option" where
  "low_signal sigtmp sig =
     (if sigtmp AND 1 \<noteq> 0 then Some sig else low_signal (drop_bit 1 sigtmp) (sig + 1))"

declare low_signal.simps [code]

text \<open>Clear the highest level at which a bit is set; set it at the lowest level where it is not.\<close>

definition clear_highest :: "u32 \<Rightarrow> u32 list \<Rightarrow> u32 list" where
  "clear_highest b ls =
     (if ls ! 3 AND b \<noteq> 0 then ls[3 := ls ! 3 AND NOT b]
      else if ls ! 2 AND b \<noteq> 0 then ls[2 := ls ! 2 AND NOT b]
      else if ls ! 1 AND b \<noteq> 0 then ls[1 := ls ! 1 AND NOT b]
      else if ls ! 0 AND b \<noteq> 0 then ls[0 := ls ! 0 AND NOT b]
      else ls)"

definition set_lowest :: "u32 \<Rightarrow> u32 list \<Rightarrow> u32 list" where
  "set_lowest b ls =
     (if ls ! 0 AND b = 0 then ls[0 := ls ! 0 OR b]
      else if ls ! 1 AND b = 0 then ls[1 := ls ! 1 OR b]
      else if ls ! 2 AND b = 0 then ls[2 := ls ! 2 OR b]
      else if ls ! 3 AND b = 0 then ls[3 := ls ! 3 OR b]
      else ls)"

text \<open>Take one occurrence of signal number \<open>n + 1\<close> off the queue and count it as delivered.\<close>

definition deliver :: "nat \<Rightarrow> task_t \<Rightarrow> siginfo_t \<times> task_t" where
  "deliver n t =
     (let infos = t_sig_info t ! n;
          infos' = infos[0 := infos ! 1, 1 := infos ! 2, 2 := infos ! 3] in
      (infos ! 0,
       t\<lparr>t_sig_pending := clear_highest (bit32 n) (t_sig_pending t),
         t_sig_info := (t_sig_info t)[n := infos'],
         t_sig_delivered := set_lowest (bit32 n) (t_sig_delivered t)\<rparr>))"

text \<open>The default actions, by signal number.\<close>

definition terminating :: "nat \<Rightarrow> bool" where
  "terminating sig = (sig \<in> {6, 5, 8, 4, 3, 11, 7, 10, 16, 23, 14, 1, 2, 9, 13, 15, 30, 31, 24, 25, 26})"

definition stopping :: "nat \<Rightarrow> bool" where
  "stopping sig = (sig \<in> {17, 18, 21, 22})"

text \<open>
  One round of the handler's loop.  \<open>sched\<close> is the effect of \<open>schedule()\<close> and \<open>call h sig\<close> that of
  the registered function \<open>h\<close>.  A round ends the handler (with the task exited, or a trap), or
  goes on.
\<close>

datatype handled = Returned sys | Exited sys

definition signal_round :: "(sys \<Rightarrow> sys) \<Rightarrow> (addr \<Rightarrow> nat \<Rightarrow> sys \<Rightarrow> sys) \<Rightarrow> sys \<Rightarrow>
    (handled outcome + sys) option" where
  "signal_round sched call s =
     (let sigtmp = pend (cur s) 0 AND NOT (t_sigmask (cur s)) in
      if sigtmp = 0 then Some (Inl (Inr (Returned s)))
      else case low_signal sigtmp 0 of
          None \<Rightarrow> None
        | Some n \<Rightarrow>
            let s1 = upd_cur (\<lambda>t. snd (deliver n t)) s; sig = n + 1;
                h = sa_handler (t_sig_action (cur s1) ! n) in
            Some (
              if h = SIG_DFL then
                (if terminating sig then Inl (Inr (Exited s1))
                 else if stopping sig then
                   Inr (sched (upd_cur (\<lambda>t. t\<lparr>t_status := TASK_STATE_WAITING\<rparr>) s1))
                 else if sig = 19 then
                   Inr (sched (upd_cur (\<lambda>t. t\<lparr>t_status := TASK_STATE_RUNNING\<rparr>) s1))
                 else Inr s1)
              else if h = SIG_IGN then Inr s1
              else if h = SIG_ERR \<or> h = SIG_HOLD then Inl (Inl Assert_Failed)
              else Inr (call h sig s1)))"

partial_function (option) signal_handler :: "(sys \<Rightarrow> sys) \<Rightarrow> (addr \<Rightarrow> nat \<Rightarrow> sys \<Rightarrow> sys) \<Rightarrow> sys \<Rightarrow>
    handled run" where
  "signal_handler sched call s =
     Option.bind (signal_round sched call s)
       (\<lambda>x. if isl x then Some (projl x) else signal_handler sched call (projr x))"

declare signal_handler.simps [code]

section \<open>Waiting\<close>

text \<open>
  \<open>pause\<close> takes the scheduler lock and gives the processor away; the environment action that
  follows is everything that happens, release of the lock included, until the task runs again.
\<close>

definition pause :: "(sys \<Rightarrow> sys) list \<Rightarrow> sys \<Rightarrow> (sys \<times> (sys \<Rightarrow> sys) list) run" where
  "pause envs s =
     (if current_task s = NULL then Some (Inl Assert_Failed)
      else if t_id (cur s) = 0 then Some (Inl Assert_Failed)
      else bindR (mutex_busywait schedule_lock put_schedule_lock envs s) (\<lambda>(s1, es).
        case es of [] \<Rightarrow> None
        | e # es' \<Rightarrow>
            Some (Inr (e (upd_cur (\<lambda>t. t\<lparr>t_status := TASK_STATE_WAITING\<rparr>) s1), es'))))"

text \<open>The search from bit 0 upwards; it does not return when there is no such bit.\<close>

partial_function (option) up_signal :: "u32 \<Rightarrow> u32 \<Rightarrow> nat \<Rightarrow> nat option" where
  "up_signal w b signum = (if b AND w \<noteq> 0 then Some signum else up_signal w (push_bit 1 b) (signum + 1))"

declare up_signal.simps [code]

definition take_delivered :: "u32 \<Rightarrow> task_t \<Rightarrow> (nat \<times> task_t) option" where
  "take_delivered w t =
     Option.bind (up_signal (w AND deliv t 0) 1 0)
       (\<lambda>n. Some (n + 1, t\<lparr>t_sig_delivered := clear_highest (bit32 n) (t_sig_delivered t)\<rparr>))"

lemma pause_envs:
  assumes "pause envs s = Some (Inr x)"
  shows "length (snd x) < length envs"
proof -
  from assms obtain s1 es where w: "mutex_wait schedule_lock put_schedule_lock envs s = Some (Inr (s1, es))"
    and x: "(case es of [] \<Rightarrow> None | e # es' \<Rightarrow>
      Some (Inr (e (upd_cur (\<lambda>t. t\<lparr>t_status := TASK_STATE_WAITING\<rparr>) s1), es'))) = Some (Inr x :: _ outcome)"
    by (auto simp: pause_def mutex_busywait_eq_wait bindR_eq_Inr split: if_splits)
  from x have "length (snd x) < length es" by (cases es) auto
  with mutex_wait_envs [OF w] show ?thesis by simp
qed

function wait_loop :: "u32 \<Rightarrow> (sys \<Rightarrow> sys) list \<Rightarrow> sys \<Rightarrow> (nat \<times> sys \<times> (sys \<Rightarrow> sys) list) run" where
  "wait_loop w envs s =
     (if deliv (cur s) 0 AND w \<noteq> 0 then
        (case take_delivered w (cur s) of
           None \<Rightarrow> None
         | Some (signum, t) \<Rightarrow> Some (Inr (signum, upd_cur (\<lambda>_. t) s, envs)))
      else bindR (pause envs s) (\<lambda>x. wait_loop w (snd x) (fst x)))"
  by pat_completeness auto
termination
  by (relation "measure (\<lambda>(w, envs, s). length envs)") (auto dest: pause_envs)

definition sigwait :: "u32 option \<Rightarrow> bool \<Rightarrow> (sys \<Rightarrow> sys) list \<Rightarrow> sys \<Rightarrow>
    (i32 \<times> nat option \<times> sys \<times> (sys \<Rightarrow> sys) list) run" where
  "sigwait setp have_sig envs s =
     (case setp of None \<Rightarrow> Some (Inr (EFAULT, None, s, envs))
      | Some w \<Rightarrow>
          if \<not> have_sig then Some (Inr (EFAULT, None, s, envs))
          else bindR (wait_loop w envs s) (\<lambda>(n, s', es). Some (Inr (of_nat n, Some n, s', es))))"

text \<open>Wait with another mask in force, and restore the old one.\<close>

definition masked_wait :: "u32 \<Rightarrow> (sys \<Rightarrow> sys) list \<Rightarrow> sys \<Rightarrow> (i32 \<times> sys \<times> (sys \<Rightarrow> sys) list) run" where
  "masked_wait w envs s =
     (let oldmask = t_sigmask (cur s) in
      bindR (wait_loop w envs (upd_cur (\<lambda>t. t\<lparr>t_sigmask := w\<rparr>) s)) (\<lambda>(n, s', es).
        Some (Inr (of_nat n, upd_cur (\<lambda>t. t\<lparr>t_sigmask := oldmask\<rparr>) s', es))))"

definition sigsuspend :: "u32 option \<Rightarrow> (sys \<Rightarrow> sys) list \<Rightarrow> sys \<Rightarrow>
    (i32 \<times> sys \<times> (sys \<Rightarrow> sys) list) run" where
  "sigsuspend setp envs s =
     (case setp of None \<Rightarrow> Some (Inl Null_Deref) | Some w \<Rightarrow> masked_wait w envs s)"

definition sigwaitinfo :: "u32 option \<Rightarrow> (sys \<Rightarrow> sys) list \<Rightarrow> sys \<Rightarrow>
    (i32 \<times> sys \<times> (sys \<Rightarrow> sys) list) run" where
  "sigwaitinfo setp envs s =
     (case setp of None \<Rightarrow> Some (Inr (EFAULT, s, envs)) | Some w \<Rightarrow> masked_wait w envs s)"

definition sigpause :: "i32 \<Rightarrow> (sys \<Rightarrow> sys) list \<Rightarrow> sys \<Rightarrow> (i32 \<times> sys \<times> (sys \<Rightarrow> sys) list) run" where
  "sigpause sig envs s =
     (let oldmask = t_sigmask (cur s) in
      bindR (pause envs (upd_cur (\<lambda>t. t\<lparr>t_sigmask := NOT (sigbit sig)\<rparr>) s)) (\<lambda>(s', es).
        Some (Inr (ESUCCESS, upd_cur (\<lambda>t. t\<lparr>t_sigmask := oldmask\<rparr>) s', es))))"

section \<open>Abstraction\<close>

text \<open>The fixed array sizes of the struct.\<close>

definition sig_shape :: "task_t \<Rightarrow> bool" where
  "sig_shape t = (length (t_sig_pending t) = 4 \<and> length (t_sig_delivered t) = 4 \<and>
     length (t_sig_info t) = 32 \<and> (\<forall>n < 32. length (t_sig_info t ! n) = 4) \<and>
     length (t_sig_action t) = 32)"

text \<open>A signal pending at one level is pending at all lower ones.\<close>

definition nested :: "task_t \<Rightarrow> bool" where
  "nested t = (\<forall>n. (bit (pend t 1) n \<longrightarrow> bit (pend t 0) n) \<and>
     (bit (pend t 2) n \<longrightarrow> bit (pend t 1) n) \<and> (bit (pend t 3) n \<longrightarrow> bit (pend t 2) n))"

definition sig_ok :: "task_t \<Rightarrow> bool" where
  "sig_ok t = (sig_shape t \<and> nested t)"

definition depth :: "task_t \<Rightarrow> nat \<Rightarrow> nat" where
  "depth t n = of_bool (bit (pend t 0) n) + of_bool (bit (pend t 1) n) +
     of_bool (bit (pend t 2) n) + of_bool (bit (pend t 3) n)"

text \<open>The queued occurrences of signal number \<open>n + 1\<close>, oldest first.\<close>

definition signal_queue :: "task_t \<Rightarrow> nat \<Rightarrow> siginfo_t list" where
  "signal_queue t n = take (depth t n) (t_sig_info t ! n)"

text \<open>All pending occurrences of all signals.\<close>

definition pending_count :: "task_t \<Rightarrow> nat" where
  "pending_count t = (\<Sum>n < 32. depth t n)"

section \<open>Lemmas\<close>

lemma good_signal:
  assumes "\<not> bad_signal sig"
  obtains n where "n < 32" "sig = of_nat (Suc n)" "unat (sig - 1) = n" "sigbit sig = bit32 n"
proof -
  have r: "1 \<le> sint sig" "sint sig \<le> 32" using assms by (auto simp: bad_signal_def)
  then obtain k where k: "sint sig = int k" using nonneg_int_cases [of "sint sig"] by auto
  with r obtain n where "k = Suc n" by (cases k) auto
  with k have i: "sint sig = int (Suc n)" by simp
  have "sig = of_int (sint sig)" by simp
  then have "sig = of_nat (Suc n)" unfolding i by (simp only: of_int_of_nat_eq)
  moreover have "n < 32" using r i by simp
  moreover from calculation have "unat (sig - 1) = n" by (simp add: unat_of_nat_u32)
  ultimately show ?thesis using that [of n] by (simp add: sigbit_def)
qed

text \<open>Levels as a number: level \<open>j\<close> of a nested vector is set exactly when \<open>j\<close> is below the depth.\<close>

definition levels :: "u32 list \<Rightarrow> nat \<Rightarrow> nat \<Rightarrow> bool" where
  "levels ls n d = (length ls = 4 \<and> d \<le> 4 \<and> (\<forall>j < 4. bit (ls ! j) n \<longleftrightarrow> j < d))"

lemma all_lt_4: "(\<forall>j < (4 :: nat). P j) \<longleftrightarrow> P 0 \<and> P 1 \<and> P 2 \<and> P 3"
  by (auto simp: numeral_eq_Suc less_Suc_eq)

lemma le_4_cases: "(d :: nat) \<le> 4 \<Longrightarrow> d = 0 \<or> d = 1 \<or> d = 2 \<or> d = 3 \<or> d = 4"
  by auto

lemma levels_iff:
  "levels (t_sig_pending t) n d \<longleftrightarrow> length (t_sig_pending t) = 4 \<and> depth t n = d \<and>
   (bit (pend t 1) n \<longrightarrow> bit (pend t 0) n) \<and> (bit (pend t 2) n \<longrightarrow> bit (pend t 1) n) \<and>
   (bit (pend t 3) n \<longrightarrow> bit (pend t 2) n)"
  by (auto simp: levels_def depth_def all_lt_4 of_bool_def dest!: le_4_cases split: if_splits)

lemma sig_ok_levels:
  "sig_ok t \<longleftrightarrow> sig_shape t \<and> (\<forall>n. levels (t_sig_pending t) n (depth t n))"
  by (auto simp: sig_ok_def nested_def levels_iff sig_shape_def)

lemma levels_set:
  assumes "levels ls n d" "d < 4" "n < 32"
  shows "levels (ls[d := ls ! d OR bit32 n]) n (Suc d)"
    "m \<noteq> n \<Longrightarrow> levels ls m e \<Longrightarrow> levels (ls[d := ls ! d OR bit32 n]) m e"
  using assms by (auto simp: levels_def nth_list_update bit_simps less_Suc_eq)

lemma levels_clear:
  assumes "levels ls n d"
  shows "levels (clear_highest (bit32 n) ls) n (d - 1)"
    "m \<noteq> n \<Longrightarrow> levels ls m e \<Longrightarrow> levels (clear_highest (bit32 n) ls) m e"
proof -
  have len: "length ls = 4" and "d \<le> 4" and b: "\<forall>j < 4. bit (ls ! j) n \<longleftrightarrow> j < d"
    using assms by (auto simp: levels_def)
  then have c: "clear_highest (bit32 n) ls = (if d = 0 then ls else ls[d - 1 := ls ! (d - 1) AND NOT (bit32 n)])"
    using le_4_cases [of d] by (auto simp: clear_highest_def all_lt_4 bit_simps)
  then show "levels (clear_highest (bit32 n) ls) n (d - 1)"
    using assms by (auto simp: levels_def nth_list_update bit_simps split: if_splits)
  show "m \<noteq> n \<Longrightarrow> levels ls m e \<Longrightarrow> levels (clear_highest (bit32 n) ls) m e"
    using c \<open>d \<le> 4\<close> by (auto simp: levels_def nth_list_update bit_simps split: if_splits)
qed

lemma depth_le: "depth t n \<le> 4"
  by (simp add: depth_def)

lemma length_signal_queue: "sig_ok t \<Longrightarrow> n < 32 \<Longrightarrow> length (signal_queue t n) = depth t n"
  using depth_le [of t n] by (simp add: signal_queue_def sig_ok_def sig_shape_def)

lemma sig_shape_put: "sig_shape t \<Longrightarrow> k < 4 \<Longrightarrow> sig_shape (put_level k sig info t)"
  by (cases "unat (sig - 1) < 32") (auto simp: sig_shape_def put_level_def Let_def nth_list_update)

lemma enqueue_signal_eq:
  assumes "sig_ok t" "n < 32" "sigbit sig = bit32 n"
  shows "enqueue_signal info sig t =
    (if depth t n < 4 then Some (put_level (depth t n) sig info t) else None)"
proof -
  have "\<forall>j < 4. bit (pend t j) n \<longleftrightarrow> j < depth t n"
    using assms(1) by (auto simp: sig_ok_levels levels_def)
  with assms(3) le_4_cases [OF depth_le [of t n]] show ?thesis
    by (elim disjE) (simp_all add: enqueue_signal_def all_lt_4 bit_simps)
qed

lemma put_level_queue:
  assumes "sig_ok t" "n < 32" "sigbit sig = bit32 n" "unat (sig - 1) = n" "depth t n < 4"
    "t' = put_level (depth t n) sig info t"
  shows "sig_ok t'" "signal_queue t' n = signal_queue t n @ [info]"
    "m \<noteq> n \<Longrightarrow> signal_queue t' m = signal_queue t m"
    "depth t' m = (if m = n then Suc (depth t n) else depth t m)"
proof -
  let ?d = "depth t n"
  have p: "t_sig_pending t' = (t_sig_pending t)[?d := pend t ?d OR bit32 n]"
    and i: "t_sig_info t' = (t_sig_info t)[n := (t_sig_info t ! n)[?d := info]]"
    using assms by (simp_all add: put_level_def Let_def)
  have lv: "levels (t_sig_pending t') m (if m = n then Suc ?d else depth t m)" for m
    using assms(1,2,5) levels_set by (auto simp: p sig_ok_levels)
  then have d: "depth t' m = (if m = n then Suc ?d else depth t m)" for m
    by (simp add: levels_iff)
  then show "depth t' m = (if m = n then Suc ?d else depth t m)" .
  have "sig_shape t'" using assms sig_shape_put by (simp add: sig_ok_def)
  with lv show "sig_ok t'" by (auto simp: sig_ok_levels d)
  have "length (t_sig_info t ! n) = 4" "n < length (t_sig_info t)"
    using assms(1,2) by (auto simp: sig_ok_def sig_shape_def)
  then show "signal_queue t' n = signal_queue t n @ [info]"
    using assms(5) by (simp add: signal_queue_def d i take_Suc_conv_app_nth)
  show "m \<noteq> n \<Longrightarrow> signal_queue t' m = signal_queue t m"
    by (simp add: signal_queue_def d i)
qed

lemma signal_of_nat:
  assumes "n < 32"
  shows "sigbit (of_nat (Suc n)) = bit32 n" "unat (of_nat (Suc n) - 1 :: i32) = n"
  using assms by (simp_all add: sigbit_def unat_of_nat_u32)

lemma pend_0_iff: "sig_ok t \<Longrightarrow> bit (pend t 0) n \<longleftrightarrow> 0 < depth t n"
  by (auto simp: sig_ok_levels levels_def)

lemma length_set_lowest [simp]: "length (set_lowest b ls) = length ls"
  by (simp add: set_lowest_def)

lemma length_clear_highest [simp]: "length (clear_highest b ls) = length ls"
  by (simp add: clear_highest_def)

lemma deliver_queue:
  assumes "sig_ok t" "n < 32" "t' = snd (deliver n t)"
  shows "sig_ok t'" "depth t' m = (if m = n then depth t n - 1 else depth t m)"
    "0 < depth t n \<Longrightarrow> fst (deliver n t) = hd (signal_queue t n)"
    "0 < depth t n \<Longrightarrow> signal_queue t' n = tl (signal_queue t n)"
    "m \<noteq> n \<Longrightarrow> signal_queue t' m = signal_queue t m"
proof -
  have shape: "sig_shape t" and lt: "levels (t_sig_pending t) m (depth t m)" for m
    using assms(1) by (auto simp: sig_ok_levels)
  then have len: "length (t_sig_info t ! n) = 4" "length (t_sig_info t) = 32"
    using assms(2) by (auto simp: sig_shape_def)
  then obtain a b c d where i: "t_sig_info t ! n = [a, b, c, d]"
    by (auto simp: length_Suc_conv numeral_eq_Suc)
  have p: "t_sig_pending t' = clear_highest (bit32 n) (t_sig_pending t)"
    and i': "t_sig_info t' = (t_sig_info t)[n := [b, c, d, d]]"
    using assms(3) i by (simp_all add: deliver_def Let_def)
  have lv: "levels (t_sig_pending t') m (if m = n then depth t n - 1 else depth t m)" for m
    using levels_clear [OF lt [of n]] lt by (auto simp: p)
  then have dp: "depth t' m = (if m = n then depth t n - 1 else depth t m)" for m
    by (simp add: levels_iff)
  then show "depth t' m = (if m = n then depth t n - 1 else depth t m)" .
  have "sig_shape t'"
    using shape assms(2,3) i by (auto simp: sig_shape_def deliver_def Let_def nth_list_update)
  with lv show "sig_ok t'" by (auto simp: sig_ok_levels dp)
  show "m \<noteq> n \<Longrightarrow> signal_queue t' m = signal_queue t m" by (simp add: signal_queue_def dp i')
  assume "0 < depth t n"
  then obtain e where e: "depth t n = Suc e" "e \<le> 3" using depth_le [of t n] by (cases "depth t n") auto
  then show "fst (deliver n t) = hd (signal_queue t n)" by (simp add: deliver_def Let_def signal_queue_def i)
  from e show "signal_queue t' n = tl (signal_queue t n)"
    using len assms(2) by (auto simp: signal_queue_def dp i i' numeral_eq_Suc le_Suc_eq)
qed

text \<open>The four levels of one signal are a queue of capacity four.\<close>

lemma signal_levels_queue:
  assumes n: "n < 32"
  shows "bounded_queue sig_ok (\<lambda>t. signal_queue t n) 4
    (\<lambda>info. enqueue_signal info (of_nat (Suc n))) (\<lambda>t. bit (pend t 0) n) (deliver n)"
proof unfold_locales
  fix t :: task_t and info :: siginfo_t assume t: "sig_ok t"
  note eq = enqueue_signal_eq [OF t n signal_of_nat(1) [OF n]]
  show "\<exists>t'. enqueue_signal info (of_nat (Suc n)) t = Some t' \<and> sig_ok t' \<and>
      signal_queue t' n = signal_queue t n @ [info]" if "length (signal_queue t n) < 4"
    using that put_level_queue(1,2) [OF t n signal_of_nat [OF n] _ refl] length_signal_queue [OF t n]
    by (simp add: eq del: of_nat_Suc)
  show "enqueue_signal info (of_nat (Suc n)) t = None" if "4 \<le> length (signal_queue t n)"
    using that length_signal_queue [OF t n] by (simp add: eq del: of_nat_Suc)
next
  fix t assume t: "sig_ok t"
  show "bit (pend t 0) n \<longleftrightarrow> signal_queue t n \<noteq> []"
    by (metis pend_0_iff [OF t] length_signal_queue [OF t n] length_greater_0_conv)
  show "\<exists>t'. deliver n t = (hd (signal_queue t n), t') \<and> sig_ok t' \<and>
      signal_queue t' n = tl (signal_queue t n)" if "signal_queue t n \<noteq> []"
    using that deliver_queue(1,3,4) [OF t n refl] length_signal_queue [OF t n]
    by (metis length_greater_0_conv prod.collapse)
  show "length (signal_queue t n) \<le> 4" using length_signal_queue [OF t n] depth_le by simp
qed

section \<open>The handler\<close>

lemma low_signal_least:
  "bit w n \<Longrightarrow> (\<And>m. m < n \<Longrightarrow> \<not> bit w m) \<Longrightarrow> low_signal w k = Some (k + n)"
proof (induction n arbitrary: w k)
  case 0
  then show ?case by (subst low_signal.simps) (simp add: and_1_eq_0)
next
  case (Suc n)
  have "\<not> bit w 0" using Suc.prems(2) by blast
  then have "low_signal w k = low_signal (drop_bit 1 w) (k + 1)"
    by (subst low_signal.simps) (simp add: and_1_eq_0)
  moreover have "low_signal (drop_bit 1 w) (k + 1) = Some (k + 1 + n)"
    using Suc.prems by (intro Suc.IH) (simp_all add: bit_drop_bit_eq)
  ultimately show ?case by simp
qed

lemma low_signal_nonzero:
  assumes "w \<noteq> 0"
  obtains n where "low_signal w 0 = Some n" "n < 32" "bit w n" "\<And>m. m < n \<Longrightarrow> \<not> bit w m"
proof -
  from assms obtain k where "bit w k" by (auto simp: u32_zero_bits)
  then obtain n where n: "bit w n" "\<And>m. m < n \<Longrightarrow> \<not> bit w m"
    using exists_least_iff [of "bit w"] by blast
  then have "low_signal w 0 = Some n" using low_signal_least [of w n 0] by simp
  then show ?thesis using that n bit_u32_lt [OF n(1)] by blast
qed

lemma deliver_count:
  assumes "sig_ok t" "n < 32" "0 < depth t n"
  shows "pending_count (snd (deliver n t)) < pending_count t"
proof -
  have "depth (snd (deliver n t)) m = (if m = n then depth t n - 1 else depth t m)" for m
    using deliver_queue(2) [OF assms(1,2) refl] .
  then show ?thesis
    unfolding pending_count_def using assms(2,3) by (intro sum_strict_mono_ex1) auto
qed

text \<open>
  Code that runs while the handler waits, or on its behalf, and leaves the task's pending signals
  and mask alone or takes signals away.
\<close>

definition quiet :: "(sys \<Rightarrow> sys) \<Rightarrow> bool" where
  "quiet f = (\<forall>s. current_task (f s) = current_task s \<and> (sig_ok (cur s) \<longrightarrow> sig_ok (cur (f s))) \<and>
     t_sigmask (cur (f s)) = t_sigmask (cur s) \<and> pending_count (cur (f s)) \<le> pending_count (cur s))"

lemma sig_ok_status [simp]: "sig_ok (t\<lparr>t_status := v\<rparr>) = sig_ok t" "pending_count (t\<lparr>t_status := v\<rparr>) = pending_count t"
  by (simp_all add: sig_ok_def sig_shape_def nested_def pending_count_def depth_def)

lemma signal_round_progress:
  assumes "sig_ok (cur s)" "quiet sched" "\<And>h sig. quiet (call h sig)"
  shows "\<exists>x. signal_round sched call s = Some x \<and>
    (case x of
       Inl r \<Rightarrow> (\<forall>s'. r = Inr (Returned s') \<longrightarrow> pend (cur s') 0 AND NOT (t_sigmask (cur s')) = 0)
     | Inr s' \<Rightarrow> sig_ok (cur s') \<and> pending_count (cur s') < pending_count (cur s))"
proof (cases "pend (cur s) 0 AND NOT (t_sigmask (cur s)) = 0")
  case True
  then show ?thesis by (simp add: signal_round_def)
next
  case False
  then obtain n where n: "low_signal (pend (cur s) 0 AND NOT (t_sigmask (cur s))) 0 = Some n"
    "n < 32" "bit (pend (cur s) 0 AND NOT (t_sigmask (cur s))) n" by (rule low_signal_nonzero)
  then have "0 < depth (cur s) n" using assms(1) pend_0_iff by (simp add: bit_and_iff)
  then have "pending_count (snd (deliver n (cur s))) < pending_count (cur s)"
    "sig_ok (snd (deliver n (cur s)))"
    using deliver_count [OF assms(1) n(2)] deliver_queue(1) [OF assms(1) n(2) refl] by auto
  then have base: "sig_ok (cur (upd_cur (\<lambda>t. snd (deliver n t)) s))"
    "pending_count (cur (upd_cur (\<lambda>t. snd (deliver n t)) s)) < pending_count (cur s)"
    by simp_all
  have after: "sig_ok (cur (f s2)) \<and> pending_count (cur (f s2)) < pending_count (cur s)"
    if "quiet f" "sig_ok (cur s2)" "pending_count (cur s2) < pending_count (cur s)" for f s2
    using that by (auto simp: quiet_def intro: le_less_trans)
  show ?thesis
    using False n(1) base after [OF assms(2)] after [OF assms(3)]
    by (cases "n = 18") (simp_all add: signal_round_def Let_def)
qed

lemma signal_handler_total:
  assumes "sig_ok (cur s)" "quiet sched" "\<And>h sig. quiet (call h sig)"
  shows "\<exists>r. signal_handler sched call s = Some r \<and>
    (\<forall>s'. r = Inr (Returned s') \<longrightarrow> pend (cur s') 0 AND NOT (t_sigmask (cur s')) = 0)"
  using assms(1)
proof (induction "pending_count (cur s)" arbitrary: s rule: less_induct)
  case less
  from signal_round_progress [where call = call, OF less.prems assms(2,3)] obtain x where
    x: "signal_round sched call s = Some x" "case x of
       Inl r \<Rightarrow> (\<forall>s'. r = Inr (Returned s') \<longrightarrow> pend (cur s') 0 AND NOT (t_sigmask (cur s')) = 0)
     | Inr s' \<Rightarrow> sig_ok (cur s') \<and> pending_count (cur s') < pending_count (cur s)"
    by blast
  show ?case
  proof (cases x)
    case (Inl r)
    with x show ?thesis by (subst signal_handler.simps) simp
  next
    case (Inr s')
    with x less.hyps [of s'] show ?thesis by (subst signal_handler.simps) simp
  qed
qed

section \<open>Properties\<close>

text \<open>A task with no signal pending and default dispositions.\<close>

definition sample_task :: task_t where
  "sample_task = \<lparr>t_id = 1, t_pid = 1, t_uid = 0, t_gid = 0, t_euid = 0, t_egid = 0,
     t_saved_uid = 0, t_saved_gid = 0, t_errno = 0, t_status = 0, t_exit_code = 0, t_sigmask = 0,
     t_sig_pending = [0, 0, 0, 0], t_sig_delivered = [0, 0, 0, 0],
     t_sig_info = replicate 32 (replicate 4 zero_siginfo),
     t_sig_action = replicate 32 \<lparr>sa_mask = 0, sa_flags = 0, sa_handler = 0\<rparr>,
     t_sig_altstack = \<lparr>ss_sp = 0, ss_size = 0, ss_flags = 0\<rparr>, t_procfs_node = 0, t_cwd = 0,
     t_root = 0, t_lock = MUTEX_INITIALIZER, t_parent = 0, t_main_thread = 4096, t_children = LINKED_LIST_INIT,
     t_threads = LINKED_LIST_INIT\<rparr>"

text \<open>The sample task at address 4096, alone in the task list, whose item is at address 8.\<close>

definition sample_sys :: sys where
  "sample_sys = \<lparr>tasks = \<lambda>_. sample_task,
     items = (\<lambda>_. LINKED_LIST_ITEM_INIT)(8 := \<lparr>item_val = 4096, item_next = NULL\<rparr>),
     tasks_list = LINKED_LIST_INIT\<lparr>ll_first := 8, ll_last := 8, ll_current := 8, ll_count := 1\<rparr>,
     current_task = 4096, schedule_lock = MUTEX_INITIALIZER\<rparr>"

lemma sample_task_ok: "sig_ok sample_task" "depth sample_task n = 0"
  by (simp_all add: sig_ok_def sig_shape_def nested_def depth_def sample_task_def)

lemma sample_sys_ok: "task_list_ok sample_sys [8]"
  by (simp add: task_list_ok_def ll_ok_def sample_sys_def next_of_item_def)

text \<open>C21. The four levels of a pending signal are a first-in first-out queue: over any interleaving
  of \<open>sigqueue\<close>'s enqueueing and the handler's delivery of one signal, the delivered
  informations followed by those still queued are the initially queued ones followed by the
  accepted ones, in order, and at most four wait at any time.\<close>

theorem signal_queue_fifo:
  assumes "sig_ok t" "n < 32"
  shows "\<exists>ins outs t'. queue_run (\<lambda>info. enqueue_signal info (of_nat (Suc n))) (\<lambda>t. bit (pend t 0) n)
      (deliver n) ops t = (ins, outs, t') \<and> sig_ok t' \<and>
    outs @ signal_queue t' n = signal_queue t n @ ins \<and> length (signal_queue t' n) \<le> 4"
  by (rule bounded_queue.run_fifo [OF signal_levels_queue [OF assms(2)] assms(1)])

theorem signal_queue_fifo_witness:
  "\<exists>ins outs t'. queue_run (\<lambda>info. enqueue_signal info (of_nat (Suc 9))) (\<lambda>t. bit (pend t 0) 9)
      (deliver 9) [Put zero_siginfo, Get] sample_task = (ins, outs, t') \<and> sig_ok t' \<and>
    outs @ signal_queue t' 9 = ins"
  using signal_queue_fifo [OF sample_task_ok(1), of 9 "[Put zero_siginfo, Get]"]
  by (auto simp: signal_queue_def sample_task_ok(2))

text \<open>C22. \<open>sigqueue\<close> on a valid signal finds the first task with the given thread id; when fewer than
  four occurrences of the signal wait it appends exactly one, carrying the value and the sender's
  identity, and then reschedules: of the state the scheduler is entered with only the pending words
  and the signal information of that task differ from before, all its other fields, the other tasks,
  the task list and the lock are the same, and so are the queues of its other signals.  Otherwise it
  returns \<open>EAGAIN\<close> and changes nothing.\<close>

theorem sigqueue_effect:
  assumes "task_list_ok s xs" "\<not> bad_signal sig"
    "find (\<lambda>c. t_id (item_task s c) = tid) xs = Some c" "a = item_val (items s c)"
    "sig_ok (tasks s a)" "n = unat (sig - 1)"
  shows "if depth (tasks s a) n < 4
    then \<exists>p i t1. t1 = (tasks s a)\<lparr>t_sig_pending := p, t_sig_info := i\<rparr> \<and>
      sigqueue sched tid sig val s = Some (ESUCCESS, sched (s\<lparr>tasks := (tasks s)(a := t1)\<rparr>)) \<and>
      sig_ok t1 \<and>
      signal_queue t1 n = signal_queue (tasks s a) n @ [new_siginfo SI_QUEUE val sig (cur s)] \<and>
      (\<forall>m. m = n \<or> signal_queue t1 m = signal_queue (tasks s a) m)
    else sigqueue sched tid sig val s = Some (EAGAIN, s)"
proof -
  from assms(2,6) have n: "n < 32" "sigbit sig = bit32 n" "unat (sig - 1) = n"
    by (auto elim: good_signal)
  have "c \<noteq> NULL" using find_Some_in [OF assms(3)] task_items_nonnull [OF assms(1)] by blast
  let ?info = "new_siginfo SI_QUEUE val sig (cur s)" and ?t = "tasks s a"
  have eq: "sigqueue sched tid sig val s =
      (case enqueue_signal ?info sig ?t of None \<Rightarrow> Some (EAGAIN, s)
       | Some t \<Rightarrow> Some (ESUCCESS, sched (upd_task a (\<lambda>_. t) s)))"
    unfolding assms(4) using assms(2,3) seek_tasks [OF assms(1)] \<open>c \<noteq> NULL\<close>
    by (simp add: sigqueue_def Let_def)
  show ?thesis
  proof (cases "depth ?t n < 4")
    case True
    let ?t1 = "put_level (depth ?t n) sig ?info ?t"
    note q = put_level_queue [where info = ?info, OF assms(5) n(1,2,3) True refl]
    have "sigqueue sched tid sig val s = Some (ESUCCESS, sched (s\<lparr>tasks := (tasks s)(a := ?t1)\<rparr>))"
      using True eq enqueue_signal_eq [OF assms(5) n(1,2)] by (simp add: upd_task_def)
    moreover have "\<exists>p i. ?t1 = ?t\<lparr>t_sig_pending := p, t_sig_info := i\<rparr>"
      unfolding put_level_def Let_def by blast
    moreover have "\<forall>m. m = n \<or> signal_queue ?t1 m = signal_queue ?t m" using q(3) by auto
    moreover note q(1,2)
    ultimately show ?thesis unfolding if_P [OF True] by blast
  next
    case False
    then show ?thesis using eq enqueue_signal_eq [OF assms(5) n(1,2)] by simp
  qed
qed

theorem sigqueue_effect_witness:
  "\<exists>s1. sigqueue id 1 10 77 sample_sys = Some (ESUCCESS, s1) \<and>
     signal_queue (tasks s1 4096) 9 = [new_siginfo SI_QUEUE 77 10 sample_task]"
proof -
  have bad: "\<not> bad_signal 10" by (simp add: bad_signal_def)
  have f: "find (\<lambda>c. t_id (item_task sample_sys c) = 1) [8] = Some 8"
    by (simp add: sample_sys_def sample_task_def)
  have t: "tasks sample_sys a = sample_task" "cur sample_sys = sample_task" for a
    by (simp_all add: sample_sys_def)
  have a: "4096 = item_val (items sample_sys 8)" by (simp add: sample_sys_def)
  show ?thesis
    using sigqueue_effect [OF sample_sys_ok bad f a _ refl, of id 77] sample_task_ok
    by (auto simp: t signal_queue_def)
qed

text \<open>A second \<open>kill\<close> is lost: sending a signal other than \<open>SIGHUP\<close> to a task that already has it
  pending leaves the task unchanged, whatever room the higher levels have.\<close>

theorem queue_signal_lost:
  assumes "\<not> bad_signal sig" "sig \<noteq> SIGHUP" "bit (pend t 0) (unat (sig - 1))"
  shows "queue_signal sender sig t = Inr t"
proof -
  obtain n where n: "n < 32" "sig = of_nat (Suc n)" "unat (sig - 1) = n" "sigbit sig = bit32 n"
    using assms(1) by (rule good_signal)
  have "n \<noteq> 0" using n(2) assms(2) by (cases n) (auto simp: SIGHUP_def)
  have "w AND sigbit sig \<noteq> 1" for w
  proof
    assume "w AND sigbit sig = 1"
    then have "bit (w AND sigbit sig) 0" by simp
    then show False using \<open>n \<noteq> 0\<close> by (simp only: n(4) bit_and_iff bit_bit32)
  qed
  moreover have "sig \<noteq> 0" using assms(1) by (auto simp: bad_signal_def)
  ultimately show ?thesis
    using assms(1,3) n by (simp add: queue_signal_def Let_def bit_simps)
qed

theorem queue_signal_lost_witness:
  "queue_signal sample_task 10 (sample_task\<lparr>t_sig_pending := [bit32 9, 0, 0, 0]\<rparr>) =
     Inr (sample_task\<lparr>t_sig_pending := [bit32 9, 0, 0, 0]\<rparr>)"
  by (rule queue_signal_lost) (simp_all add: bad_signal_def SIGHUP_def bit_simps)

text \<open>C23. The signal handler terminates and drains: as long as what runs on its behalf queues no new
  signals, it ends (returning, exiting the task or failing an assertion on a corrupt disposition)
  and when it returns no unmasked signal is pending.\<close>

theorem signal_handler_drains:
  assumes "sig_ok (cur s)" "quiet sched" "\<And>h sig. quiet (call h sig)"
  shows "\<exists>r. signal_handler sched call s = Some r \<and>
    (\<forall>s'. r = Inr (Returned s') \<longrightarrow> pend (cur s') 0 AND NOT (t_sigmask (cur s')) = 0)"
  using assms by (rule signal_handler_total)

theorem signal_handler_drains_witness:
  "\<exists>r. signal_handler id (\<lambda>_ _. id) sample_sys = Some r \<and>
     (\<forall>s'. r = Inr (Returned s') \<longrightarrow> pend (cur s') 0 AND NOT (t_sigmask (cur s')) = 0)"
  by (rule signal_handler_drains) (simp_all add: sample_sys_def sample_task_ok quiet_def)

end
