(* ===== verification/Scheduler.thy ===== *)
theory Scheduler
  imports Signal
begin

text \<open>
  The scheduler and the process calls of \<open>kernel/scheduler.c\<close>.  Task selection works on the global
  list with its cursor, exactly as the macros of \<open>linkedlist.h\<close> move it.  Whether a task was just
  resumed and whether it has a kernel stack is known to the architecture code and is an argument;
  so is the time the timer shows.  \<open>exit\<close> releases resources of other components (descriptors,
  environment, address space), whose effect on this state is an argument too.
\<close>

section \<open>Task selection\<close>

definition set_tasks_list :: "ll_list \<Rightarrow> sys \<Rightarrow> sys" where
  "set_tasks_list l s = s\<lparr>tasks_list := l\<rparr>"

definition move_first :: "sys \<Rightarrow> addr \<times> sys" where
  "move_first s = (let (v, l) = MOVE_FIRST (items s) (tasks_list s) in (v, set_tasks_list l s))"

definition move_next :: "sys \<Rightarrow> addr \<times> sys" where
  "move_next s = (let (v, l) = MOVE_NEXT (items s) (tasks_list s) in (v, set_tasks_list l s))"

text \<open>Wake up a waiting task that has a signal.\<close>

definition wake :: "addr \<Rightarrow> sys \<Rightarrow> sys" where
  "wake a s =
     (if pend (tasks s a) 0 \<noteq> 0 \<and> t_status (tasks s a) = TASK_STATE_WAITING
      then upd_task a (\<lambda>t. t\<lparr>t_status := TASK_STATE_RUNNING\<rparr>) s else s)"

text \<open>
  The \<open>while (1)\<close> loop; \<open>x\<close> counts how often the end of the list was met.  An empty list makes
  the loop access a null task.
\<close>

partial_function (option) select_loop :: "addr \<Rightarrow> nat \<Rightarrow> addr \<Rightarrow> sys \<Rightarrow> (addr \<times> sys) run" where
  "select_loop idle x tmp s =
     (if tmp = NULL \<and> x > 0 then Some (Inr (idle, s))
      else
        let (tmp1, s1) = (if tmp = NULL then move_first s else (tmp, s));
            x1 = (if tmp = NULL then x + 1 else x) in
        if tmp1 = NULL then Some (Inl Null_Deref)
        else
          let s2 = wake tmp1 s1;
              tmp2 = (if tmp1 = current_task s2 \<and> t_status (cur s2) \<noteq> TASK_STATE_RUNNING
                      then idle else tmp1) in
          if t_status (tasks s2 tmp2) = TASK_STATE_RUNNING then Some (Inr (tmp2, s2))
          else let (v, s3) = move_next s2 in select_loop idle x1 v s3)"

declare select_loop.simps [code]

text \<open>What the scheduler decided: return to the caller, or load the state of a task, with or
  without running its signal handler first.\<close>

datatype decision = Stay | Load addr | Load_And_Signal addr u32

definition schedule_prelocked :: "addr \<Rightarrow> bool \<Rightarrow> (addr \<Rightarrow> bool) \<Rightarrow> sys \<Rightarrow> (decision \<times> sys) run" where
  "schedule_prelocked idle resumed has_stack s =
     (let unlock = (\<lambda>s. Some (bindE (mutex_release (schedule_lock s))
            (\<lambda>l. Inr (Stay, put_schedule_lock l s))));
          switch = (\<lambda>r. bindR r (\<lambda>(tmp, s).
            if tmp = idle \<and> pend (tasks s tmp) 0 \<noteq> 0 then Some (Inl Assert_Failed)
            else if \<not> has_stack tmp \<and> tmp \<noteq> idle then Some (Inl Assert_Failed)
            else if pend (tasks s tmp) 0 = 0 then Some (Inr (Load tmp, s))
            else Some (Inr (Load_And_Signal tmp (pend (tasks s tmp) 0), s)))) in
      if resumed then unlock s
      else if current_task s = idle then
        (if ll_count (tasks_list s) \<noteq> 0
         then let (tmp, s1) = move_first s in switch (select_loop idle 0 tmp s1)
         else unlock s)
      else if next_of_item (items s) (ll_current (tasks_list s)) = NULL \<and> ll_count (tasks_list s) = 0
      then switch (select_loop idle 0 idle s)
      else let (tmp, s1) = move_next s in switch (select_loop idle 0 tmp s1))"

definition schedule :: "addr \<Rightarrow> bool \<Rightarrow> (addr \<Rightarrow> bool) \<Rightarrow> sys \<Rightarrow> (decision \<times> sys) run" where
  "schedule idle resumed has_stack s =
     bindR (Some (mutex_try (schedule_lock s))) (\<lambda>(ok, l).
       let s1 = put_schedule_lock l s in
       if \<not> ok then Some (Inr (Stay, s1)) else schedule_prelocked idle resumed has_stack s1)"

definition gettaskcount :: "sys \<Rightarrow> u32" where
  "gettaskcount s = ll_count (tasks_list s)"

definition scheduler_chdir :: "addr \<Rightarrow> sys \<Rightarrow> sys" where
  "scheduler_chdir node s = upd_cur (\<lambda>t. t\<lparr>t_cwd := node\<rparr>) s"

definition scheduler_getcwd :: "sys \<Rightarrow> addr outcome" where
  "scheduler_getcwd s = bindE (assertE (current_task s \<noteq> NULL)) (\<lambda>_. Inr (t_cwd (cur s)))"

section \<open>Identity\<close>

definition getpid :: "sys \<Rightarrow> i32 outcome" where
  "getpid s = bindE (assertE (current_task s \<noteq> NULL)) (\<lambda>_. Inr (t_pid (cur s)))"

definition gettid :: "sys \<Rightarrow> i32 outcome" where
  "gettid s = bindE (assertE (current_task s \<noteq> NULL)) (\<lambda>_. Inr (t_id (cur s)))"

definition getuid :: "sys \<Rightarrow> i32 outcome" where
  "getuid s = bindE (assertE (current_task s \<noteq> NULL)) (\<lambda>_. Inr (t_uid (cur s)))"

definition getgid :: "sys \<Rightarrow> i32 outcome" where
  "getgid s = bindE (assertE (current_task s \<noteq> NULL)) (\<lambda>_. Inr (t_gid (cur s)))"

definition geteuid :: "task_t \<Rightarrow> i32" where
  "geteuid t = t_euid t"

definition getegid :: "task_t \<Rightarrow> i32" where
  "getegid t = t_egid t"

definition setuid :: "i32 \<Rightarrow> task_t \<Rightarrow> i32 \<times> task_t" where
  "setuid uid t =
     (if t_euid t = 0 then (0, t\<lparr>t_uid := uid, t_euid := uid\<rparr>)
      else if uid = t_uid t then (0, t\<lparr>t_euid := uid\<rparr>)
      else (-1, t\<lparr>t_errno := EPERM\<rparr>))"

definition setgid :: "i32 \<Rightarrow> task_t \<Rightarrow> i32 \<times> task_t" where
  "setgid gid t =
     (if t_euid t = 0 then (0, t\<lparr>t_gid := gid, t_egid := gid\<rparr>)
      else if t_gid t = gid then (0, t\<lparr>t_egid := gid\<rparr>)
      else (-1, t\<lparr>t_errno := EPERM\<rparr>))"

definition seteuid :: "i32 \<Rightarrow> task_t \<Rightarrow> i32 \<times> task_t" where
  "seteuid uid t =
     (if t_uid t = uid \<or> t_uid t = 0 then (0, t\<lparr>t_euid := uid\<rparr>)
      else (-1, t\<lparr>t_errno := EPERM\<rparr>))"

definition setegid :: "i32 \<Rightarrow> task_t \<Rightarrow> i32 \<times> task_t" where
  "setegid gid t =
     (if t_gid t = gid \<or> t_uid t = 0 then (0, t\<lparr>t_egid := gid\<rparr>)
      else (-1, t\<lparr>t_errno := EPERM\<rparr>))"

section \<open>Waiting for the end of tasks\<close>

text \<open>Seek and remove on a list held in the state, with the freed item.\<close>

definition seek_remove :: "ll_heap \<Rightarrow> (addr \<Rightarrow> bool) \<Rightarrow> ll_list \<Rightarrow> (addr \<times> ll_list) option" where
  "seek_remove h cond l =
     (case SEEK_UNTIL h cond (LINKED_LIST_ITER_INIT l) of
        None \<Rightarrow> None
      | Some it \<Rightarrow> (case REMOVE_CURRENT h l it of (a, l', _) \<Rightarrow> Some (a, l')))"

abbreviation get_task_lock :: "addr \<Rightarrow> sys \<Rightarrow> mutex_t" where
  "get_task_lock a s \<equiv> t_lock (tasks s a)"

abbreviation put_task_lock :: "addr \<Rightarrow> mutex_t \<Rightarrow> sys \<Rightarrow> sys" where
  "put_task_lock a l s \<equiv> upd_task a (\<lambda>t. t\<lparr>t_lock := l\<rparr>) s"

text \<open>
  \<open>free_task_entry\<close>; the result lists what goes to \<open>free\<close>: the list items, the procfs node and the
  task itself.  Freeing the kernel stack and unlinking the procfs node are left to the components
  that own them.
\<close>

definition free_child_item :: "addr \<Rightarrow> (sys \<Rightarrow> sys) list \<Rightarrow> sys \<Rightarrow> (addr list \<times> sys \<times> (sys \<Rightarrow> sys) list) run" where
  "free_child_item t envs s =
     (let p = t_parent (tasks s t) in
      if p = NULL then Some (Inr ([], s, envs))
      else
        bindR (mutex_wait (get_task_lock p) (put_task_lock p) envs s) (\<lambda>(s, es).
        case seek_remove (items s) (\<lambda>c. item_val (items s c) = t) (t_children (tasks s p)) of
          None \<Rightarrow> None
        | Some (a, l) \<Rightarrow>
            let s = upd_task p (\<lambda>r. r\<lparr>t_children := l\<rparr>) s in
            Some (bindE (mutex_release (get_task_lock p s)) (\<lambda>k. Inr ([a], put_task_lock p k s, es)))))"

definition free_task_entry :: "addr \<Rightarrow> (sys \<Rightarrow> sys) list \<Rightarrow> sys \<Rightarrow>
    (i32 \<times> addr list \<times> sys \<times> (sys \<Rightarrow> sys) list) run" where
  "free_task_entry t envs s =
     (if t = NULL \<or> t_main_thread (tasks s t) = NULL then Some (Inl Assert_Failed)
      else if ll_count (tasks_list s) = 0 then Some (Inr (-1, [], s, envs))
      else
        bindR (if t \<noteq> t_main_thread (tasks s t) then Some (Inr ([], s, envs))
               else free_child_item t envs s) (\<lambda>(freed, s, es).
        bindR (mutex_wait schedule_lock put_schedule_lock es s) (\<lambda>(s, es).
        case seek_remove (items s) (\<lambda>c. item_val (items s c) = t) (tasks_list s) of
          None \<Rightarrow> None
        | Some (a, l) \<Rightarrow>
            let s = set_tasks_list l s in
            Some (bindE (mutex_release (schedule_lock s)) (\<lambda>k.
              Inr (t_id (tasks s t), freed @ [a, t_procfs_node (tasks s t), t],
                   put_schedule_lock k s, es))))))"

definition waitid :: "i32 \<Rightarrow> i32 \<Rightarrow> i32" where
  "waitid pid kind = ENOSYS"

text \<open>\<open>wait\<close> moves the cursor of the children list; the condition is the one of the source.\<close>

definition wait :: "(sys \<Rightarrow> sys) list \<Rightarrow> sys \<Rightarrow> (i32 \<times> addr list \<times> sys \<times> (sys \<Rightarrow> sys) list) run" where
  "wait envs s =
     (if ll_count (tasks_list s) = 0 then Some (Inl Assert_Failed)
      else
        let cl = t_children (cur s) in
        case SEEK_UNTIL (items s) (\<lambda>c. t_status (item_task s c) \<noteq> TASK_STATE_ZOMBIE)
               (LINKED_LIST_ITER_INIT cl) of
          None \<Rightarrow> None
        | Some it \<Rightarrow>
            let s = upd_cur (\<lambda>t. t\<lparr>t_children := cl\<lparr>ll_current := it_current it\<rparr>\<rparr>) s in
            free_task_entry (item_val (items s (it_current it))) envs s)"

text \<open>The search of \<open>waitpid\<close>, which does not mention the pid it was asked for.\<close>

definition waitpid_seek :: "sys \<Rightarrow> addr option" where
  "waitpid_seek s =
     Option.bind (SEEK_UNTIL (items s) (\<lambda>c. t_pid (item_task s c) \<noteq> 0 \<and>
         t_main_thread (item_task s c) \<noteq> item_val (items s c)) (LINKED_LIST_ITER_INIT (tasks_list s)))
       (\<lambda>it. Some (it_current it))"

function waitpid_loop :: "addr \<Rightarrow> (sys \<Rightarrow> sys) list \<Rightarrow> sys \<Rightarrow> (addr option \<times> sys \<times> (sys \<Rightarrow> sys) list) run" where
  "waitpid_loop c envs s =
     (if c \<noteq> NULL \<and> t_status (item_task s c) \<noteq> TASK_STATE_ZOMBIE then
        bindR (pause envs s) (\<lambda>x.
        bindR (mutex_wait schedule_lock put_schedule_lock (snd x) (fst x)) (\<lambda>y.
          if ll_count (tasks_list (fst y)) = 0 then
            Some (bindE (mutex_release (schedule_lock (fst y)))
              (\<lambda>k. Inr (None, put_schedule_lock k (fst y), snd y)))
          else
            bindR (case waitpid_seek (fst y) of None \<Rightarrow> None | Some c' \<Rightarrow> Some (Inr c')) (\<lambda>c'.
            bindR (Some (mutex_release (schedule_lock (fst y)))) (\<lambda>k.
              waitpid_loop c' (snd y) (put_schedule_lock k (fst y))))))
      else Some (Inr (Some c, s, envs)))"
  by pat_completeness auto
termination
proof (relation "measure (\<lambda>(c, envs, s). length envs)", goal_cases)
  case (2 c envs s x y c' k)
  have "length (snd x) < length envs" using 2(2) by (rule pause_envs)
  moreover have "length (snd y) \<le> length (snd x)"
    using mutex_wait_envs [of schedule_lock put_schedule_lock "snd x" "fst x" "fst y" "snd y"] 2(3)
    by simp
  ultimately show ?case by simp
qed simp

text \<open>The second component of the result is what was stored through \<open>status\<close>.\<close>

definition waitpid :: "i32 \<Rightarrow> (sys \<Rightarrow> sys) list \<Rightarrow> sys \<Rightarrow>
    (i32 \<times> i32 option \<times> addr list \<times> sys \<times> (sys \<Rightarrow> sys) list) run" where
  "waitpid pid envs s =
     (if pid = -1 then
        bindR (wait envs s) (\<lambda>(r, freed, s, es). Some (Inr (r, None, freed, s, es)))
      else
        bindR (mutex_wait schedule_lock put_schedule_lock envs s) (\<lambda>(s, es).
        case waitpid_seek s of
          None \<Rightarrow> None
        | Some c \<Rightarrow>
            bindR (Some (mutex_release (schedule_lock s))) (\<lambda>k.
            let s = put_schedule_lock k s in
            if item_val (items s c) = NULL \<or> t_parent (item_task s c) \<noteq> current_task s
            then Some (Inr (ECHILD, None, [], s, es))
            else
              bindR (waitpid_loop c es s) (\<lambda>(found, s, es).
              case found of
                None \<Rightarrow> Some (Inr (-1, None, [], s, es))
              | Some c \<Rightarrow>
                  if c = NULL then Some (Inl Assert_Failed)
                  else
                    let status = t_exit_code (item_task s c) in
                    bindR (free_task_entry (item_val (items s c)) es s) (\<lambda>(r, freed, s, es).
                    Some (Inr (r, Some status, freed, s, es)))))))"

section \<open>Exit and sleep\<close>

text \<open>Kill every thread of the list in turn; \<open>envs\<close> covers the lock and each \<open>schedule()\<close>.\<close>

partial_function (option) kill_threads :: "(sys \<Rightarrow> sys) \<Rightarrow> ll_iter \<Rightarrow> sys \<Rightarrow> sys run" where
  "kill_threads sched it s =
     (if it_current it = NULL then Some (Inr s)
      else Option.bind (pthread_kill [] (t_id (item_task s (it_current it))) SIGKILL s)
        (\<lambda>r. if isl r then Some (Inl (projl r))
             else let s1 = sched (snd (projr r)) in
               kill_threads sched (snd (iter_next (items s1) it)) s1))"

declare kill_threads.simps [code]

text \<open>Orphan the children one by one; the freed items are collected.\<close>

partial_function (option) orphan_children :: "addr list \<Rightarrow> sys \<Rightarrow> (addr list \<times> sys) option" where
  "orphan_children freed s =
     (if ll_first (t_children (cur s)) = NULL then Some (freed, s)
      else
        let c = ll_first (t_children (cur s));
            s = upd_task (item_val (items s c)) (\<lambda>t. t\<lparr>t_parent := NULL\<rparr>) s;
            (l, a) = remove_first_free (items s) (t_children (cur s)) in
        orphan_children (freed @ [a]) (upd_cur (\<lambda>t. t\<lparr>t_children := l\<rparr>) s))"

declare orphan_children.simps [code]

text \<open>
  \<open>exit\<close> up to the final \<open>schedule_prelocked()\<close>, which does not come back.  \<open>sched\<close> is the effect of
  \<open>schedule()\<close>, \<open>teardown\<close> what the release of the main thread's resources does to this state.
\<close>

definition exit :: "(sys \<Rightarrow> sys) \<Rightarrow> (sys \<Rightarrow> sys) \<Rightarrow> i32 \<Rightarrow> (sys \<Rightarrow> sys) list \<Rightarrow> sys \<Rightarrow>
    (addr list \<times> sys) run" where
  "exit sched teardown code envs s =
     (if t_id (cur s) = 0 \<or> ll_count (t_threads (cur s)) = 0 then Some (Inl Assert_Failed)
      else
        bindR (if current_task s = t_main_thread (cur s)
               then kill_threads sched (LINKED_LIST_ITER_INIT (t_threads (cur s))) s
               else Some (Inr s)) (\<lambda>s.
        bindR (if ll_count (t_children (cur s)) \<noteq> 0 then
                 bindR (mutex_wait (get_task_lock (current_task s)) (put_task_lock (current_task s)) envs s)
                   (\<lambda>(s, es). case orphan_children [] s of
                      None \<Rightarrow> None
                    | Some (freed, s) \<Rightarrow>
                        Some (bindE (mutex_release (get_task_lock (current_task s) s))
                          (\<lambda>k. Inr (freed, put_task_lock (current_task s) k s, es))))
               else Some (Inr ([], s, envs))) (\<lambda>(freed, s, es).
        bindR (mutex_busywait schedule_lock put_schedule_lock es s) (\<lambda>(s, es).
        let s = upd_cur (\<lambda>t. t\<lparr>t_status := TASK_STATE_ZOMBIE, t_exit_code := code\<rparr>) s;
            mt = t_main_thread (cur s) in
        bindR (if current_task s = mt then Some (Inr (freed, teardown s))
               else case seek_remove (items s) (\<lambda>c. item_val (items s c) = current_task s)
                           (t_threads (tasks s mt)) of
                   None \<Rightarrow> None
                 | Some (a, l) \<Rightarrow>
                     Some (Inr (freed @ [a], upd_task mt (\<lambda>t. t\<lparr>t_threads := l\<rparr>) s))) (\<lambda>(freed, s).
        if t_parent (cur s) \<noteq> NULL then
          bindR (pthread_kill_nolock (t_id (tasks s (t_parent (cur s)))) 20 s) (\<lambda>(_, s).
            Some (Inr (freed, s)))
        else Some (Inr (freed, s)))))))"

text \<open>\<open>sleep_ticks\<close>: the readings of the timer at each turn of the loop.\<close>

fun sleep_until :: "u32 \<Rightarrow> u32 list \<Rightarrow> (u32 list) option" where
  "sleep_until t [] = None"
| "sleep_until t (now # rest) = (if now < t then sleep_until t rest else Some rest)"

definition sleep_ticks :: "u32 \<Rightarrow> u32 list \<Rightarrow> (u32 list) run" where
  "sleep_ticks ticks readings =
     (case readings of
        [] \<Rightarrow> None
      | now # rest \<Rightarrow>
          let t = now + ticks in
          if \<not> t > ticks then Some (Inl Assert_Failed)
          else (case sleep_until t rest of None \<Rightarrow> None | Some r \<Rightarrow> Some (Inr r)))"

section \<open>Credential calls\<close>

datatype cred_call = Setuid i32 | Setgid i32 | Seteuid i32 | Setegid i32

fun cred_step :: "cred_call \<Rightarrow> task_t \<Rightarrow> task_t" where
  "cred_step (Setuid u) t = snd (setuid u t)"
| "cred_step (Setgid g) t = snd (setgid g t)"
| "cred_step (Seteuid u) t = snd (seteuid u t)"
| "cred_step (Setegid g) t = snd (setegid g t)"

section \<open>Round robin\<close>

definition runnable :: "task_t \<Rightarrow> bool" where
  "runnable t = (t_status t = TASK_STATE_RUNNING \<or>
     t_status t = TASK_STATE_WAITING \<and> pend t 0 \<noteq> 0)"

text \<open>
  The state the scheduler expects: a well-formed task list of distinct tasks other than the idle
  task, an idle task that is ready and has no signals, and, unless the idle task runs, the cursor
  on the item of the current task.
\<close>

definition sched_ok :: "addr \<Rightarrow> sys \<Rightarrow> addr list \<Rightarrow> bool" where
  "sched_ok idle s xs = (task_list_ok s xs \<and> length xs < 2 ^ 32 \<and> distinct (vals (items s) xs) \<and>
     NULL \<notin> set (vals (items s) xs) \<and> idle \<notin> set (vals (items s) xs) \<and> idle \<noteq> NULL \<and>
     t_status (tasks s idle) = TASK_STATE_RUNNING \<and> pend (tasks s idle) 0 = 0 \<and>
     (current_task s = idle \<or>
      ll_current (tasks_list s) \<in> set xs \<and> item_val (items s (ll_current (tasks_list s))) = current_task s))"

text \<open>The items in the order in which they get their turn: those behind the current task, those
  before it, the current task last.  After the idle task it is the order of the list.\<close>

definition turn_order :: "addr \<Rightarrow> sys \<Rightarrow> addr list \<Rightarrow> addr list" where
  "turn_order idle s xs =
     (if current_task s = idle then xs
      else
        let c = ll_current (tasks_list s) in
        tl (dropWhile (\<lambda>x. x \<noteq> c) xs) @ takeWhile (\<lambda>x. x \<noteq> c) xs @ [c])"

definition next_task :: "addr \<Rightarrow> sys \<Rightarrow> addr list \<Rightarrow> addr" where
  "next_task idle s xs =
     (case find (\<lambda>c. runnable (item_task s c)) (turn_order idle s xs) of
        None \<Rightarrow> idle | Some c \<Rightarrow> item_val (items s c))"

section \<open>Lemmas\<close>

text \<open>The state with the cursor of the task list moved.\<close>

definition cursor :: "addr \<Rightarrow> sys \<Rightarrow> sys" where
  "cursor c s = s\<lparr>tasks_list := (tasks_list s)\<lparr>ll_current := c\<rparr>\<rparr>"

lemma cursor_simps [simp]:
  "tasks (cursor c s) = tasks s" "items (cursor c s) = items s" "current_task (cursor c s) = current_task s"
  "schedule_lock (cursor c s) = schedule_lock s" "cursor d (cursor c s) = cursor d s"
  "ll_current (tasks_list (cursor c s)) = c" "ll_first (tasks_list (cursor c s)) = ll_first (tasks_list s)"
  "ll_count (tasks_list (cursor c s)) = ll_count (tasks_list s)"
  "upd_task a f (cursor c s) = cursor c (upd_task a f s)"
  by (simp_all add: cursor_def upd_task_def)

lemma move_first_cursor:
  "move_first s = (current_val (items s) (ll_first (tasks_list s)), cursor (ll_first (tasks_list s)) s)"
  by (simp add: move_first_def MOVE_FIRST_def set_tasks_list_def cursor_def Let_def)

lemma move_next_cursor:
  "move_next s = (current_val (items s) (next_of_item (items s) (ll_current (tasks_list s))),
     cursor (next_of_item (items s) (ll_current (tasks_list s))) s)"
  by (simp add: move_next_def MOVE_NEXT_def set_tasks_list_def cursor_def Let_def)

lemma wake_cursor [simp]: "wake a (cursor c s) = cursor c (wake a s)"
  by (simp add: wake_def)

lemma wake_simps [simp]:
  "items (wake a s) = items s" "tasks_list (wake a s) = tasks_list s"
  "current_task (wake a s) = current_task s" "schedule_lock (wake a s) = schedule_lock s"
  "pend (tasks (wake a s) b) k = pend (tasks s b) k"
  by (simp_all add: wake_def)

lemma wake_status:
  "t_status (tasks (wake a s) b) = TASK_STATE_RUNNING \<longleftrightarrow>
   (if b = a then runnable (tasks s a) else t_status (tasks s b) = TASK_STATE_RUNNING)"
  by (auto simp: wake_def runnable_def)

lemma wake_not_runnable: "\<not> runnable (tasks s a) \<Longrightarrow> wake a s = s"
  by (auto simp: wake_def runnable_def)

definition stop_here :: "sys \<Rightarrow> addr \<Rightarrow> bool" where
  "stop_here s c = (runnable (item_task s c) \<or> item_val (items s c) = current_task s)"

lemma select_segment:
  assumes "chain (next_of_item (items s)) c ys NULL" "NULL \<notin> set (vals (items s) ys)"
    "idle \<notin> set (vals (items s) ys)" "t_status (tasks s idle) = TASK_STATE_RUNNING"
  shows "select_loop idle x (current_val (items s) c) (cursor c s) =
    (case find (stop_here s) ys of
       None \<Rightarrow> select_loop idle x NULL (cursor NULL s)
     | Some y \<Rightarrow> Some (Inr (if runnable (item_task s y) then item_val (items s y) else idle,
         cursor y (wake (item_val (items s y)) s))))"
  using assms(1-3)
proof (induction ys arbitrary: c)
  case Nil
  then show ?case by (simp add: current_val_def)
next
  case (Cons y ys)
  let ?a = "item_val (items s y)"
  have c: "c = y" "y \<noteq> NULL" "?a \<noteq> NULL" "idle \<noteq> ?a"
    using Cons.prems by (auto simp: vals_def)
  then have v: "current_val (items s) c = ?a" by (simp add: current_val_def)
  show ?case
  proof (cases "runnable (tasks s ?a)")
    case True
    then show ?thesis
      using c v by (subst select_loop.simps) (simp add: stop_here_def wake_status Let_def)
  next
    case nr: False
    then have w: "wake ?a s = s" "t_status (tasks s ?a) \<noteq> TASK_STATE_RUNNING"
      by (simp_all add: wake_not_runnable) (simp add: runnable_def)
    show ?thesis
    proof (cases "?a = current_task s")
      case True
      then show ?thesis
        using nr c v w assms(4) by (subst select_loop.simps) (simp add: stop_here_def Let_def)
    next
      case False
      have "select_loop idle x (current_val (items s) c) (cursor c s) =
          select_loop idle x (current_val (items s) (next_of_item (items s) y)) (cursor (next_of_item (items s) y) s)"
        using False nr c v w by (subst select_loop.simps) (simp add: move_next_cursor Let_def)
      also have "\<dots> = (case find (stop_here s) ys of
           None \<Rightarrow> select_loop idle x NULL (cursor NULL s)
         | Some y \<Rightarrow> Some (Inr (if runnable (item_task s y) then item_val (items s y) else idle,
             cursor y (wake (item_val (items s y)) s))))"
        using Cons.prems by (intro Cons.IH) (auto simp: vals_def)
      also have "\<not> stop_here s y" using False nr by (simp add: stop_here_def)
      ultimately show ?thesis by simp
    qed
  qed
qed

text \<open>At the first end of the list the search starts over from the first item.\<close>

lemma select_wrap:
  assumes "chain (next_of_item (items s)) (ll_first (tasks_list s)) xs NULL" "xs \<noteq> []"
    "NULL \<notin> set (vals (items s) xs)"
  shows "select_loop idle 0 NULL (cursor c s) =
    select_loop idle 1 (current_val (items s) (ll_first (tasks_list s))) (cursor (ll_first (tasks_list s)) s)"
proof -
  have "current_val (items s) (ll_first (tasks_list s)) \<noteq> NULL"
    using assms by (cases xs) (auto simp: current_val_def vals_def)
  then show ?thesis
    unfolding select_loop.simps [of idle 0 NULL "cursor c s"]
      select_loop.simps [of idle 1 "current_val (items s) (ll_first (tasks_list s))"]
    by (simp add: move_first_cursor Let_def)
qed

lemma sched_okD:
  assumes "sched_ok idle s xs"
  shows "chain (next_of_item (items s)) (ll_first (tasks_list s)) xs NULL"
    "NULL \<notin> set (vals (items s) xs)" "idle \<notin> set (vals (items s) xs)"
    "t_status (tasks s idle) = TASK_STATE_RUNNING" "pend (tasks s idle) 0 = 0" "idle \<noteq> NULL"
    "xs \<noteq> [] \<Longrightarrow> ll_count (tasks_list s) \<noteq> 0" "distinct (vals (items s) xs)"
  using assms unat_of_nat_u32 [of "length xs"]
  by (auto simp: sched_ok_def task_list_ok_def ll_ok_def)

lemma find_stop_here:
  "current_task s \<notin> set (vals (items s) ys) \<Longrightarrow> find (stop_here s) ys = find (\<lambda>c. runnable (item_task s c)) ys"
  by (induction ys) (auto simp: stop_here_def vals_def)

lemma wake_idle: "pend (tasks s idle) 0 = 0 \<Longrightarrow> wake idle s = s"
  by (simp add: wake_def)

lemma select_after_idle:
  assumes "sched_ok idle s xs" "xs \<noteq> []" "current_task s = idle"
  shows "\<exists>c. select_loop idle 0 (current_val (items s) (ll_first (tasks_list s)))
      (cursor (ll_first (tasks_list s)) s) =
    Some (Inr (next_task idle s xs, cursor c (wake (next_task idle s xs) s)))"
proof -
  note ok = sched_okD [OF assms(1)]
  let ?first = "ll_first (tasks_list s)"
  have f: "find (stop_here s) xs = find (\<lambda>c. runnable (item_task s c)) xs"
    using find_stop_here [of s xs] ok(3) assms(3) by simp
  note seg = select_segment [OF ok(1-4)]
  show ?thesis
  proof (cases "find (\<lambda>c. runnable (item_task s c)) xs")
    case None
    have "select_loop idle 0 (current_val (items s) ?first) (cursor ?first s) =
        select_loop idle 0 NULL (cursor NULL s)" using seg [of 0] None f by simp
    also have "\<dots> = select_loop idle 1 (current_val (items s) ?first) (cursor ?first s)"
      using select_wrap [OF ok(1) assms(2) ok(2)] .
    also have "\<dots> = select_loop idle 1 NULL (cursor NULL s)" using seg [of 1] None f by simp
    also have "\<dots> = Some (Inr (idle, cursor NULL s))" by (subst select_loop.simps) simp
    finally show ?thesis
      using None assms(3) ok(5) by (auto simp: next_task_def turn_order_def wake_idle)
  next
    case (Some y)
    then have "runnable (item_task s y)" using find_Some_in by fastforce
    with Some f seg [of 0] assms(3) show ?thesis
      by (auto simp: next_task_def turn_order_def)
  qed
qed

lemma select_after_task:
  assumes "sched_ok idle s xs" "current_task s \<noteq> idle"
  defines "nx \<equiv> next_of_item (items s) (ll_current (tasks_list s))"
  shows "\<exists>c. select_loop idle 0 (current_val (items s) nx) (cursor nx s) =
    Some (Inr (next_task idle s xs, cursor c (wake (next_task idle s xs) s)))"
proof -
  note ok = sched_okD [OF assms(1)]
  let ?c = "ll_current (tasks_list s)" and ?run = "\<lambda>c. runnable (item_task s c)"
  have c: "?c \<in> set xs" "item_val (items s ?c) = current_task s"
    using assms(1,2) by (auto simp: sched_ok_def)
  then obtain us vs where xs: "xs = us @ ?c # vs" "?c \<notin> set us" by (meson split_list_first)
  have cur: "current_task s \<notin> set (vals (items s) us)" "current_task s \<notin> set (vals (items s) vs)"
    using ok(8) c(2) by (subst (asm) xs(1); auto simp: vals_def)+
  have order: "turn_order idle s xs = vs @ us @ [?c]"
    using xs assms(2) by (subst xs(1)) (simp add: turn_order_def Let_def split_at_first)
  have sub: "set (vals (items s) vs) \<subseteq> set (vals (items s) xs)"
    using arg_cong [OF xs(1), of set] by (auto simp: vals_def)
  have chain_vs: "chain (next_of_item (items s)) nx vs NULL"
    using ok(1) unfolding nx_def by (subst (asm) xs(1)) auto
  have seg: "select_loop idle 0 (current_val (items s) nx) (cursor nx s) =
    (case find ?run vs of
       None \<Rightarrow> select_loop idle 0 NULL (cursor NULL s)
     | Some y \<Rightarrow> Some (Inr (if ?run y then item_val (items s y) else idle,
         cursor y (wake (item_val (items s y)) s))))"
    using select_segment [OF chain_vs, of idle 0] ok(2-4) sub find_stop_here [OF cur(2)] by auto
  show ?thesis
  proof (cases "find ?run vs")
    case (Some y)
    then have "?run y" using find_Some_in by fastforce
    with Some seg order show ?thesis by (auto simp: next_task_def find_append_eq)
  next
    case None
    have stop: "find (stop_here s) xs = Some (case find ?run us of None \<Rightarrow> ?c | Some y \<Rightarrow> y)"
      using find_stop_here [OF cur(1)] c(2)
      by (subst xs(1)) (auto simp: find_append_eq stop_here_def split: option.split)
    have "xs \<noteq> []" using c(1) by auto
    then have "select_loop idle 0 NULL (cursor NULL s) =
        select_loop idle 1 (current_val (items s) (ll_first (tasks_list s))) (cursor (ll_first (tasks_list s)) s)"
      using select_wrap [OF ok(1) _ ok(2)] by blast
    with select_segment [OF ok(1-4), of 1] stop
    have loop: "select_loop idle 0 NULL (cursor NULL s) =
        (let y = (case find ?run us of None \<Rightarrow> ?c | Some y \<Rightarrow> y) in
         Some (Inr (if ?run y then item_val (items s y) else idle, cursor y (wake (item_val (items s y)) s))))"
      by (simp add: Let_def)
    show ?thesis
    proof (cases "find ?run us")
      case (Some y)
      then have "?run y" using find_Some_in by fastforce
      with Some None loop seg order show ?thesis by (auto simp: next_task_def find_append_eq)
    next
      case none_us: None
      show ?thesis
        using none_us None loop seg order ok(5) c(2) wake_not_runnable [of s "current_task s"]
        by (cases "?run ?c") (auto simp: next_task_def find_append_eq wake_idle)
    qed
  qed
qed

section \<open>Properties\<close>

lemma schedule_prelocked_run:
  assumes "sched_ok idle s xs" "xs \<noteq> []" "t = next_task idle s xs" "has_stack t"
  shows "\<exists>s'. schedule_prelocked idle False has_stack s =
      Some (Inr (if pend (tasks s t) 0 = 0 then Load t else Load_And_Signal t (pend (tasks s t) 0), s')) \<and>
    t_status (tasks s' t) = TASK_STATE_RUNNING \<and> (\<forall>b. b = t \<or> tasks s' b = tasks s b) \<and>
    schedule_lock s' = schedule_lock s \<and> t_errno (tasks s' b) = t_errno (tasks s b)"
proof -
  note ok = sched_okD [OF assms(1)]
  have "\<exists>c. schedule_prelocked idle False has_stack s =
      Some (Inr (if pend (tasks s t) 0 = 0 then Load t else Load_And_Signal t (pend (tasks s t) 0),
        cursor c (wake t s)))"
    using select_after_idle [OF assms(1,2)] select_after_task [OF assms(1)] ok(5,7) assms(2-4)
    by (cases "current_task s = idle")
      (auto simp: schedule_prelocked_def move_first_cursor move_next_cursor Let_def)
  moreover have "t_status (tasks (wake t s) t) = TASK_STATE_RUNNING"
    using ok(4) assms(3) find_Some_in
    by (fastforce simp: wake_status next_task_def runnable_def split: option.splits)
  moreover have "\<forall>b. b = t \<or> tasks (wake t s) b = tasks s b" by (simp add: wake_def)
  moreover have "t_errno (tasks (wake t s) b) = t_errno (tasks s b)" by (simp add: wake_def)
  ultimately show ?thesis by fastforce
qed

text \<open>C20. The scheduler is a round robin: in a well-formed state with at least one task it always
  terminates without trapping and loads the first runnable task in the cyclic order behind the
  current one (a task waiting with a pending signal counts as runnable and is made running), the
  current task coming last, and the idle task when none is runnable; no other task changes.\<close>

theorem schedule_round_robin:
  assumes "sched_ok idle s xs" "xs \<noteq> []" "t = next_task idle s xs" "has_stack t"
  shows "\<exists>s'. schedule_prelocked idle False has_stack s =
      Some (Inr (if pend (tasks s t) 0 = 0 then Load t else Load_And_Signal t (pend (tasks s t) 0), s')) \<and>
    t_status (tasks s' t) = TASK_STATE_RUNNING \<and> (\<forall>b. b = t \<or> tasks s' b = tasks s b) \<and>
    schedule_lock s' = schedule_lock s"
  using schedule_prelocked_run [OF assms(1-3), of has_stack undefined, OF assms(4)] by blast

theorem schedule_round_robin_witness:
  "\<exists>s'. schedule_prelocked 512 False (\<lambda>_. True) sample_sys = Some (Inr (Load 4096, s'))"
proof -
  have ok: "sched_ok 512 sample_sys [8]"
    using sample_sys_ok
    by (simp add: sched_ok_def vals_def sample_sys_def sample_task_def TASK_STATE_RUNNING_def)
  have t: "4096 = next_task 512 sample_sys [8]"
    by (simp add: next_task_def turn_order_def Let_def sample_sys_def sample_task_def runnable_def
        TASK_STATE_RUNNING_def)
  have "pend (tasks sample_sys 4096) 0 = 0" by (simp add: sample_sys_def sample_task_def)
  with schedule_round_robin [OF ok _ t, of "\<lambda>_. True"] show ?thesis by auto
qed

text \<open>C33. No privilege by credential calls: a task whose real and effective user are not root keeps
  its real user through every sequence of \<open>setuid\<close>, \<open>setgid\<close>, \<open>seteuid\<close> and \<open>setegid\<close> calls, and
  its effective user is always its real user or the one it started with.\<close>

theorem credentials_no_escalation:
  assumes "t_uid t \<noteq> 0" "t_euid t \<noteq> 0" "t' = fold cred_step calls t"
  shows "t_uid t' = t_uid t \<and> (t_euid t' = t_euid t \<or> t_euid t' = t_uid t) \<and> t_euid t' \<noteq> 0"
proof -
  have "t_uid (fold cred_step calls r) = t_uid t \<and>
      (t_euid (fold cred_step calls r) = t_euid t \<or> t_euid (fold cred_step calls r) = t_uid t)"
    if "t_uid r = t_uid t" "t_euid r = t_euid t \<or> t_euid r = t_uid t" for r
    using that
  proof (induction calls arbitrary: r)
    case (Cons call calls)
    have "t_uid (cred_step call r) = t_uid t \<and>
        (t_euid (cred_step call r) = t_euid t \<or> t_euid (cred_step call r) = t_uid t)"
      using Cons.prems assms(1,2)
      by (cases call) (auto simp: setuid_def setgid_def seteuid_def setegid_def)
    with Cons.IH show ?case by simp
  qed simp
  from this [of t] assms show ?thesis by auto
qed

theorem credentials_no_escalation_witness:
  "t_euid (fold cred_step [Setuid 0, Seteuid 0, Setuid 7] (sample_task\<lparr>t_uid := 7, t_euid := 9\<rparr>)) \<noteq> 0"
  using credentials_no_escalation
    [of "sample_task\<lparr>t_uid := 7, t_euid := 9\<rparr>" _ "[Setuid 0, Seteuid 0, Setuid 7]", OF _ _ refl]
  by simp

text \<open>\<open>waitpid\<close> ignores its argument: for any two pids other than -1 it behaves the same, because
  the search does not compare the pid.\<close>

theorem waitpid_ignores_pid:
  assumes "p \<noteq> -1" "q \<noteq> -1"
  shows "waitpid p envs s = waitpid q envs s"
  using assms by (simp add: waitpid_def)

theorem waitpid_ignores_pid_witness: "waitpid 2 [] sample_sys = waitpid 3 [] sample_sys"
  by (rule waitpid_ignores_pid) simp_all

text \<open>\<open>wait\<close> reaps a live child: with a well-formed list of children it frees the entry of the
  first child that is not a zombie, and skips the zombies it should collect.\<close>

theorem wait_reaps_live_child:
  assumes "ll_ok (items s) (t_children (cur s)) xs" "ll_count (tasks_list s) \<noteq> 0"
    "find (\<lambda>c. t_status (item_task s c) \<noteq> TASK_STATE_ZOMBIE) xs = Some c"
  shows "t_status (item_task s c) \<noteq> TASK_STATE_ZOMBIE \<and>
    wait envs s = free_task_entry (item_val (items s c)) envs
      (upd_cur (\<lambda>t. t\<lparr>t_children := (t_children t)\<lparr>ll_current := c\<rparr>\<rparr>) s)"
proof -
  have "SEEK_UNTIL (items s) (\<lambda>c. t_status (item_task s c) \<noteq> TASK_STATE_ZOMBIE)
      (LINKED_LIST_ITER_INIT (t_children (cur s))) = Some \<lparr>it_current = c\<rparr>"
    using SEEK_UNTIL_chain [of "items s" "ll_first (t_children (cur s))" xs
        "\<lambda>c. t_status (item_task s c) \<noteq> TASK_STATE_ZOMBIE"] assms(1,3)
    by (simp add: ll_ok_def LINKED_LIST_ITER_INIT_def)
  with assms find_Some_in [OF assms(3)] show ?thesis
    by (simp add: wait_def Let_def upd_task_def)
qed

theorem wait_reaps_live_child_witness:
  "\<exists>s. t_status (item_task s 8) \<noteq> TASK_STATE_ZOMBIE \<and>
     wait [] s = free_task_entry 4096 []
       (upd_cur (\<lambda>t. t\<lparr>t_children := (t_children t)\<lparr>ll_current := 8\<rparr>\<rparr>) s)"
proof -
  define s where "s = upd_task 4096 (\<lambda>t. t\<lparr>t_children := tasks_list sample_sys\<rparr>) sample_sys"
  have "ll_ok (items s) (t_children (cur s)) [8]"
    using sample_sys_ok by (simp add: s_def task_list_ok_def sample_sys_def)
  moreover have "ll_count (tasks_list s) \<noteq> 0" by (simp add: s_def sample_sys_def)
  moreover have "find (\<lambda>c. t_status (item_task s c) \<noteq> TASK_STATE_ZOMBIE) [8] = Some 8"
    by (simp add: s_def sample_sys_def sample_task_def TASK_STATE_ZOMBIE_def)
  moreover have "item_val (items s 8) = 4096" by (simp add: s_def sample_sys_def)
  ultimately show ?thesis
    using wait_reaps_live_child [of s "[8]" 8 "[]"] by (intro exI [of _ s]) simp
qed

end
