(* ===== verification/CString.thy ===== *)
theory CString
  imports Hydrax_Prelude
begin

text \<open>
  The string routines of \<open>kernel/string.c\<close>.  A C string is a buffer of characters; the text it
  holds ends before the first \<open>NUL\<close>, and a routine that reads or writes past the end of a buffer
  traps.  \<open>itoa\<close> and \<open>itox\<close> work on the static 11-byte \<open>buff\<close>; the byte that follows it in memory is
  part of the model, because \<open>itoa\<close> reads it.
\<close>

section \<open>Buffers\<close>

abbreviation NUL :: char where "NUL \<equiv> CHR 0x00"

text \<open>The text of a buffer, and the buffer that holds a given text.\<close>

definition text_of :: "string \<Rightarrow> string" where
  "text_of b = takeWhile (\<lambda>c. c \<noteq> NUL) b"

definition cstr :: "string \<Rightarrow> string" where
  "cstr s = s @ [NUL]"

definition is_text :: "string \<Rightarrow> bool" where
  "is_text s = (NUL \<notin> set s)"

section \<open>Routines\<close>

fun strcmp :: "string \<Rightarrow> string \<Rightarrow> i32 outcome" where
  "strcmp (a # s) (b # t) =
     (if a \<noteq> NUL \<and> b \<noteq> NUL then
        (if a \<noteq> b then Inr 1 else strcmp s t)
      else if a = NUL \<and> b \<noteq> NUL \<or> a \<noteq> NUL \<and> b = NUL then Inr 1 else Inr 0)"
| "strcmp _ _ = Inl Out_Of_Bounds"

fun strlen_loop :: "u32 \<Rightarrow> string \<Rightarrow> u32 outcome" where
  "strlen_loop len [] = Inl Out_Of_Bounds"
| "strlen_loop len (c # s) = (if c \<noteq> NUL then strlen_loop (len + 1) s else Inr len)"

definition strlen :: "string \<Rightarrow> u32 outcome" where
  "strlen s = strlen_loop 0 s"

text \<open>\<open>strcpy\<close> returns the position past the terminator it wrote, with the destination.\<close>

fun strcpy_at :: "string \<Rightarrow> nat \<Rightarrow> string \<Rightarrow> (string \<times> nat) outcome" where
  "strcpy_at dest d [] = Inl Out_Of_Bounds"
| "strcpy_at dest d (c # src) =
     (if c \<noteq> NUL then bindE (writeE dest d c) (\<lambda>dest'. strcpy_at dest' (d + 1) src)
      else bindE (writeE dest d NUL) (\<lambda>dest'. Inr (dest', d + 1)))"

definition strcpy :: "string \<Rightarrow> string \<Rightarrow> (string \<times> nat) outcome" where
  "strcpy dest src = strcpy_at dest 0 src"

fun skip_text :: "nat \<Rightarrow> string \<Rightarrow> nat outcome" where
  "skip_text d [] = Inl Out_Of_Bounds"
| "skip_text d (c # s) = (if c \<noteq> NUL then skip_text (d + 1) s else Inr d)"

definition strcat :: "string \<Rightarrow> string \<Rightarrow> (string \<times> nat) outcome" where
  "strcat dest src = bindE (skip_text 0 dest) (\<lambda>d. strcpy_at dest d src)"

text \<open>\<open>while (*src != NULL) *dest++ = *src++;\<close>\<close>

fun copy_text :: "string \<Rightarrow> nat \<Rightarrow> string \<Rightarrow> (string \<times> nat) outcome" where
  "copy_text dest d [] = Inl Out_Of_Bounds"
| "copy_text dest d (c # src) =
     (if c \<noteq> NUL then bindE (writeE dest d c) (\<lambda>dest'. copy_text dest' (d + 1) src)
      else Inr (dest, d))"

text \<open>
  \<open>char\<close> is signed.  The assertion is the one of the source, whose second half compares with
  \<open>- '9'\<close>.
\<close>

definition schar :: "char \<Rightarrow> int" where
  "schar c = sint (of_char c :: u8)"

fun atoi_loop :: "string \<Rightarrow> nat \<Rightarrow> i32 \<Rightarrow> i32 \<Rightarrow> i32 outcome" where
  "atoi_loop s 0 m i = Inr i"
| "atoi_loop s (Suc p) m i =
     bindE (readE s (Suc p)) (\<lambda>c.
     bindE (assertE (schar c \<ge> 49 \<and> schar c < - 57)) (\<lambda>_.
     atoi_loop s p (m * 10) (i + (of_int (schar c) - (49 - 1)) * m)))"

definition atoi :: "string \<Rightarrow> i32 outcome" where
  "atoi s = bindE (strlen s) (\<lambda>len. atoi_loop s (unat len - 1) 1 0)"

text \<open>The digit characters; \<open>'0' + (char) i\<close>.\<close>

definition digit_char :: "nat \<Rightarrow> char" where
  "digit_char i = char_of (48 + i)"

fun itoa_digits :: "nat \<Rightarrow> u32 \<Rightarrow> u32 \<Rightarrow> nat \<Rightarrow> string \<Rightarrow> string outcome" where
  "itoa_digits 0 val digit b buff = Inr buff"
| "itoa_digits (Suc l) val digit b buff =
     (let i = val div digit in
      bindE (writeE buff b (digit_char (unat i))) (\<lambda>buff'.
      itoa_digits l (val - i * digit) (digit div 10) (b + 1) buff'))"

function skip_zeros :: "string \<Rightarrow> nat \<Rightarrow> nat outcome" where
  "skip_zeros buff i = (if i < length buff then
     (if buff ! i = CHR ''0'' then skip_zeros buff (i + 1) else Inr i) else Inl Out_Of_Bounds)"
  by pat_completeness auto
termination by (relation "measure (\<lambda>(buff, i). length buff - i)") auto

function itoa_shift :: "string \<Rightarrow> nat \<Rightarrow> nat \<Rightarrow> string outcome" where
  "itoa_shift buff b i = (if i \<le> 11 then
     bindE (readE buff i) (\<lambda>c.
     bindE (writeE buff b c) (\<lambda>buff'. itoa_shift buff' (b + 1) (i + 1)))
     else Inr buff)"
  by pat_completeness auto
termination by (relation "measure (\<lambda>(buff, b, i). 12 - i)") auto

text \<open>\<open>buff\<close> with the byte behind it: twelve characters in, twelve out.\<close>

definition itoa :: "string \<Rightarrow> i32 \<Rightarrow> string outcome" where
  "itoa buff val =
     bindE (writeE buff 0 NUL) (\<lambda>buff.
     if val = 0 then Inr buff
     else
       bindE (itoa_digits 10 val 1000000000 0 buff) (\<lambda>buff.
       bindE (writeE buff 10 NUL) (\<lambda>buff.
       bindE (skip_zeros buff 0) (\<lambda>i.
       itoa_shift buff 0 i))))"

definition hex_char :: "nat \<Rightarrow> char" where
  "hex_char i = char_of (48 + (if i \<ge> 10 then i + 7 else i))"

fun itox_digits :: "nat \<Rightarrow> u32 \<Rightarrow> u32 \<Rightarrow> nat \<Rightarrow> string \<Rightarrow> string outcome" where
  "itox_digits 0 val digit b buff = Inr buff"
| "itox_digits (Suc l) val digit b buff =
     (let i = val div digit in
      bindE (writeE buff b (hex_char (unat i))) (\<lambda>buff'.
      itox_digits l (val - i * digit) (digit div 16) (b + 1) buff'))"

definition itox :: "string \<Rightarrow> u32 \<Rightarrow> string outcome" where
  "itox buff val =
     bindE (writeE buff 0 NUL) (\<lambda>buff.
     if val = 0 then
       bindE (writeE buff 0 (CHR ''0'')) (\<lambda>buff. writeE buff 1 NUL)
     else
       bindE (itox_digits 8 val 0x10000000 0 buff) (\<lambda>buff. writeE buff 8 NUL))"

section \<open>Reference notions\<close>

text \<open>The decimal numeral of a number, without leading zeros, and the value of a hexadecimal one.\<close>

fun decimal :: "nat \<Rightarrow> string" where
  "decimal n = (if n < 10 then [digit_char n] else decimal (n div 10) @ [digit_char (n mod 10)])"

definition hex_digit_value :: "char \<Rightarrow> nat" where
  "hex_digit_value c = (if of_char c \<ge> (65 :: nat) then of_char c - 55 else of_char c - 48)"

definition hex_value :: "string \<Rightarrow> nat" where
  "hex_value s = foldl (\<lambda>a c. 16 * a + hex_digit_value c) 0 s"

text \<open>The last \<open>n\<close> digits of \<open>v\<close> to base \<open>b\<close>, most significant first.\<close>

fun digits :: "nat \<Rightarrow> nat \<Rightarrow> nat \<Rightarrow> nat list" where
  "digits b 0 v = []"
| "digits b (Suc n) v = digits b n (v div b) @ [v mod b]"

text \<open>The two digit loops differ only in the base and the digit characters.\<close>

fun put_digits :: "u32 \<Rightarrow> (nat \<Rightarrow> char) \<Rightarrow> nat \<Rightarrow> u32 \<Rightarrow> u32 \<Rightarrow> nat \<Rightarrow> string \<Rightarrow> string outcome" where
  "put_digits base ch 0 val digit b buff = Inr buff"
| "put_digits base ch (Suc l) val digit b buff =
     (let i = val div digit in
      bindE (writeE buff b (ch (unat i))) (\<lambda>buff'.
      put_digits base ch l (val - i * digit) (digit div base) (b + 1) buff'))"

section \<open>Lemmas\<close>

declare skip_zeros.simps [simp del] itoa_shift.simps [simp del] decimal.simps [simp del]

lemma text_of_cstr [simp]: "is_text s \<Longrightarrow> text_of (cstr s) = s"
  by (induction s) (auto simp: text_of_def cstr_def is_text_def)

lemma text_of_append: "is_text s \<Longrightarrow> text_of (s @ NUL # r) = s"
  by (induction s) (auto simp: text_of_def is_text_def)

lemma is_text_simps [simp]: "is_text []" "is_text (c # s) \<longleftrightarrow> c \<noteq> NUL \<and> is_text s"
  by (auto simp: is_text_def)

lemma cstr_simps [simp]: "cstr [] = [NUL]" "cstr (c # s) = c # cstr s"
  by (simp_all add: cstr_def)

lemma strcmp_cstr: "is_text s \<Longrightarrow> is_text t \<Longrightarrow> strcmp (cstr s) (cstr t) = Inr (if s = t then 0 else 1)"
proof (induction s arbitrary: t)
  case Nil
  then show ?case by (cases t) auto
next
  case (Cons a s)
  then show ?case by (cases t) auto
qed

lemma strcmp_buffers:
  "NUL \<in> set b \<Longrightarrow> NUL \<in> set c \<Longrightarrow> strcmp b c = Inr (if text_of b = text_of c then 0 else 1)"
  by (induction b c rule: strcmp.induct) (auto simp: text_of_def)

lemma strlen_loop_eq:
  "NUL \<in> set b \<Longrightarrow> strlen_loop n b = Inr (n + of_nat (length (text_of b)))"
  by (induction n b rule: strlen_loop.induct) (auto simp: text_of_def algebra_simps)

lemma strlen_eq: "NUL \<in> set b \<Longrightarrow> strlen b = Inr (of_nat (length (text_of b)))"
  by (simp add: strlen_def strlen_loop_eq)

lemma strcpy_at_eq:
  "is_text s \<Longrightarrow> d + length s < length dest \<Longrightarrow> strcpy_at dest d (cstr s) =
   Inr (take d dest @ cstr s @ drop (d + length s + 1) dest, d + length s + 1)"
proof (induction s arbitrary: dest d)
  case Nil
  then show ?case by (simp add: upd_conv_take_nth_drop)
next
  case (Cons c s)
  then show ?case by (simp add: take_Suc_conv_app_nth)
qed

lemma strcpy_at_short:
  "is_text s \<Longrightarrow> length dest \<le> d + length s \<Longrightarrow> strcpy_at dest d (cstr s) = Inl Out_Of_Bounds"
  by (induction s arbitrary: dest d) (auto simp: writeE_def)

lemma skip_text_cstr: "is_text s \<Longrightarrow> skip_text d (s @ NUL # r) = Inr (d + length s)"
  by (induction s arbitrary: d) auto

lemma text_of_split: "NUL \<in> set b \<Longrightarrow> \<exists>z. b = text_of b @ NUL # z"
  by (induction b) (auto simp: text_of_def)

lemma is_text_text_of [simp]: "is_text (text_of b)"
  by (auto simp: is_text_def text_of_def dest: set_takeWhileD)

lemma copy_text_append:
  "is_text s \<Longrightarrow> length b = length s \<Longrightarrow>
    copy_text (p @ b @ q) (length p) (s @ NUL # r) = Inr (p @ s @ q, length p + length s)"
proof (induction s arbitrary: p b)
  case (Cons c s)
  then obtain x b' where b: "b = x # b'" "length b' = length s" by (cases b) auto
  from Cons.IH [of b' "p @ [c]"] Cons.prems b show ?case by (simp add: list_update_append)
qed simp

lemma copy_text_cstr:
  "is_text s \<Longrightarrow> length b = length s \<Longrightarrow>
    copy_text (p @ b @ q) (length p) (cstr s) = Inr (p @ s @ q, length p + length s)"
  using copy_text_append [of s b p q "[]"] by (simp add: cstr_def)

lemma itoa_digits_put: "itoa_digits l val digit b buff = put_digits 10 digit_char l val digit b buff"
  by (induction l val digit b buff rule: itoa_digits.induct)
    (auto simp: Let_def intro!: bindE_cong)

lemma itox_digits_put: "itox_digits l val digit b buff = put_digits 16 hex_char l val digit b buff"
  by (induction l val digit b buff rule: itox_digits.induct)
    (auto simp: Let_def intro!: bindE_cong)

lemma length_digits [simp]: "length (digits b n v) = n"
  by (induction n arbitrary: v) auto

lemma digits_lt: "0 < b \<Longrightarrow> x \<in> set (digits b n v) \<Longrightarrow> x < b"
  by (induction n arbitrary: v) auto

lemma digits_msb: "0 < b \<Longrightarrow> digits b (Suc n) v = (v div b ^ n mod b) # digits b n (v mod b ^ n)"
proof (induction n arbitrary: v)
  case (Suc n)
  have "v div b mod b ^ n = v mod b ^ Suc n div b"
    by (simp add: mod_mult2_eq Suc.prems)
  with Suc show ?case by (simp add: div_mult2_eq mod_mult2_eq)
qed simp

lemma put_digits_eq:
  assumes "1 < unat base" "b + l \<le> length buff" "unat val < unat base ^ l"
    "unat base ^ (l - 1) < 2 ^ 32" "unat digit = unat base ^ (l - 1)"
  shows "put_digits base ch l val digit b buff =
    Inr (take b buff @ map ch (digits (unat base) l (unat val)) @ drop (b + l) buff)"
  using assms(2-)
proof (induction l arbitrary: val digit b buff)
  case (Suc l)
  let ?b = "unat base" and ?i = "val div digit"
  let ?buff = "buff[b := ch (unat ?i)]"
  have rest: "val - ?i * digit = val mod digit" by (simp add: minus_div_mult_eq_mod)
  have d: "unat digit = ?b ^ l" using Suc.prems by simp
  have i: "unat ?i = unat val div ?b ^ l mod ?b"
    using Suc.prems d by (simp add: unat_div less_mult_imp_div_less)
  have "put_digits base ch l (val mod digit) (digit div base) (b + 1) ?buff =
      Inr (take (b + 1) ?buff @ map ch (digits ?b l (unat val mod ?b ^ l)) @ drop (b + 1 + l) ?buff)"
  proof (cases l)
    case 0
    then show ?thesis
      using append_take_drop_id [of "b + 1" ?buff] by simp
  next
    case (Suc k)
    have "?b ^ k \<le> ?b ^ l" using assms(1) Suc by (intro power_increasing) auto
    then have "?b ^ k < 2 ^ 32" using Suc.prems by simp
    then show ?thesis
      using Suc.IH [of "b + 1" ?buff "val mod digit" "digit div base"] Suc.prems d assms(1) Suc
      by (simp add: unat_div unat_mod)
  qed
  moreover have "take (b + 1) ?buff = take b buff @ [ch (unat ?i)]" "drop (b + 1 + l) ?buff = drop (b + Suc l) buff"
    using Suc.prems by (simp_all add: take_Suc_conv_app_nth)
  ultimately show ?case
    using Suc.prems assms(1) i rest by (simp add: Let_def digits_msb del: digits.simps)
qed simp

lemma digit_char_inj: "i < 10 \<Longrightarrow> (of_char (digit_char i) :: nat) = 48 + i"
  by (simp add: digit_char_def)

lemma hex_digit_value_char: "i < 16 \<Longrightarrow> hex_digit_value (hex_char i) = i"
  by (simp add: hex_digit_value_def hex_char_def)

lemma char_neq_code: "(of_char c :: nat) \<noteq> of_char d \<Longrightarrow> c \<noteq> d"
  by auto

lemma hex_char_not_NUL: "i < 16 \<Longrightarrow> hex_char i \<noteq> NUL"
  by (rule char_neq_code) (simp add: hex_char_def)

lemma digit_char_not_NUL: "i < 10 \<Longrightarrow> digit_char i \<noteq> NUL"
  by (rule char_neq_code) (simp add: digit_char_inj)

lemma digit_char_zero: "i < 10 \<Longrightarrow> digit_char i = CHR ''0'' \<longleftrightarrow> i = 0"
proof
  assume "i < 10" "digit_char i = CHR ''0''"
  then have "48 + i = (of_char (CHR ''0'') :: nat)" using digit_char_inj [of i] by simp
  then show "i = 0" by simp
next
  assume "i = 0"
  moreover have "(of_char (CHR ''0'') :: nat) = 48" by simp
  ultimately show "digit_char i = CHR ''0''" by (metis add.right_neutral char_of_char digit_char_def)
qed

lemma decimal_Cons: "\<exists>d t. decimal n = digit_char d # t \<and> d < 10 \<and> (d = 0 \<longrightarrow> n = 0)"
proof (induction n rule: less_induct)
  case (less n)
  show ?case
  proof (cases "n < 10")
    case True
    then show ?thesis by (intro exI [of _ n]) (simp add: decimal.simps)
  next
    case False
    with less [of "n div 10"] show ?thesis by (auto simp: decimal.simps [of n])
  qed
qed

text \<open>Dropping the leading zeros of a fixed-width numeral gives the decimal numeral.\<close>

lemma drop_zeros_decimal:
  "0 < v \<Longrightarrow> v < 10 ^ n \<Longrightarrow>
   dropWhile (\<lambda>c. c = CHR ''0'') (map digit_char (digits 10 n v)) = decimal v"
proof (induction n arbitrary: v)
  case (Suc n)
  let ?z = "\<lambda>c. c = CHR ''0''"
  show ?case
  proof (cases "v < 10")
    case True
    have "dropWhile ?z (map digit_char (digits 10 n 0)) = []" for n
      by (induction n) (auto simp: digit_char_zero dropWhile_append)
    with True Suc.prems show ?thesis
      by (simp add: dropWhile_append decimal.simps digit_char_zero)
  next
    case False
    with Suc have "dropWhile ?z (map digit_char (digits 10 n (v div 10))) = decimal (v div 10)"
      by (intro Suc.IH) auto
    moreover have "decimal (v div 10) \<noteq> []" using decimal_Cons [of "v div 10"] by auto
    ultimately have "dropWhile ?z (map digit_char (digits 10 n (v div 10)) @ [digit_char (v mod 10)]) =
        decimal (v div 10) @ [digit_char (v mod 10)]"
      by (simp only: dropWhile_append dropWhile_eq_Nil_conv [symmetric] if_False)
    with False show ?thesis by (simp add: decimal.simps [of v])
  qed
qed simp

lemma drop_zeros_append:
  assumes "0 < v" "v < 10 ^ n"
  shows "dropWhile (\<lambda>c. c = CHR ''0'') (map digit_char (digits 10 n v) @ r) = decimal v @ r"
proof -
  have "decimal v \<noteq> []" using decimal_Cons [of v] by auto
  with drop_zeros_decimal [OF assms] show ?thesis
    by (simp only: dropWhile_append dropWhile_eq_Nil_conv [symmetric] if_False)
qed

lemma is_text_decimal: "is_text (decimal v)"
proof (induction v rule: less_induct)
  case (less v)
  have "is_text (s @ [c])" if "is_text s" "c \<noteq> NUL" for s c
    using that by (auto simp: is_text_def)
  with less show ?case
    by (cases "v < 10") (simp_all add: decimal.simps [of v] digit_char_not_NUL)
qed

lemma skip_zeros_eq:
  "i \<le> length buff \<Longrightarrow> dropWhile (\<lambda>c. c = CHR ''0'') (drop i buff) \<noteq> [] \<Longrightarrow>
   \<exists>k. skip_zeros buff i = Inr k \<and> i \<le> k \<and> k < length buff \<and>
     drop k buff = dropWhile (\<lambda>c. c = CHR ''0'') (drop i buff)"
proof (induction "length buff - i" arbitrary: i)
  case 0
  then show ?case by simp
next
  case (Suc n)
  then have i: "i < length buff" by simp
  then have d: "drop i buff = buff ! i # drop (Suc i) buff" by (simp add: Cons_nth_drop_Suc)
  show ?case
  proof (cases "buff ! i = CHR ''0''")
    case True
    then have "skip_zeros buff i = skip_zeros buff (Suc i)"
      "dropWhile (\<lambda>c. c = CHR ''0'') (drop i buff) = dropWhile (\<lambda>c. c = CHR ''0'') (drop (Suc i) buff)"
      using i d by (simp_all add: skip_zeros.simps [of buff i])
    with Suc.hyps(1) [of "Suc i"] Suc.hyps(2) Suc.prems i show ?thesis
      by (metis Suc_leD Suc_leI diff_Suc_1 diff_Suc_eq_diff_pred diff_commute)
  next
    case False
    with i d show ?thesis by (simp add: skip_zeros.simps [of buff i])
  qed
qed

lemma itoa_shift_eq:
  assumes "length buff = 12" "i \<le> 12" "b + k = i"
  shows "itoa_shift buff b i = Inr (take b buff @ drop i buff @ drop (12 - k) buff)"
  using assms
proof (induction "12 - i" arbitrary: i b buff)
  case 0
  then have i: "i = 12" and b: "b = 12 - k" by auto
  show ?case unfolding i b using 0(2) by (subst itoa_shift.simps) simp
next
  case (Suc n)
  let ?buff = "buff[b := buff ! i]"
  have i: "i < 12" using Suc.hyps(2) by simp
  have "itoa_shift buff b i = itoa_shift ?buff (Suc b) (Suc i)"
    using i Suc.prems by (subst itoa_shift.simps) simp
  also have "\<dots> = Inr (take (Suc b) ?buff @ drop (Suc i) ?buff @ drop (12 - k) ?buff)"
    using Suc.hyps(2) Suc.prems by (intro Suc.hyps(1)) auto
  also have "take (Suc b) ?buff = take b buff @ [buff ! i]"
    using i Suc.prems by (simp add: take_Suc_conv_app_nth)
  finally show ?case
    using i Suc.prems by (simp add: Cons_nth_drop_Suc [symmetric, of i])
qed

lemma hex_value_digits: "v < 16 ^ n \<Longrightarrow> hex_value (map hex_char (digits 16 n v)) = v"
proof (induction n arbitrary: v)
  case (Suc n)
  then have "hex_value (map hex_char (digits 16 n (v div 16))) = v div 16" by auto
  then show ?case by (simp add: hex_value_def hex_digit_value_char)
qed (simp add: hex_value_def)

lemma itoa_run:
  assumes "length buff = 12"
  shows "\<exists>buff'. itoa buff val = Inr buff' \<and> length buff' = 12 \<and> buff' ! 11 = buff ! 11 \<and> NUL \<in> set buff' \<and>
    text_of buff' = (if val = 0 then [] else decimal (unat val))"
proof (cases "val = 0")
  case True
  then show ?thesis
    using assms by (cases buff) (auto simp: itoa_def text_of_def)
next
  case False
  let ?ds = "map digit_char (digits 10 10 (unat val))" and ?z = "\<lambda>c. c = CHR ''0''"
  let ?buff = "?ds @ [NUL, buff ! 11]"
  have val: "0 < unat val" "unat val < 10 ^ 10"
    using False unat_u32_lt [of val] by (auto simp: unat_gt_0)
  obtain u v where uv: "drop 10 buff = [u, v]" "v = buff ! 11"
    using assms by (intro that [of "buff ! 10" "buff ! 11"]) (auto simp: Cons_nth_drop_Suc [symmetric])
  have "itoa_digits 10 val 1000000000 0 (buff[0 := NUL]) = Inr (?ds @ drop 10 (buff[0 := NUL]))"
    unfolding itoa_digits_put using put_digits_eq [of 10 0 10 "buff[0 := NUL]" val 1000000000 digit_char]
      assms val by simp
  then have digs: "bindE (itoa_digits 10 val 1000000000 0 (buff[0 := NUL])) (\<lambda>b. writeE b 10 NUL) = Inr ?buff"
    using uv by (simp add: list_update_append)
  have "dropWhile ?z ?buff = decimal (unat val) @ [NUL, buff ! 11]"
    using val by (rule drop_zeros_append)
  then obtain k where k: "skip_zeros ?buff 0 = Inr k" "k < 12" "drop k ?buff = decimal (unat val) @ [NUL, buff ! 11]"
    using skip_zeros_eq [of 0 ?buff] by auto
  let ?out = "decimal (unat val) @ [NUL, buff ! 11] @ drop (12 - k) ?buff"
  have shift: "itoa_shift ?buff 0 k = Inr ?out"
    using itoa_shift_eq [of ?buff k 0 k] k by simp
  have len: "length (decimal (unat val)) = 10 - k" using arg_cong [OF k(3), of length] by simp
  have "k \<le> 10" using arg_cong [OF k(3), of length] decimal_Cons [of "unat val"] k(2) by auto
  then have "?out ! 11 = buff ! 11"
    using len by (cases "k = 0") (auto simp: nth_append)
  moreover have "text_of ?out = decimal (unat val)"
    using text_of_append [OF is_text_decimal] by simp
  moreover have "NUL \<in> set ?out" by simp
  moreover have "itoa buff val = Inr ?out"
    using assms False digs k(1) shift by (auto simp: itoa_def outcome_simps)
  ultimately show ?thesis using False len \<open>k \<le> 10\<close> by auto
qed

text \<open>The text of a number in hexadecimal.\<close>

definition hexadecimal :: "u32 \<Rightarrow> string" where
  "hexadecimal val = (if val = 0 then ''0'' else map hex_char (digits 16 8 (unat val)))"

lemma itox_run:
  assumes "9 \<le> length buff"
  shows "\<exists>buff'. itox buff val = Inr buff' \<and> length buff' = length buff \<and> NUL \<in> set buff' \<and>
    text_of buff' = hexadecimal val"
proof (cases "val = 0")
  case True
  obtain a b r where "buff = a # b # r" using assms by (cases buff; cases "tl buff") auto
  with True show ?thesis by (simp add: itox_def text_of_def hexadecimal_def)
next
  case False
  let ?ds = "map hex_char (digits 16 8 (unat val))"
  have "unat val < 16 ^ 8" using unat_u32_lt [of val] by simp
  then have "itox_digits 8 val 0x10000000 0 (buff[0 := NUL]) = Inr (?ds @ drop 8 (buff[0 := NUL]))"
    unfolding itox_digits_put using put_digits_eq [of 16 0 8 "buff[0 := NUL]" val "0x10000000" hex_char]
      assms by simp
  moreover obtain u r where r: "drop 8 buff = u # r" using assms by (cases "drop 8 buff") auto
  moreover have "length r = length buff - 9" using arg_cong [OF r, of length] by simp
  moreover have "buff \<noteq> []" using assms by auto
  ultimately have "itox buff val = Inr (?ds @ NUL # r)" "length (?ds @ NUL # r) = length buff"
    using False assms by (auto simp: itox_def list_update_append)
  moreover have "is_text ?ds"
    using digits_lt [of 16 _ 8 "unat val"] hex_char_not_NUL by (force simp: is_text_def)
  ultimately show ?thesis using False by (simp add: text_of_append hexadecimal_def)
qed

lemma hexadecimal_value:
  "hex_value (hexadecimal val) = unat val" "length (hexadecimal val) = (if val = 0 then 1 else 8)"
  using unat_u32_lt [of val] hex_value_digits [of "unat val" 8]
  by (simp_all add: hexadecimal_def hex_value_def hex_digit_value_def)

section \<open>Properties\<close>

text \<open>\<open>strcmp\<close> decides equality of the texts of two terminated buffers, reading neither
  buffer past its terminator: the result is 0 exactly when the texts are equal.\<close>

theorem strcmp_decides_equality:
  assumes "NUL \<in> set b" "NUL \<in> set c"
  shows "strcmp b c = Inr (if text_of b = text_of c then 0 else 1)"
  using assms by (rule strcmp_buffers)

theorem strcmp_decides_equality_witness:
  "strcmp (''sh'' @ [NUL, CHR ''x'']) (cstr ''sh'') = Inr 0 \<and> strcmp (cstr ''sh'') (cstr ''init'') = Inr 1"
  using strcmp_decides_equality [of "''sh'' @ [NUL, CHR ''x'']" "cstr ''sh''"]
    strcmp_decides_equality [of "cstr ''sh''" "cstr ''init''"]
  by (simp add: text_of_def)

text \<open>For a non-zero value \<open>itoa\<close> leaves the decimal numeral of the value, read as an unsigned
  number and without leading zeros, as the text of its buffer, and does not change the byte that
  follows the buffer, although it reads it; for zero the text is empty.\<close>

theorem itoa_decimal:
  assumes "length buff = 12"
  shows "\<exists>buff'. itoa buff val = Inr buff' \<and> length buff' = 12 \<and> buff' ! 11 = buff ! 11 \<and>
    text_of buff' = (if val = 0 then [] else decimal (unat val))"
  using itoa_run [OF assms] by blast

theorem itoa_decimal_witness:
  "\<exists>buff'. itoa (replicate 12 (CHR ''?'')) 40 = Inr buff' \<and> buff' ! 11 = CHR ''?'' \<and>
     text_of buff' = decimal 40"
  using itoa_decimal [of "replicate 12 (CHR ''?'')" 40] by auto

text \<open>C34. \<open>itox\<close> is injective and readable: reading its text as a hexadecimal numeral gives the
  value back, and a non-zero value is always written with eight digits.\<close>

theorem itox_roundtrip:
  assumes "9 \<le> length buff"
  shows "\<exists>buff'. itox buff val = Inr buff' \<and> length buff' = length buff \<and>
    hex_value (text_of buff') = unat val \<and> length (text_of buff') = (if val = 0 then 1 else 8)"
  using itox_run [OF assms, of val] hexadecimal_value [of val] by auto

theorem itox_roundtrip_witness:
  "\<exists>buff'. itox (replicate 11 NUL) 0xBEEF = Inr buff' \<and> hex_value (text_of buff') = 0xBEEF"
  using itox_roundtrip [of "replicate 11 NUL" "0xBEEF"] by auto

text \<open>\<open>atoi\<close> fails its assertion on every string of two or more characters, and returns 0 on
  shorter ones: its range check compares with \<open>- '9'\<close>, which no digit satisfies.\<close>

theorem atoi_always_traps:
  assumes "is_text s" "length s < 2 ^ 32"
  shows "atoi (cstr s) = (if 2 \<le> length s then Inl Assert_Failed else Inr 0)"
proof -
  have "NUL \<in> set (cstr s)" by (simp add: cstr_def)
  then have len: "strlen (cstr s) = Inr (of_nat (length s))" using assms(1) by (simp add: strlen_eq)
  show ?thesis
  proof (cases "2 \<le> length s")
    case True
    then obtain p where "length s - 1 = Suc p" by (cases "length s - 1") auto
    with True len assms(2) show ?thesis
      by (auto simp: atoi_def unat_of_nat_u32 readE_def cstr_def assertE_def)
  next
    case False
    then have "length s - 1 = 0" by simp
    with False len assms(2) show ?thesis by (simp add: atoi_def unat_of_nat_u32)
  qed
qed

theorem atoi_always_traps_witness: "atoi (cstr ''42'') = Inl Assert_Failed"
  using atoi_always_traps [of "''42''"] by simp

end
