(* ===== verification/Env.thy ===== *)
theory Env
  imports CString Mutex
begin

text \<open>
  The environment calls of \<open>kernel/env.c\<close>.  The table behind \<open>current_task->envp\<close> is \<open>NULL\<close> or
  a list of slots, a slot \<open>NULL\<close> or a string buffer; strings given to \<open>free\<close> are recorded.  The
  verdicts of \<open>malloc\<close> are arguments: whether the table is obtained, and the buffer obtained for a
  requested size.  The environment lock is taken with \<open>mutex_busywait\<close>, so a call also takes the
  actions of the rest of the system while it spins.
\<close>

section \<open>State\<close>

definition CONFIG_ENV_INITIAL_SIZE :: nat where "CONFIG_ENV_INITIAL_SIZE = 1024"

text \<open>The slots of a fresh table: pointers of four bytes.\<close>

definition env_slots :: nat where "env_slots = CONFIG_ENV_INITIAL_SIZE div 4"

record env_state =
  envp :: "string option list option"
  env_lock :: mutex_t
  freed :: "string list"

abbreviation put_env_lock :: "mutex_t \<Rightarrow> env_state \<Rightarrow> env_state" where
  "put_env_lock m s \<equiv> s\<lparr>env_lock := m\<rparr>"

definition env_wait :: "(env_state \<Rightarrow> env_state) list \<Rightarrow> env_state \<Rightarrow>
    (env_state \<times> (env_state \<Rightarrow> env_state) list) run" where
  "env_wait acts s = mutex_busywait env_lock put_env_lock acts s"

definition env_release :: "env_state \<Rightarrow> env_state outcome" where
  "env_release s = bindE (mutex_release (env_lock s)) (\<lambda>m. Inr (put_env_lock m s))"

section \<open>Operations\<close>

text \<open>The strings \<open>free_env\<close> releases: those before the first \<open>NULL\<close> slot.\<close>

fun free_strings :: "string option list \<Rightarrow> string list outcome" where
  "free_strings [] = Inl Out_Of_Bounds"
| "free_strings (None # slots) = Inr []"
| "free_strings (Some e # slots) = bindE (free_strings slots) (\<lambda>es. Inr (e # es))"

definition free_env :: "(env_state \<Rightarrow> env_state) list \<Rightarrow> env_state \<Rightarrow>
    (env_state \<times> (env_state \<Rightarrow> env_state) list) run" where
  "free_env acts s0 =
     bindR (env_wait acts s0) (\<lambda>(s, es).
     bindR (Some (case envp s of None \<Rightarrow> Inr [] | Some slots \<Rightarrow> free_strings slots)) (\<lambda>fs.
     bindR (Some (env_release (s\<lparr>envp := None, freed := freed s @ fs\<rparr>))) (\<lambda>s'.
     Some (Inr (s', es)))))"

text \<open>
  The comparison of an entry with a name.  The loop of \<open>setenv\<close> goes on while the name has
  characters left, the one of \<open>unsetenv\<close> while the name is at its end: \<open>go\<close> is that condition.
  The result is where the two pointers stand.
\<close>

fun name_scan :: "(char \<Rightarrow> bool) \<Rightarrow> string \<Rightarrow> string \<Rightarrow> (string \<times> string) outcome" where
  "name_scan go [] ns = Inl Out_Of_Bounds"
| "name_scan go (e # es) ns =
     (if e = NUL \<or> e = CHR ''='' then Inr (e # es, ns)
      else case ns of
        [] \<Rightarrow> Inl Out_Of_Bounds
      | n # ns' \<Rightarrow>
          if go n then (if e \<noteq> n then Inr (e # es, ns) else name_scan go es ns')
          else Inr (e # es, ns))"

definition entry_matches :: "(char \<Rightarrow> bool) \<Rightarrow> string \<Rightarrow> string \<Rightarrow> bool outcome" where
  "entry_matches go e name =
     bindE (name_scan go e name) (\<lambda>(es, ns).
     bindE (readE es 0) (\<lambda>c.
     if c = CHR ''='' then bindE (readE ns 0) (\<lambda>n. Inr (n = NUL)) else Inr False))"

text \<open>
  The removal of slot \<open>i\<close> in \<open>unsetenv\<close>: the entries behind it move down one slot as long as the
  next one is not \<open>NULL\<close>.
\<close>

function shift_slots :: "string option list \<Rightarrow> nat \<Rightarrow> string option list outcome" where
  "shift_slots slots i =
     (if i + 1 < length slots then
        (if slots ! (i + 1) \<noteq> None then shift_slots (slots[i := slots ! (i + 1)]) (i + 1)
         else Inr slots)
      else Inl Out_Of_Bounds)"
  by pat_completeness auto
termination by (relation "measure (\<lambda>(slots, i). length slots - i)") auto

declare shift_slots.simps [simp del]

text \<open>The outer loop of \<open>unsetenv\<close>, which has no step to the next entry.\<close>

partial_function (option) unset_loop :: "string \<Rightarrow> nat \<Rightarrow> env_state \<Rightarrow> env_state run" where
  "unset_loop name i s =
     (case envp s of
        None \<Rightarrow> Some (Inl Null_Deref)
      | Some slots \<Rightarrow>
          if length slots \<le> i then Some (Inl Out_Of_Bounds)
          else (case slots ! i of
              None \<Rightarrow> Some (Inr s)
            | Some e \<Rightarrow>
                (case entry_matches (\<lambda>n. n = NUL) e name of
                   Inl t \<Rightarrow> Some (Inl t)
                 | Inr m \<Rightarrow>
                     if m then
                       Some (bindE (shift_slots slots i) (\<lambda>slots'.
                         Inr (s\<lparr>envp := Some slots', freed := freed s @ [e]\<rparr>)))
                     else unset_loop name i s)))"

declare unset_loop.simps [simp del]

definition unsetenv :: "string option \<Rightarrow> env_state \<Rightarrow> (i32 \<times> env_state) run" where
  "unsetenv name s =
     (case name of
        None \<Rightarrow> Some (Inr (EINVAL, s))
      | Some nm \<Rightarrow>
          bindR (Some (strlen nm)) (\<lambda>len.
          if len = 0 then Some (Inr (EINVAL, s))
          else if envp s = None then Some (Inr (0, s))
          else bindR (unset_loop nm 0 s) (\<lambda>s'. Some (Inr (0, s')))))"

text \<open>
  The search of \<open>setenv\<close>: \<open>None\<close> when the name exists and must not be overwritten, otherwise the
  slot to write and the string freed there.
\<close>

fun find_slot :: "string \<Rightarrow> bool \<Rightarrow> nat \<Rightarrow> string option list \<Rightarrow>
    (nat \<times> string list) option outcome" where
  "find_slot name overwrite i [] = Inl Out_Of_Bounds"
| "find_slot name overwrite i (None # slots) = Inr (Some (i, []))"
| "find_slot name overwrite i (Some e # slots) =
     bindE (entry_matches (\<lambda>n. n \<noteq> NUL) e name) (\<lambda>m.
     if m then (if overwrite then Inr (Some (i, [e])) else Inr None)
     else find_slot name overwrite (i + 1) slots)"

fun has_equals :: "string \<Rightarrow> bool outcome" where
  "has_equals [] = Inl Out_Of_Bounds"
| "has_equals (c # s) =
     (if c = NUL then Inr False else if c = CHR ''='' then Inr True else has_equals s)"

definition fill_entry :: "string \<Rightarrow> string \<Rightarrow> string \<Rightarrow> string outcome" where
  "fill_entry buf name val =
     bindE (copy_text buf 0 name) (\<lambda>(buf1, d).
     bindE (writeE buf1 d (CHR ''='')) (\<lambda>buf2.
     bindE (copy_text buf2 (d + 1) val) (\<lambda>(buf3, d').
     writeE buf3 d' NUL)))"

text \<open>
  The part of \<open>setenv\<close> with the lock held.  The last exit, when \<open>malloc\<close> fails, leaves the lock
  held and the freed entry in the table, as the source does.
\<close>

definition setenv_locked :: "bool \<Rightarrow> (u32 \<Rightarrow> string option) \<Rightarrow> string \<Rightarrow> string \<Rightarrow> bool \<Rightarrow>
    env_state \<Rightarrow> (i32 \<times> env_state) outcome" where
  "setenv_locked table_ok malloc name val overwrite s0 =
     (if envp s0 = None \<and> \<not> table_ok then bindE (env_release s0) (\<lambda>s. Inr (ENOMEM, s))
      else
        let slots = (case envp s0 of None \<Rightarrow> replicate env_slots None | Some sl \<Rightarrow> sl);
            s1 = s0\<lparr>envp := Some slots\<rparr> in
        bindE (find_slot name overwrite 0 slots) (\<lambda>found.
        case found of
          None \<Rightarrow> bindE (env_release s1) (\<lambda>s. Inr (- 1, s))
        | Some (i, fs) \<Rightarrow>
            let s2 = s1\<lparr>freed := freed s1 @ fs\<rparr> in
            bindE (strlen name) (\<lambda>ln.
            bindE (strlen val) (\<lambda>lv.
            case malloc (ln + lv + 2) of
              None \<Rightarrow> Inr (ENOMEM, s2)
            | Some buf \<Rightarrow>
                bindE (fill_entry buf name val) (\<lambda>entry.
                bindE (writeE slots i (Some entry)) (\<lambda>slots1.
                bindE (writeE slots1 (i + 1) None) (\<lambda>slots2.
                bindE (env_release (s2\<lparr>envp := Some slots2\<rparr>)) (\<lambda>s. Inr (0, s)))))))))"

definition setenv :: "bool \<Rightarrow> (u32 \<Rightarrow> string option) \<Rightarrow> (env_state \<Rightarrow> env_state) list \<Rightarrow>
    string option \<Rightarrow> string \<Rightarrow> bool \<Rightarrow> env_state \<Rightarrow>
    (i32 \<times> env_state \<times> (env_state \<Rightarrow> env_state) list) run" where
  "setenv table_ok malloc acts name val overwrite s0 =
     (case name of
        None \<Rightarrow> Some (Inr (EINVAL, s0, acts))
      | Some nm \<Rightarrow>
          bindR (Some (strlen nm)) (\<lambda>len.
          if len = 0 then Some (Inr (EINVAL, s0, acts))
          else bindR (Some (has_equals nm)) (\<lambda>eq.
          if eq then Some (Inr (EINVAL, s0, acts))
          else bindR (env_wait acts s0) (\<lambda>(s, es).
               bindR (Some (setenv_locked table_ok malloc nm val overwrite s)) (\<lambda>(r, s').
               Some (Inr (r, s', es)))))))"

section \<open>What the table holds\<close>

text \<open>The texts of a table: the entries before the first \<open>NULL\<close> slot, with room for one more.\<close>

definition env_ok :: "env_state \<Rightarrow> string list \<Rightarrow> bool" where
  "env_ok s es = (list_all is_text es \<and> ms (env_lock s) = 0 \<and>
     (\<exists>rest. envp s = Some (map (\<lambda>e. Some (cstr e)) es @ None # rest) \<and>
       length es + length rest + 1 = env_slots))"

definition is_name :: "string \<Rightarrow> bool" where
  "is_name n = (n \<noteq> [] \<and> is_text n \<and> CHR ''='' \<notin> set n)"

text \<open>An entry that defines the name.\<close>

definition entry_for :: "string \<Rightarrow> string \<Rightarrow> bool" where
  "entry_for n e = (take (length n + 1) e = n @ ''='')"

section \<open>Lemmas\<close>

lemma entry_for_simps [simp]:
  "\<not> entry_for n []"
  "entry_for [] (c # e) \<longleftrightarrow> c = CHR ''=''"
  "entry_for (d # n) (c # e) \<longleftrightarrow> c = d \<and> entry_for n e"
  by (auto simp: entry_for_def)

lemma entry_matches_cstr:
  assumes "is_text e" "is_text n" "CHR ''='' \<notin> set n"
  shows "entry_matches (\<lambda>c. c \<noteq> NUL) (cstr e) (cstr n) = Inr (entry_for n e)"
  using assms
proof (induction e arbitrary: n)
  case Nil
  then show ?case by (simp add: entry_matches_def)
next
  case (Cons c e)
  show ?case
  proof (cases n)
    case Nil
    with Cons.prems show ?thesis by (simp add: entry_matches_def)
  next
    case (Cons d n')
    with Cons.IH [of n'] Cons.prems show ?thesis by (auto simp: entry_matches_def)
  qed
qed

lemma find_slot_entries:
  assumes "list_all is_text es" "is_text n" "CHR ''='' \<notin> set n"
  shows "find_slot (cstr n) ow i (map (\<lambda>e. Some (cstr e)) es @ None # rest) =
    Inr (case dropWhile (\<lambda>e. \<not> entry_for n e) es of
       [] \<Rightarrow> Some (i + length es, [])
     | e # _ \<Rightarrow> if ow then Some (i + length (takeWhile (\<lambda>e. \<not> entry_for n e) es), [cstr e])
                 else None)"
  using assms by (induction es arbitrary: i)
    (auto simp: entry_matches_cstr simp del: dropWhile_eq_Nil_conv split: list.split)

lemma has_equals_cstr: "is_text s \<Longrightarrow> has_equals (cstr s) = Inr (CHR ''='' \<in> set s)"
  by (induction s) auto

lemma fill_entry_eq:
  assumes "is_text n" "is_text v" "length buf = length n + length v + 2"
  shows "fill_entry buf (cstr n) (cstr v) = Inr (cstr (n @ ''='' @ v))"
proof -
  define b where "b = take (length n) buf"
  define c where "c = take (length v) (drop (length n + 1) buf)"
  have "length b = length n" "length c = length v" using assms by (simp_all add: b_def c_def)
  moreover have "buf = b @ buf ! length n # c @ [buf ! (length n + length v + 1)]"
    using assms by (intro nth_equalityI) (auto simp: b_def c_def nth_append nth_Cons
      split: nat.split intro!: arg_cong [where f = "nth buf"])
  then obtain x y where "buf = b @ x # c @ [y]" by blast
  ultimately show ?thesis
    using assms copy_text_cstr [of n b "[]" "x # c @ [y]"]
      copy_text_cstr [of v c "n @ ''=''" "[y]"]
    by (simp add: fill_entry_def list_update_append cstr_def)
qed

lemma strlen_cstr: "is_text s \<Longrightarrow> strlen (cstr s) = Inr (of_nat (length s))"
  by (simp add: strlen_eq cstr_def text_of_append)

lemma env_wait_free: "ms (env_lock s) = 0 \<Longrightarrow>
    env_wait acts s = Some (Inr (put_env_lock ((env_lock s)\<lparr>ms := 1\<rparr>) s, acts))"
  by (simp add: env_wait_def mutex_busywait_eq_wait mutex_wait_free)

lemma env_release_held: "ms (env_lock s) = 1 \<Longrightarrow>
    env_release s = Inr (put_env_lock ((env_lock s)\<lparr>ms := 0\<rparr>) s)"
  by (simp add: env_release_def mutex_release_held)

lemma setenv_locked_store:
  assumes "envp s = Some slots" "ms (env_lock s) = 1" "is_text n" "is_text v"
    and "find_slot (cstr n) ow 0 slots = Inr (Some (i, fs))" "i + 1 < length slots"
    and malloc: "malloc (of_nat (length n + length v + 2)) = Some buf"
      "length buf = length n + length v + 2"
  shows "setenv_locked table_ok malloc (cstr n) (cstr v) ow s =
    Inr (0, put_env_lock ((env_lock s)\<lparr>ms := 0\<rparr>)
      (s\<lparr>envp := Some (slots[i := Some (cstr (n @ ''='' @ v)), i + 1 := None]),
         freed := freed s @ fs\<rparr>))"
proof -
  have "(of_nat (length n) :: u32) + of_nat (length v) + 2 = of_nat (length n + length v + 2)"
    by simp
  then have "malloc (of_nat (length n) + of_nat (length v) + 2) = Some buf" using malloc by metis
  with assms show ?thesis
    by (simp add: setenv_locked_def strlen_cstr fill_entry_eq env_release_held)
qed

lemma store_entry:
  assumes "slots = map f pre @ tail" "length pre + 2 \<le> length slots"
  shows "\<exists>rest. slots[length pre := x, length pre + 1 := None] = map f pre @ x # None # rest \<and>
    length slots = length pre + 2 + length rest"
proof -
  from assms obtain a b rest where "tail = a # b # rest"
    by (cases tail; cases "tl tail") auto
  with assms show ?thesis by (simp add: list_update_append)
qed

section \<open>Properties\<close>

text \<open>C19. Setting a variable.  With the lock free, a valid name and value and enough slots, \<open>setenv\<close>
  returns whatever the other tasks do.  If the name is defined and must not be overwritten the
  result is \<open>-1\<close> and the environment is unchanged; otherwise the result is \<open>0\<close> and the
  environment consists of the entries before the first definition of the name followed by the
  new definition.  In particular a new name is appended, and overwriting a name drops every entry
  behind it.  The lock is free afterwards.\<close>

theorem setenv_effect:
  assumes "env_ok s es" "is_name n" "is_text v" "length n + length v + 2 < 2 ^ 32"
    and "length es + 2 \<le> env_slots"
    and malloc: "malloc (of_nat (length n + length v + 2)) = Some buf"
      "length buf = length n + length v + 2"
  shows "\<exists>s'. setenv table_ok malloc acts (Some (cstr n)) (cstr v) ow s =
      Some (Inr (if (\<exists>e\<in>set es. entry_for n e) \<and> \<not> ow then - 1 else 0, s', acts)) \<and>
    env_ok s' (if (\<exists>e\<in>set es. entry_for n e) \<and> \<not> ow then es
      else takeWhile (\<lambda>e. \<not> entry_for n e) es @ [n @ ''='' @ v])"
proof -
  let ?pre = "takeWhile (\<lambda>e. \<not> entry_for n e) es"
  from assms obtain rest where
    slots: "envp s = Some (map (\<lambda>e. Some (cstr e)) es @ None # rest)"
      "length es + length rest + 1 = env_slots" "list_all is_text es" "ms (env_lock s) = 0"
    by (auto simp: env_ok_def)
  define s1 where "s1 = put_env_lock ((env_lock s)\<lparr>ms := 1\<rparr>) s"
  have s1: "envp s1 = envp s" "ms (env_lock s1) = 1" by (simp_all add: s1_def)
  have n: "is_text n" "n \<noteq> []" "CHR ''='' \<notin> set n" using assms by (auto simp: is_name_def)
  then have len: "(of_nat (length n) :: u32) \<noteq> 0"
    using assms(4) unat_of_nat_u32 [of "length n"] by (metis add_lessD1 length_0_conv unat_0)
  have start: "setenv table_ok malloc acts (Some (cstr n)) (cstr v) ow s =
      bindR (Some (setenv_locked table_ok malloc (cstr n) (cstr v) ow s1)) (\<lambda>(r, s').
        Some (Inr (r, s', acts)))"
    using n len slots by (simp add: setenv_def strlen_cstr has_equals_cstr env_wait_free s1_def)
  have size: "(of_nat (length n) :: u32) + of_nat (length v) + 2 = of_nat (length n + length v + 2)"
    by simp
  show ?thesis
  proof (cases "(\<exists>e\<in>set es. entry_for n e) \<and> \<not> ow")
    case True
    then obtain e post where "dropWhile (\<lambda>e. \<not> entry_for n e) es = e # post"
      by (cases "dropWhile (\<lambda>e. \<not> entry_for n e) es") (auto simp: dropWhile_eq_Nil_conv)
    then have "find_slot (cstr n) ow 0 (the (envp s1)) = Inr None"
      using slots n s1 True by (simp add: find_slot_entries)
    then have "setenv_locked table_ok malloc (cstr n) (cstr v) ow s1 =
        Inr (- 1, put_env_lock ((env_lock s1)\<lparr>ms := 0\<rparr>) s1)"
      using slots s1 by (simp add: setenv_locked_def env_release_held)
    then show ?thesis using True start slots s1 by (auto simp: env_ok_def)
  next
    case False
    let ?slots = "map (\<lambda>e. Some (cstr e)) es @ None # rest"
    have "\<exists>fs. find_slot (cstr n) ow 0 ?slots = Inr (Some (length ?pre, fs))"
    proof (cases "dropWhile (\<lambda>e. \<not> entry_for n e) es")
      case Nil
      then have pre: "?pre = es" by (metis append_Nil2 takeWhile_dropWhile_id)
      show ?thesis
        using find_slot_entries [of es n ow 0 rest] slots n unfolding pre Nil by simp
    next
      case (Cons e post)
      then have "e \<in> set es" "entry_for n e"
        by (metis list.set_intros(1) set_dropWhileD, metis dropWhile_eq_Cons_conv)
      with False Cons show ?thesis using slots n by (auto simp: find_slot_entries)
    qed
    then obtain fs where found: "find_slot (cstr n) ow 0 ?slots = Inr (Some (length ?pre, fs))" ..
    have len: "length ?slots = env_slots" "length ?pre + 2 \<le> length ?slots"
      using slots assms(5) length_takeWhile_le [of "\<lambda>e. \<not> entry_for n e" es] by auto
    have split: "?slots = map (\<lambda>e. Some (cstr e)) ?pre @
        (map (\<lambda>e. Some (cstr e)) (dropWhile (\<lambda>e. \<not> entry_for n e) es) @ None # rest)"
      by (metis append_assoc map_append takeWhile_dropWhile_id)
    from store_entry [OF split len(2), of "Some (cstr (n @ ''='' @ v))"] obtain rest' where
      rest': "?slots[length ?pre := Some (cstr (n @ ''='' @ v)), length ?pre + 1 := None] =
        map (\<lambda>e. Some (cstr e)) ?pre @ Some (cstr (n @ ''='' @ v)) # None # rest'"
      "length ?slots = length ?pre + 2 + length rest'" by blast
    have texts: "list_all is_text (?pre @ [n @ ''='' @ v])"
      using slots(3) n assms(3)
      by (auto simp: list_all_iff is_text_def dest: set_takeWhileD)
    define s2 where "s2 = put_env_lock ((env_lock s1)\<lparr>ms := 0\<rparr>)
      (s1\<lparr>envp := Some (?slots[length ?pre := Some (cstr (n @ ''='' @ v)), length ?pre + 1 := None]),
         freed := freed s1 @ fs\<rparr>)"
    have "setenv_locked table_ok malloc (cstr n) (cstr v) ow s1 = Inr (0, s2)"
      using setenv_locked_store [of s1 ?slots n v ow "length ?pre" fs malloc buf table_ok]
        s1 slots(1) n assms(3) found len malloc by (simp add: s2_def)
    moreover have "env_ok s2 (?pre @ [n @ ''='' @ v])"
      using texts rest' len by (auto simp: env_ok_def s2_def)
    ultimately show ?thesis using False start by auto
  qed
qed

text \<open>A task whose environment defines \<open>A\<close>, \<open>B\<close> and \<open>C\<close>.\<close>

definition sample_env :: env_state where
  "sample_env = \<lparr>envp = Some (map (\<lambda>e. Some (cstr e)) [''A=1'', ''B=2'', ''C=3''] @
     None # replicate 252 None), env_lock = MUTEX_INITIALIZER, freed = []\<rparr>"

lemma sample_env_ok: "env_ok sample_env [''A=1'', ''B=2'', ''C=3'']"
  unfolding env_ok_def sample_env_def
  by (intro conjI exI [of _ "replicate 252 None"])
    (simp_all add: env_slots_def CONFIG_ENV_INITIAL_SIZE_def MUTEX_INITIALIZER_def)

text \<open>Overwriting \<open>B\<close> leaves \<open>A\<close> and the new \<open>B\<close>; \<open>C\<close> is gone.\<close>

theorem setenv_effect_witness:
  "\<exists>s'. setenv True (\<lambda>z. Some (replicate (unat z) NUL)) [] (Some (cstr ''B'')) (cstr ''7'') True
      sample_env = Some (Inr (0, s', [])) \<and> env_ok s' [''A=1'', ''B=7'']"
  using setenv_effect [OF sample_env_ok, of "''B''" "''7''"
      "\<lambda>z. Some (replicate (unat z) NUL)" "replicate 4 NUL" True "[]" True]
  by (simp add: is_name_def env_slots_def CONFIG_ENV_INITIAL_SIZE_def)

text \<open>C36. Unsetting a variable never finishes on a non-empty environment: the outer loop of
  \<open>unsetenv\<close> has no step to the next entry and its comparison cannot succeed for a non-empty
  name, so for every name the call does not return, whether or not the variable is set.\<close>

theorem unsetenv_never_returns:
  assumes "envp s = Some (Some (cstr e) # slots)" "is_text e" "is_text n" "n \<noteq> []"
    and "length n < 2 ^ 32"
  shows "unsetenv (Some (cstr n)) s = None"
proof -
  have no: "entry_matches (\<lambda>c. c = NUL) (cstr e) (cstr n) = Inr False"
    using assms by (cases e; cases n) (auto simp: entry_matches_def)
  have "\<not> (nm = cstr n \<and> i = 0 \<and> t = s)" if "unset_loop nm i t = Some r" for nm i t r
    using that
  proof (rule unset_loop.raw_induct [rotated])
    fix f nm i t r
    assume ih: "\<And>nm i t r. f nm i t = Some r \<Longrightarrow> \<not> (nm = cstr n \<and> i = 0 \<and> t = s)"
      and "(case envp t of
        None \<Rightarrow> Some (Inl Null_Deref)
      | Some slots \<Rightarrow>
          if length slots \<le> i then Some (Inl Out_Of_Bounds)
          else (case slots ! i of
              None \<Rightarrow> Some (Inr t)
            | Some e \<Rightarrow>
                (case entry_matches (\<lambda>n. n = NUL) e nm of
                   Inl u \<Rightarrow> Some (Inl u)
                 | Inr m \<Rightarrow>
                     if m then
                       Some (bindE (shift_slots slots i) (\<lambda>slots'.
                         Inr (t\<lparr>envp := Some slots', freed := freed t @ [e]\<rparr>)))
                     else f nm i t))) = Some r"
    then show "\<not> (nm = cstr n \<and> i = 0 \<and> t = s)" using ih [of "cstr n" 0 s r] assms(1) no by auto
  qed
  then have "unset_loop (cstr n) 0 s = None" by (cases "unset_loop (cstr n) 0 s") auto
  moreover have "(of_nat (length n) :: u32) \<noteq> 0"
    using assms unat_of_nat_u32 [of "length n"] by (metis length_0_conv unat_0)
  ultimately show ?thesis using assms by (simp add: unsetenv_def strlen_cstr)
qed

theorem unsetenv_never_returns_witness: "unsetenv (Some (cstr ''A'')) sample_env = None"
  by (rule unsetenv_never_returns [where e = "''A=1''"]) (simp_all add: sample_env_def)

end
