(* ===== verification/Vfs_Path.thy ===== *)
theory Vfs_Path
  imports CString
begin

text \<open>
  The path routines of \<open>kernel/vfs.c\<close>: \<open>vfs_get_path_level\<close>, which copies one component of a path
  into a buffer, and \<open>get_path_from_level\<close>, which skips components.  The reference is the list of
  components obtained by splitting at the slashes.  A pointer into the path is the rest of the
  buffer from there on.
\<close>

definition MAX_PATH :: nat where "MAX_PATH = 255"

section \<open>Routines\<close>

text \<open>\<open>while (*filename != '/' && *filename != NULL) filename++;\<close>\<close>

fun skip_component :: "string \<Rightarrow> string outcome" where
  "skip_component [] = Inl Out_Of_Bounds"
| "skip_component (c # s) =
     (if c \<noteq> CHR ''/'' \<and> c \<noteq> NUL then skip_component s else Inr (c # s))"

text \<open>The start of the given level; \<open>None\<close> where the source returns \<open>NULL\<close>.\<close>

fun start_of_level :: "nat \<Rightarrow> string \<Rightarrow> string option outcome" where
  "start_of_level 0 filename = Inr (Some filename)"
| "start_of_level (Suc level) filename =
     bindE (skip_component filename) (\<lambda>f.
     bindE (readE f 0) (\<lambda>c. if c = NUL then Inr None else start_of_level level (tl f)))"

text \<open>\<open>for (i = 0; i < sz; i++) s[i] = *start++; s[i] = NULL;\<close>\<close>

fun copy_name :: "string \<Rightarrow> nat \<Rightarrow> string \<Rightarrow> nat \<Rightarrow> string outcome" where
  "copy_name s i start 0 = writeE s i NUL"
| "copy_name s i start (Suc sz) =
     bindE (readE start 0) (\<lambda>c. bindE (writeE s i c) (\<lambda>s'. copy_name s' (i + 1) (tl start) sz))"

text \<open>
  \<open>None\<close> is the result \<open>NULL\<close>, with the buffer untouched; otherwise the result is the buffer, with
  its new content.
\<close>

definition vfs_get_path_level :: "string \<Rightarrow> u32 \<Rightarrow> string option \<Rightarrow> string option outcome" where
  "vfs_get_path_level filename level buf =
     bindE (strlen filename) (\<lambda>n.
     bindE (assertE (unat n \<le> MAX_PATH)) (\<lambda>_.
     bindE (readE filename 0) (\<lambda>c.
     bindE (start_of_level (unat level) (if c = CHR ''/'' then tl filename else filename))
       (\<lambda>found. case found of
          None \<Rightarrow> Inr None
        | Some start \<Rightarrow>
            bindE (skip_component start) (\<lambda>f.
            let sz = length start - length f in
            if sz = 0 then Inr None
            else case buf of
                None \<Rightarrow> Inr None
              | Some s \<Rightarrow> bindE (copy_name s 0 start sz) (\<lambda>s'. Inr (Some s')))))))"

text \<open>\<open>level\<close> is a signed integer: the loop body does not run when it is negative.\<close>

fun path_from_level :: "nat \<Rightarrow> string \<Rightarrow> string outcome" where
  "path_from_level 0 p = Inr p"
| "path_from_level (Suc level) p =
     bindE (skip_component p) (\<lambda>f.
     bindE (readE f 0) (\<lambda>c.
     if c = NUL then Inr f
     else bindE (readE (tl f) 0) (\<lambda>d.
          if d = NUL then Inr (tl f) else path_from_level level (tl f))))"

definition get_path_from_level :: "string \<Rightarrow> i32 \<Rightarrow> string outcome" where
  "get_path_from_level path level =
     bindE (readE path 0) (\<lambda>c.
     path_from_level (nat (sint level)) (if c = CHR ''/'' then tl path else path))"

section \<open>Components of a path\<close>

fun split_slash :: "string \<Rightarrow> string list" where
  "split_slash [] = [[]]"
| "split_slash (c # s) =
     (if c = CHR ''/'' then [] # split_slash s
      else (c # hd (split_slash s)) # tl (split_slash s))"

definition strip_slash :: "string \<Rightarrow> string" where
  "strip_slash p = (if p \<noteq> [] \<and> hd p = CHR ''/'' then tl p else p)"

text \<open>The components up to the first empty one: what the levels of a path are.\<close>

definition components :: "string \<Rightarrow> string list" where
  "components p = takeWhile (\<lambda>c. c \<noteq> []) (split_slash (strip_slash p))"

section \<open>Lemmas\<close>

lemma split_slash_not_Nil [simp]: "split_slash s \<noteq> []"
  by (cases s) auto

lemma split_slash_cases:
  obtains (last) "CHR ''/'' \<notin> set s" "split_slash s = [s]"
    | (more) a r where "s = a @ CHR ''/'' # r" "CHR ''/'' \<notin> set a"
        "split_slash s = a # split_slash r"
proof -
  have "CHR ''/'' \<notin> set s \<and> split_slash s = [s] \<or>
    (\<exists>a r. s = a @ CHR ''/'' # r \<and> CHR ''/'' \<notin> set a \<and> split_slash s = a # split_slash r)"
  proof (induction s)
    case (Cons c s)
    show ?case
    proof (cases "c = CHR ''/''")
      case False
      from Cons.IH show ?thesis
      proof (elim disjE exE conjE)
        fix a r assume "s = a @ CHR ''/'' # r" "CHR ''/'' \<notin> set a" "split_slash s = a # split_slash r"
        with False show ?thesis by (intro disjI2 exI [of _ "c # a"] exI [of _ r]) auto
      qed (use False in auto)
    qed (auto intro: exI [of _ "[]"])
  qed simp
  with that show ?thesis by blast
qed

lemma skip_component_at:
  "is_text a \<Longrightarrow> CHR ''/'' \<notin> set a \<Longrightarrow> d = CHR ''/'' \<or> d = NUL \<Longrightarrow>
    skip_component (a @ d # r) = Inr (d # r)"
  by (induction a) auto

lemma is_text_append [simp]: "is_text (s @ t) \<longleftrightarrow> is_text s \<and> is_text t"
  by (simp add: is_text_def)

lemma start_of_level_cstr:
  assumes "is_text s"
  shows "\<exists>t. start_of_level l (cstr s) =
      Inr (if l < length (split_slash s) then Some (cstr t) else None) \<and> is_text t \<and>
    (l < length (split_slash s) \<longrightarrow> split_slash t = drop l (split_slash s)) \<and> length t \<le> length s"
  using assms
proof (induction l arbitrary: s)
  case 0
  then show ?case by (auto intro: exI [of _ s])
next
  case (Suc l)
  show ?case
  proof (cases s rule: split_slash_cases)
    case last
    with Suc.prems have "start_of_level (Suc l) (cstr s) = Inr None"
      by (simp add: cstr_def skip_component_at)
    with last show ?thesis by (auto intro: exI [of _ "[]"])
  next
    case (more a r)
    with Suc.prems have "start_of_level (Suc l) (cstr s) = start_of_level l (cstr r)"
      by (simp add: cstr_def skip_component_at)
    moreover obtain t where "start_of_level l (cstr r) =
        Inr (if l < length (split_slash r) then Some (cstr t) else None)" "is_text t"
        "l < length (split_slash r) \<longrightarrow> split_slash t = drop l (split_slash r)" "length t \<le> length r"
      using Suc.IH [of r] Suc.prems more by auto
    ultimately show ?thesis using more by auto
  qed
qed

lemma copy_name_eq:
  "sz \<le> length start \<Longrightarrow> i + sz < length s \<Longrightarrow>
    copy_name s i start sz = Inr (take i s @ take sz start @ NUL # drop (i + sz + 1) s)"
proof (induction sz arbitrary: s i start)
  case 0
  then show ?case by (simp add: upd_conv_take_nth_drop)
next
  case (Suc sz)
  then obtain c r where "start = c # r" by (cases start) auto
  with Suc show ?case by (simp add: take_Suc_conv_app_nth)
qed

text \<open>The component at a level, as the buffer the routine leaves.\<close>

lemma vfs_get_path_level_eq:
  assumes "is_text p" "length p \<le> MAX_PATH" "MAX_PATH < length buf"
  shows "vfs_get_path_level (cstr p) level (Some buf) =
    Inr (let cs = split_slash (strip_slash p); l = unat level in
      if l < length cs \<and> cs ! l \<noteq> [] then
        Some ((cs ! l) @ NUL # drop (length (cs ! l) + 1) buf) else None)"
proof -
  define q where "q = strip_slash p"
  have q: "is_text q" "length q \<le> MAX_PATH"
    using assms by (cases p; auto simp: q_def strip_slash_def)+
  have hd: "(if hd (cstr p) = CHR ''/'' then tl (cstr p) else cstr p) = cstr q"
    by (cases p) (auto simp: q_def strip_slash_def)
  have len: "strlen (cstr p) = Inr (of_nat (length p))" "unat (of_nat (length p) :: u32) = length p"
    using assms by (simp_all add: strlen_eq cstr_def text_of_append unat_of_nat_u32 MAX_PATH_def)
  have rd: "readE (cstr p) 0 = Inr (hd (cstr p))" by (cases p) (auto simp: cstr_def)
  obtain t where t: "start_of_level (unat level) (cstr q) =
      Inr (if unat level < length (split_slash q) then Some (cstr t) else None)" "is_text t"
      "unat level < length (split_slash q) \<longrightarrow> split_slash t = drop (unat level) (split_slash q)"
      "length t \<le> length q"
    using start_of_level_cstr [OF q(1), of "unat level"] by auto
  show ?thesis
  proof (cases "unat level < length (split_slash q)")
    case False
    with t show ?thesis
      using len rd assms by (simp add: vfs_get_path_level_def hd q_def [symmetric] Let_def)
  next
    case True
    then have nth: "split_slash q ! unat level = hd (split_slash t)"
      using t(3) by (metis hd_drop_conv_nth)
    let ?a = "hd (split_slash t)"
    have "\<exists>d r. cstr t = ?a @ d # r \<and> skip_component (cstr t) = Inr (d # r) \<and> length ?a \<le> length t"
      using t(2) by (cases t rule: split_slash_cases) (auto simp: cstr_def skip_component_at)
    then obtain d r where dr: "cstr t = ?a @ d # r" "skip_component (cstr t) = Inr (d # r)"
      "length ?a \<le> length t" by blast
    have "copy_name buf 0 (cstr t) (length ?a) = Inr (?a @ NUL # drop (length ?a + 1) buf)"
      using copy_name_eq [of "length ?a" "cstr t" 0 buf] dr t(4) q assms by (simp add: MAX_PATH_def)
    moreover have "length (cstr t) - length (d # r) = length ?a"
      "length (cstr t) \<le> Suc (length r) \<longleftrightarrow> ?a = []" using dr by simp_all
    ultimately show ?thesis
      using len rd assms True t(1,2) dr(2) nth
      by (simp add: vfs_get_path_level_def hd q_def [symmetric] Let_def)
  qed
qed

lemma components_nth:
  assumes "l < length (components p)"
  shows "l < length (split_slash (strip_slash p))" "components p ! l = split_slash (strip_slash p) ! l"
    "components p ! l \<noteq> []"
proof -
  let ?cs = "split_slash (strip_slash p)"
  show "l < length ?cs" using assms length_takeWhile_le [of "\<lambda>c. c \<noteq> []" ?cs]
    by (simp add: components_def)
  show "components p ! l = ?cs ! l" using assms by (simp add: components_def takeWhile_nth)
  have "components p ! l \<in> set (components p)" using assms by simp
  then show "components p ! l \<noteq> []" by (auto simp: components_def dest: set_takeWhileD)
qed

lemma level_component:
  assumes "is_text p" "length p \<le> MAX_PATH" "MAX_PATH < length buf"
  shows "unat level < length (components p) \<Longrightarrow> vfs_get_path_level (cstr p) level (Some buf) =
      Inr (Some ((components p ! unat level) @ NUL # drop (length (components p ! unat level) + 1) buf))"
    and "unat level = length (components p) \<Longrightarrow>
      vfs_get_path_level (cstr p) level (Some buf) = Inr None"
proof -
  let ?cs = "split_slash (strip_slash p)"
  show "vfs_get_path_level (cstr p) level (Some buf) =
      Inr (Some ((components p ! unat level) @ NUL # drop (length (components p ! unat level) + 1) buf))"
    if "unat level < length (components p)"
    using components_nth [OF that] vfs_get_path_level_eq [OF assms, of level] by (simp add: Let_def)
  show "vfs_get_path_level (cstr p) level (Some buf) = Inr None"
    if "unat level = length (components p)"
  proof (cases "unat level < length ?cs")
    case True
    with that have "?cs ! unat level = []"
      unfolding components_def by (metis (mono_tags, lifting) nth_length_takeWhile)
    then show ?thesis using vfs_get_path_level_eq [OF assms, of level] by (simp add: Let_def)
  next
    case False
    then show ?thesis using vfs_get_path_level_eq [OF assms, of level] by (simp add: Let_def)
  qed
qed

lemma length_split_slash: "length (split_slash s) \<le> length s + 1"
proof (induction s)
  case (Cons c s)
  then show ?case by (cases "split_slash s") auto
qed simp

lemma length_components: "length (components p) \<le> length p + 1"
proof -
  have "length (components p) \<le> length (split_slash (strip_slash p))"
    by (simp add: components_def length_takeWhile_le)
  also have "\<dots> \<le> length (strip_slash p) + 1" by (rule length_split_slash)
  also have "\<dots> \<le> length p + 1" by (simp add: strip_slash_def)
  finally show ?thesis .
qed

lemma component_is_text: "is_text p \<Longrightarrow> c \<in> set (split_slash p) \<Longrightarrow> is_text c"
proof (induction p arbitrary: c)
  case (Cons d p)
  have "hd (split_slash p) \<in> set (split_slash p)" "set (tl (split_slash p)) \<subseteq> set (split_slash p)"
    by (simp, metis split_slash_not_Nil list.collapse set_subset_Cons)
  with Cons show ?case by (auto split: if_splits)
qed simp

lemma components_is_text:
  assumes "is_text p" "c \<in> set (components p)"
  shows "is_text c"
proof -
  have "is_text (strip_slash p)" using assms(1) by (cases p) (auto simp: strip_slash_def)
  moreover have "c \<in> set (split_slash (strip_slash p))"
    using assms(2) by (auto simp: components_def dest: set_takeWhileD)
  ultimately show ?thesis by (rule component_is_text)
qed

text \<open>A path made of names resolves into those names.\<close>

definition plain_name :: "string \<Rightarrow> bool" where
  "plain_name n = (n \<noteq> [] \<and> is_text n \<and> CHR ''/'' \<notin> set n \<and> n \<noteq> ''.'' \<and> n \<noteq> ''..'')"

definition path_of :: "string list \<Rightarrow> string" where
  "path_of ns = concat (map (\<lambda>n. CHR ''/'' # n) ns)"

lemma split_slash_append: "CHR ''/'' \<notin> set n \<Longrightarrow>
    split_slash (n @ CHR ''/'' # s) = n # split_slash s"
  by (induction n) auto

lemma split_slash_plain: "CHR ''/'' \<notin> set n \<Longrightarrow> split_slash n = [n]"
  by (induction n) auto

lemma components_path_of:
  assumes "list_all plain_name ns" "ns \<noteq> []"
  shows "components (path_of ns) = ns"
proof -
  have "split_slash (n @ path_of ms) = n # ms" if "list_all plain_name (n # ms)" for n ms
    using that
  proof (induction ms arbitrary: n)
    case (Cons m ms)
    then have "split_slash (n @ CHR ''/'' # (m @ path_of ms)) = n # m # ms"
      by (subst split_slash_append) (auto simp: plain_name_def)
    then show ?case by (simp add: path_of_def)
  qed (simp add: path_of_def plain_name_def split_slash_plain)
  with assms have "split_slash (strip_slash (path_of ns)) = ns"
    by (cases ns) (auto simp: path_of_def strip_slash_def)
  moreover have "takeWhile (\<lambda>c. c \<noteq> []) ns = ns"
    using assms by (auto simp: list_all_iff plain_name_def)
  ultimately show ?thesis by (simp add: components_def)
qed

end
