(* ===== verification/Vfs.thy ===== *)
theory Vfs
  imports Vfs_Path Mutex
begin

text \<open>
  The virtual file system of \<open>kernel/vfs.c\<close>: the nodes by address, the root, the mounted root file
  system and the count of root nodes, with the working directory and error number of the current
  task.  The operations a node carries as function pointers belong to the drivers; \<open>vfs_ops\<close> is
  the effect of calling the function at an address, an argument of the definitions.  A call
  through a \<open>NULL\<close> function pointer traps.  Memory given to \<open>free\<close> is recorded.
\<close>

section \<open>State\<close>

definition FS_FILE :: u32 where "FS_FILE = 1"
definition FS_DIRECTORY :: u32 where "FS_DIRECTORY = 2"
definition FS_CHARDEVICE :: u32 where "FS_CHARDEVICE = 3"
definition FS_PIPE :: u32 where "FS_PIPE = 5"
definition FS_AUTOFREE :: u32 where "FS_AUTOFREE = 0x20000"
definition MODE_TYPE_DIRECTORY :: u32 where "MODE_TYPE_DIRECTORY = 1"
definition MODE_TYPE_CHARDEVICE :: u32 where "MODE_TYPE_CHARDEVICE = 8"

lemmas FS_defs = FS_FILE_def FS_DIRECTORY_def FS_CHARDEVICE_def FS_PIPE_def FS_AUTOFREE_def

record vfs_node_t =
  nd_name :: string
  nd_uid :: i32
  nd_gid :: i32
  nd_mask :: u32
  nd_flags :: u32
  nd_inode :: u32
  nd_major :: u32
  nd_minor :: u32
  nd_length :: u32
  nd_impl :: u32
  nd_refs :: u32
  nd_data :: addr
  nd_lock :: mutex_t
  nd_read :: addr
  nd_write :: addr
  nd_open :: addr
  nd_close :: addr
  nd_readdir :: addr
  nd_finddir :: addr
  nd_stat :: addr
  nd_ioctl :: addr
  nd_chown :: addr
  nd_parent :: addr
  nd_ptr :: addr
  nd_next :: addr

definition VFS_NODE_INITIALIZER :: "u32 \<Rightarrow> vfs_node_t" where
  "VFS_NODE_INITIALIZER f = \<lparr>nd_name = replicate 256 NUL, nd_uid = 0, nd_gid = 0, nd_mask = 777,
     nd_flags = f, nd_inode = 0, nd_major = 0, nd_minor = 0, nd_length = 0, nd_impl = 0,
     nd_refs = 0, nd_data = NULL, nd_lock = MUTEX_INITIALIZER, nd_read = NULL, nd_write = NULL,
     nd_open = NULL, nd_close = NULL, nd_readdir = NULL, nd_finddir = NULL, nd_stat = NULL,
     nd_ioctl = NULL, nd_chown = NULL, nd_parent = NULL, nd_ptr = NULL, nd_next = NULL\<rparr>"

record dirent =
  d_name :: string
  d_ino :: u32
  d_index :: u32

record stat_t =
  st_dev :: u32
  st_ino :: u32
  st_mode :: u32
  st_nlink :: u32
  st_uid :: i32
  st_gid :: i32
  st_rdev :: u32
  st_size :: u32
  st_atime :: u32
  st_mtime :: u32
  st_ctime :: u32
  st_blksize :: u32
  st_blocks :: u32

record vfs =
  nodes :: "addr \<Rightarrow> vfs_node_t"
  vfs_root :: addr
  vfs_root_mount :: addr
  vfs_root_nodes :: u32
  cwd :: addr
  errno :: i32
  pipe_buf :: "addr \<Rightarrow> addr"
  released :: "addr list"

text \<open>The driver functions: function pointer, node, further arguments.\<close>

record vfs_ops =
  op_read :: "addr \<Rightarrow> addr \<Rightarrow> u32 \<Rightarrow> u32 \<Rightarrow> vfs \<Rightarrow> u32 \<times> u8 list \<times> vfs"
  op_write :: "addr \<Rightarrow> addr \<Rightarrow> u32 \<Rightarrow> u32 \<Rightarrow> u8 list \<Rightarrow> vfs \<Rightarrow> u32 \<times> vfs"
  op_open :: "addr \<Rightarrow> addr \<Rightarrow> string \<Rightarrow> vfs \<Rightarrow> addr \<times> vfs"
  op_readdir :: "addr \<Rightarrow> addr \<Rightarrow> u32 \<Rightarrow> dirent \<Rightarrow> vfs \<Rightarrow> dirent option \<times> vfs"
  op_finddir :: "addr \<Rightarrow> addr \<Rightarrow> string option \<Rightarrow> vfs \<Rightarrow> addr \<times> vfs"
  op_stat :: "addr \<Rightarrow> addr \<Rightarrow> string option \<Rightarrow> stat_t \<Rightarrow> vfs \<Rightarrow> stat_t option \<times> vfs"
  op_ioctl :: "addr \<Rightarrow> addr \<Rightarrow> u32 \<Rightarrow> u32 \<Rightarrow> vfs \<Rightarrow> i32 \<times> vfs"
  op_chown :: "addr \<Rightarrow> addr \<Rightarrow> i32 \<Rightarrow> i32 \<Rightarrow> vfs \<Rightarrow> i32 \<times> vfs"

definition upd_node :: "addr \<Rightarrow> (vfs_node_t \<Rightarrow> vfs_node_t) \<Rightarrow> vfs \<Rightarrow> vfs" where
  "upd_node a f s = s\<lparr>nodes := (nodes s)(a := f (nodes s a))\<rparr>"

abbreviation next_node :: "vfs \<Rightarrow> addr \<Rightarrow> addr" where
  "next_node s a \<equiv> nd_next (nodes s a)"

text \<open>The lock of a node, waited for with the actions of the rest of the system.\<close>

definition node_wait :: "addr \<Rightarrow> (vfs \<Rightarrow> vfs) list \<Rightarrow> vfs \<Rightarrow> (vfs \<times> (vfs \<Rightarrow> vfs) list) run" where
  "node_wait a acts s =
     mutex_wait (\<lambda>s. nd_lock (nodes s a)) (\<lambda>m. upd_node a (\<lambda>n. n\<lparr>nd_lock := m\<rparr>)) acts s"

definition node_busywait :: "addr \<Rightarrow> (vfs \<Rightarrow> vfs) list \<Rightarrow> vfs \<Rightarrow> (vfs \<times> (vfs \<Rightarrow> vfs) list) run" where
  "node_busywait a acts s =
     mutex_busywait (\<lambda>s. nd_lock (nodes s a)) (\<lambda>m. upd_node a (\<lambda>n. n\<lparr>nd_lock := m\<rparr>)) acts s"

definition node_release :: "addr \<Rightarrow> vfs \<Rightarrow> vfs outcome" where
  "node_release a s =
     bindE (mutex_release (nd_lock (nodes s a))) (\<lambda>m. Inr (upd_node a (\<lambda>n. n\<lparr>nd_lock := m\<rparr>) s))"

section \<open>The tree\<close>

definition vfs_switch_root :: "addr \<Rightarrow> vfs \<Rightarrow> vfs" where
  "vfs_switch_root newroot s = s\<lparr>vfs_root_mount := newroot\<rparr>"

text \<open>
  \<open>new\<close> is what \<open>malloc\<close> returned.  The name is copied before the initialiser overwrites the whole
  node, so the root has no name.
\<close>

definition vfs_init :: "addr \<Rightarrow> addr \<Rightarrow> vfs \<Rightarrow> vfs outcome" where
  "vfs_init new root s =
     (if root = NULL then Inl Kernel_Panic
      else if new = NULL then Inl Null_Deref
      else bindE (strcpy (nd_name (nodes s new)) (cstr ''root'')) (\<lambda>_.
        Inr (vfs_switch_root root
          (upd_node new (\<lambda>_. VFS_NODE_INITIALIZER FS_DIRECTORY) (s\<lparr>vfs_root := new\<rparr>)))))"

definition count_root_node :: "addr \<Rightarrow> vfs \<Rightarrow> vfs" where
  "count_root_node parent s =
     (if parent = vfs_root s then s\<lparr>vfs_root_nodes := vfs_root_nodes s + 1\<rparr> else s)"

text \<open>The part of \<open>vfs_mknod\<close> with the lock of the parent held.\<close>

definition attach_node :: "addr \<Rightarrow> addr \<Rightarrow> vfs \<Rightarrow> vfs option" where
  "attach_node parent node s0 =
     (let s = upd_node node (\<lambda>n. n\<lparr>nd_parent := parent\<rparr>) s0 in
      if nd_ptr (nodes s parent) = NULL then
        Some (count_root_node parent (upd_node parent (\<lambda>n. n\<lparr>nd_ptr := node\<rparr>) s))
      else case walk_last (next_node s) (nd_ptr (nodes s parent)) of
          None \<Rightarrow> None
        | Some tmp \<Rightarrow> Some (count_root_node parent (upd_node tmp (\<lambda>n. n\<lparr>nd_next := node\<rparr>) s)))"

definition vfs_mknod :: "addr \<Rightarrow> addr \<Rightarrow> (vfs \<Rightarrow> vfs) list \<Rightarrow> vfs \<Rightarrow>
    (i32 \<times> vfs \<times> (vfs \<Rightarrow> vfs) list) run" where
  "vfs_mknod parent0 node acts s =
     (if node = NULL \<or> next_node s node \<noteq> NULL then Some (Inl Assert_Failed)
      else
        let parent = (if parent0 = NULL then vfs_root s else parent0) in
        if parent = NULL then Some (Inl Null_Deref)
        else if nd_flags (nodes s parent) AND FS_DIRECTORY = 0 then Some (Inr (- 1, s, acts))
        else bindR (node_busywait parent acts s) (\<lambda>(s1, es).
          case attach_node parent node s1 of
            None \<Rightarrow> None
          | Some s2 \<Rightarrow> bindR (Some (node_release parent s2)) (\<lambda>s3. Some (Inr (0, s3, es)))))"

text \<open>
  \<open>while (tmp != NULL && tmp != node) { sibling = tmp; tmp = tmp->next; }\<close>, giving \<open>sibling\<close> and
  \<open>tmp\<close>.
\<close>

partial_function (option) seek_sibling ::
    "(addr \<Rightarrow> addr) \<Rightarrow> addr \<Rightarrow> addr \<Rightarrow> addr \<Rightarrow> (addr \<times> addr) option" where
  "seek_sibling nxt node sibling tmp =
     (if tmp \<noteq> NULL \<and> tmp \<noteq> node then seek_sibling nxt node tmp (nxt tmp)
      else Some (sibling, tmp))"

declare seek_sibling.simps [simp del]

definition vfs_rmnod :: "addr \<Rightarrow> (vfs \<Rightarrow> vfs) list \<Rightarrow> vfs \<Rightarrow>
    (i32 \<times> vfs \<times> (vfs \<Rightarrow> vfs) list) run" where
  "vfs_rmnod node acts s =
     (if node = NULL then Some (Inl Assert_Failed)
      else
        let parent = nd_parent (nodes s node) in
        if parent = NULL then Some (Inl Assert_Failed)
        else if nd_ptr (nodes s parent) = NULL then Some (Inr (- 1, s, acts))
        else bindR (node_busywait parent acts s) (\<lambda>(s1, es).
          let parent = nd_parent (nodes s1 node) in
          case seek_sibling (next_node s1) node NULL (nd_ptr (nodes s1 parent)) of
            None \<Rightarrow> None
          | Some (sibling, tmp) \<Rightarrow>
              if tmp = NULL then
                bindR (Some (node_release parent s1)) (\<lambda>s2. Some (Inr (- 1, s2, es)))
              else
                let s2 = (if sibling = NULL
                          then upd_node parent (\<lambda>n. n\<lparr>nd_ptr := next_node s1 node\<rparr>) s1
                          else upd_node sibling (\<lambda>n. n\<lparr>nd_next := next_node s1 node\<rparr>) s1) in
                bindR (Some (node_release parent s2)) (\<lambda>s3.
                Some (Inr (0, upd_node node (\<lambda>n. n\<lparr>nd_next := NULL\<rparr>) s3, es)))))"

section \<open>Reading and writing\<close>

text \<open>The buffer argument of \<open>vfs_read\<close> is only tested for \<open>NULL\<close>; the bytes read are returned.\<close>

definition vfs_read :: "vfs_ops \<Rightarrow> addr \<Rightarrow> u32 \<Rightarrow> u32 \<Rightarrow> addr \<Rightarrow> vfs \<Rightarrow>
    (u32 \<times> u8 list \<times> vfs) outcome" where
  "vfs_read d node offset sz buffer s =
     bindE (assertE (node \<noteq> NULL)) (\<lambda>_.
     bindE (assertE (buffer \<noteq> NULL)) (\<lambda>_.
     bindE (assertE (sz > 0)) (\<lambda>_.
     if nd_read (nodes s node) \<noteq> NULL then Inr (op_read d (nd_read (nodes s node)) node offset sz s)
     else Inr (0, [], s))))"

definition vfs_put :: "vfs_ops \<Rightarrow> addr \<Rightarrow> u8 \<Rightarrow> vfs \<Rightarrow> (u32 \<times> vfs) outcome" where
  "vfs_put d node c s =
     bindE (assertE (node \<noteq> NULL)) (\<lambda>_.
     bindE (assertE (nd_flags (nodes s node) AND FS_CHARDEVICE \<noteq> 0)) (\<lambda>_.
     if nd_write (nodes s node) \<noteq> NULL then Inr (op_write d (nd_write (nodes s node)) node 0 1 [c] s)
     else Inr (0, s)))"

definition vfs_put_s :: "vfs_ops \<Rightarrow> addr \<Rightarrow> string \<Rightarrow> vfs \<Rightarrow> (u32 \<times> vfs) outcome" where
  "vfs_put_s d node str s =
     bindE (assertE (node \<noteq> NULL)) (\<lambda>_.
     bindE (assertE (nd_flags (nodes s node) AND FS_CHARDEVICE \<noteq> 0)) (\<lambda>_.
     if nd_write (nodes s node) \<noteq> NULL then
       bindE (strlen str) (\<lambda>n.
       Inr (op_write d (nd_write (nodes s node)) node 0 (n + 1) (map of_char str) s))
     else Inr (0, s)))"

definition vfs_write :: "vfs_ops \<Rightarrow> addr \<Rightarrow> u32 \<Rightarrow> u32 \<Rightarrow> u8 list option \<Rightarrow> vfs \<Rightarrow>
    (u32 \<times> vfs) outcome" where
  "vfs_write d node offset sz buffer s =
     bindE (assertE (node \<noteq> NULL)) (\<lambda>_.
     case buffer of
       None \<Rightarrow> Inl Assert_Failed
     | Some b \<Rightarrow>
         if nd_write (nodes s node) \<noteq> NULL then
           Inr (op_write d (nd_write (nodes s node)) node offset sz b s)
         else Inr (0, s))"

definition vfs_ioctl :: "vfs_ops \<Rightarrow> addr \<Rightarrow> u32 \<Rightarrow> u32 \<Rightarrow> vfs \<Rightarrow> (i32 \<times> vfs) outcome" where
  "vfs_ioctl d node request last_arg s =
     bindE (assertE (node \<noteq> NULL)) (\<lambda>_.
     if nd_ioctl (nodes s node) \<noteq> NULL then
       Inr (op_ioctl d (nd_ioctl (nodes s node)) node request last_arg s)
     else Inr (ENOENT, s))"

definition vfs_chown :: "vfs_ops \<Rightarrow> addr \<Rightarrow> i32 \<Rightarrow> i32 \<Rightarrow> vfs \<Rightarrow> (i32 \<times> vfs) outcome" where
  "vfs_chown d node uid gid s =
     bindE (assertE (node \<noteq> NULL)) (\<lambda>_.
     if nd_chown (nodes s node) \<noteq> NULL then
       Inr (op_chown d (nd_chown (nodes s node)) node uid gid s)
     else Inr (ESUCCESS, upd_node node (\<lambda>n. n\<lparr>nd_uid := uid, nd_gid := gid\<rparr>) s))"

definition vfs_opendev :: "u32 \<Rightarrow> u32 \<Rightarrow> vfs \<Rightarrow> addr \<times> vfs" where
  "vfs_opendev major minor s = (NULL, s\<lparr>errno := ENOSYS\<rparr>)"

section \<open>Directories\<close>

text \<open>
  \<open>while (tmp != NULL && strcmp(tmp->name, name)) tmp = tmp->next;\<close>  The name is \<open>NULL\<close> when
  \<open>vfs_stat\<close> is given the root path.
\<close>

partial_function (option) find_named :: "(addr \<Rightarrow> vfs_node_t) \<Rightarrow> string option \<Rightarrow> addr \<Rightarrow> addr run" where
  "find_named h name tmp =
     (if tmp = NULL then Some (Inr NULL)
      else case name of
          None \<Rightarrow> Some (Inl Null_Deref)
        | Some nm \<Rightarrow>
            (case strcmp (nd_name (h tmp)) nm of
               Inl t \<Rightarrow> Some (Inl t)
             | Inr r \<Rightarrow> if r \<noteq> 0 then find_named h name (nd_next (h tmp)) else Some (Inr tmp)))"

declare find_named.simps [simp del]

definition vfs_finddir :: "vfs_ops \<Rightarrow> addr \<Rightarrow> string option \<Rightarrow> vfs \<Rightarrow> (addr \<times> vfs) run" where
  "vfs_finddir d node0 name s =
     (let node = (if node0 = NULL then vfs_root s else node0) in
      if node = NULL then Some (Inl Null_Deref)
      else if nd_flags (nodes s node) AND 7 = FS_DIRECTORY \<and> nd_finddir (nodes s node) = NULL then
        bindR (find_named (nodes s) name (nd_ptr (nodes s node))) (\<lambda>tmp.
        if tmp \<noteq> NULL then Some (Inr (tmp, s))
        else if node = vfs_root s then
          (if vfs_root_mount s = NULL then Some (Inl Null_Deref)
           else bindR (find_named (nodes s) name (nd_ptr (nodes s (vfs_root_mount s)))) (\<lambda>tmp.
             Some (Inr (tmp, s))))
        else Some (Inr (NULL, s)))
      else if nd_finddir (nodes s node) = NULL then Some (Inl Null_Deref)
      else Some (Inr (op_finddir d (nd_finddir (nodes s node)) node name s)))"

text \<open>
  \<open>for (; i < index && tmp->next != NULL; i++) tmp = tmp->next;\<close> with \<open>n = index - i\<close>: the steps left
  at the end and the node reached.
\<close>

fun dir_walk :: "(addr \<Rightarrow> addr) \<Rightarrow> nat \<Rightarrow> addr \<Rightarrow> nat \<times> addr" where
  "dir_walk nxt 0 tmp = (0, tmp)"
| "dir_walk nxt (Suc n) tmp = (if nxt tmp \<noteq> NULL then dir_walk nxt n (nxt tmp) else (Suc n, tmp))"

definition dir_entry :: "vfs \<Rightarrow> addr \<Rightarrow> nat \<Rightarrow> dirent \<Rightarrow> dirent option outcome" where
  "dir_entry s node n buf =
     (if nd_ptr (nodes s node) = NULL then Inr None
      else let (left, tmp) = dir_walk (next_node s) n (nd_ptr (nodes s node)) in
        if left > 0 then Inr None
        else bindE (strcpy (d_name buf) (nd_name (nodes s tmp))) (\<lambda>(nm, _).
          Inr (Some (buf\<lparr>d_name := nm, d_ino := nd_inode (nodes s tmp)\<rparr>))))"

definition vfs_readdir :: "vfs_ops \<Rightarrow> addr \<Rightarrow> u32 \<Rightarrow> dirent option \<Rightarrow> vfs \<Rightarrow>
    (dirent option \<times> vfs) outcome" where
  "vfs_readdir d node0 index buf0 s =
     (case buf0 of
        None \<Rightarrow> Inl Assert_Failed
      | Some buf \<Rightarrow>
          let node = (if node0 = NULL then vfs_root s else node0) in
          if node = NULL then Inl Null_Deref
          else if nd_readdir (nodes s node) = NULL then
            (if node \<noteq> vfs_root s \<or> index < vfs_root_nodes s then
               bindE (dir_entry s node (unat index) buf) (\<lambda>r. Inr (r, s))
             else if vfs_root_mount s = NULL then Inl Null_Deref
             else bindE (dir_entry s (vfs_root_mount s) (unat index - unat (vfs_root_nodes s)) buf)
               (\<lambda>r. Inr (r, s)))
          else Inr (op_readdir d (nd_readdir (nodes s node)) node index buf s))"

section \<open>Opening and closing\<close>

text \<open>Taking a reference on a node under its lock.\<close>

definition node_ref :: "addr \<Rightarrow> (vfs \<Rightarrow> vfs) list \<Rightarrow> vfs \<Rightarrow> (vfs \<times> (vfs \<Rightarrow> vfs) list) run" where
  "node_ref a acts s =
     bindR (if a = NULL then Some (Inl Null_Deref) else node_wait a acts s) (\<lambda>(s1, es).
     bindR (Some (node_release a (upd_node a (\<lambda>n. n\<lparr>nd_refs := nd_refs n + 1\<rparr>) s1))) (\<lambda>s2.
     Some (Inr (s2, es))))"

text \<open>How the walk over the path ends: at a node, above the root, or at a node without the name.\<close>

datatype walk_end = Reached addr | Above_Root | Missing_In addr

definition is_dotdot :: "string \<Rightarrow> bool" where
  "is_dotdot b = (take 3 b = [CHR ''.'', CHR ''.'', NUL])"

definition is_dot :: "string \<Rightarrow> bool" where
  "is_dot b = (take 2 b = [CHR ''.'', NUL])"

text \<open>\<open>node->open\<close> if there is one, \<open>vfs_finddir\<close> otherwise.\<close>

definition lookup_node :: "vfs_ops \<Rightarrow> addr \<Rightarrow> string \<Rightarrow> vfs \<Rightarrow> (addr \<times> vfs) run" where
  "lookup_node d node name s =
     (if node = NULL then Some (Inl Null_Deref)
      else if nd_open (nodes s node) \<noteq> NULL then
        Some (Inr (op_open d (nd_open (nodes s node)) node name s))
      else vfs_finddir d node (Some name) s)"

text \<open>
  The two nested loops: \<open>name\<close> is the buffer with the component just read and \<open>i\<close> the level of the
  next one.  A component \<open>..\<close> or \<open>.\<close> goes on with the inner loop, a name with the outer one; both
  read the next component and stop at the end of the path.
\<close>

partial_function (option) open_walk :: "vfs_ops \<Rightarrow> string \<Rightarrow> u32 \<Rightarrow> addr \<Rightarrow> string \<Rightarrow> vfs \<Rightarrow>
    (walk_end \<times> vfs) run" where
  "open_walk d filename i node name s =
     (if is_dotdot name then
        (if node = vfs_root s then Some (Inr (Above_Root, s))
         else if nd_parent (nodes s node) = NULL then Some (Inl Assert_Failed)
         else (case vfs_get_path_level filename i (Some name) of
             Inl t \<Rightarrow> Some (Inl t)
           | Inr None \<Rightarrow> Some (Inr (Reached (nd_parent (nodes s node)), s))
           | Inr (Some name') \<Rightarrow>
               (case strcmp (cstr []) name' of
                  Inl t \<Rightarrow> Some (Inl t)
                | Inr r \<Rightarrow>
                    if r = 0 then Some (Inr (Reached (nd_parent (nodes s node)), s))
                    else open_walk d filename (i + 1) (nd_parent (nodes s node)) name' s)))
      else if is_dot name then
        (case vfs_get_path_level filename i (Some name) of
           Inl t \<Rightarrow> Some (Inl t)
         | Inr None \<Rightarrow> Some (Inr (Reached node, s))
         | Inr (Some name') \<Rightarrow>
             (case strcmp (cstr []) name' of
                Inl t \<Rightarrow> Some (Inl t)
              | Inr r \<Rightarrow>
                  if r = 0 then Some (Inr (Reached node, s))
                  else open_walk d filename (i + 1) node name' s))
      else
        (case lookup_node d node name s of
           None \<Rightarrow> None
         | Some (Inl t) \<Rightarrow> Some (Inl t)
         | Some (Inr r) \<Rightarrow>
             if fst r = NULL then Some (Inr (Missing_In node, snd r))
             else (case vfs_get_path_level filename i (Some name) of
                 Inl t \<Rightarrow> Some (Inl t)
               | Inr None \<Rightarrow> Some (Inr (Reached (fst r), snd r))
               | Inr (Some name') \<Rightarrow> open_walk d filename (i + 1) (fst r) name' (snd r))))"

declare open_walk.simps [simp del]

text \<open>
  \<open>buf\<close> is what \<open>malloc\<close> returned for the component buffer.  When a name is missing the source
  sets the error number and still takes a reference on the directory it was looked up in.
\<close>

definition vfs_open :: "vfs_ops \<Rightarrow> string option \<Rightarrow> (vfs \<Rightarrow> vfs) list \<Rightarrow> string option \<Rightarrow> vfs \<Rightarrow>
    (addr \<times> vfs \<times> (vfs \<Rightarrow> vfs) list) run" where
  "vfs_open d buf acts filename0 s =
     (case filename0 of
        None \<Rightarrow> Some (Inl Assert_Failed)
      | Some filename \<Rightarrow>
          bindR (Some (strlen filename)) (\<lambda>len.
          bindR (Some (assertE (unat len \<le> MAX_PATH))) (\<lambda>_.
          bindR (Some (readE filename 0)) (\<lambda>c.
          let start = (if c = CHR ''/'' then vfs_root s else cwd s);
              node = (if start = NULL then vfs_root s else start) in
          case buf of
            None \<Rightarrow> Some (Inr (NULL, s\<lparr>errno := ENOMEM\<rparr>, acts))
          | Some b \<Rightarrow>
              bindR (Some (vfs_get_path_level filename 0 (Some b))) (\<lambda>name0.
              bindR (Some (case name0 of None \<Rightarrow> Inr True
                  | Some nm \<Rightarrow> bindE (strcmp (cstr []) nm) (\<lambda>r. Inr (r = 0)))) (\<lambda>empty.
              if empty then bindR (node_ref (vfs_root s) acts s) (\<lambda>(s1, es).
                Some (Inr (vfs_root s, s1, es)))
              else bindR (open_walk d filename 1 node (the name0) s) (\<lambda>(e, s1).
                case e of
                  Above_Root \<Rightarrow> Some (Inr (NULL, s1\<lparr>errno := ENOENT\<rparr>, acts))
                | Missing_In dir \<Rightarrow>
                    bindR (node_ref dir acts (s1\<lparr>errno := ENOENT\<rparr>)) (\<lambda>(s2, es).
                    Some (Inr (NULL, s2, es)))
                | Reached n \<Rightarrow> bindR (node_ref n acts s1) (\<lambda>(s2, es).
                    Some (Inr (n, s2, es))))))))))"

text \<open>The lock of a node that is freed is never released; the memory is gone.\<close>

definition vfs_close :: "addr \<Rightarrow> (vfs \<Rightarrow> vfs) list \<Rightarrow> vfs \<Rightarrow> (vfs \<times> (vfs \<Rightarrow> vfs) list) run" where
  "vfs_close node acts s =
     (if node = NULL then Some (Inl Assert_Failed)
      else bindR (node_wait node acts s) (\<lambda>(s1, es).
        let s2 = upd_node node (\<lambda>n. n\<lparr>nd_refs := nd_refs n - 1\<rparr>) s1; n = nodes s2 node in
        if nd_refs n = 0 \<and> nd_flags n AND FS_AUTOFREE \<noteq> 0 then
          bindR (Some (
            if nd_flags n AND FS_PIPE \<noteq> 0 \<and> nd_data n \<noteq> NULL then
              bindE (assertE (pipe_buf s2 (nd_data n) \<noteq> NULL)) (\<lambda>_.
              Inr [pipe_buf s2 (nd_data n), nd_data n])
            else Inr [])) (\<lambda>fs.
          Some (Inr (s2\<lparr>released := released s2 @ fs @ [node]\<rparr>, es)))
        else bindR (Some (node_release node s2)) (\<lambda>s3. Some (Inr (s3, es)))))"

section \<open>File information and paths\<close>

text \<open>
  The walk of \<open>vfs_stat\<close>, which starts at the root whatever the path and may hand over to the driver
  of a node on the way: \<open>Inl\<close> is the final result, \<open>Inr\<close> the node reached.
\<close>

partial_function (option) stat_walk :: "vfs_ops \<Rightarrow> string \<Rightarrow> u32 \<Rightarrow> addr \<Rightarrow> string option \<Rightarrow>
    string \<Rightarrow> stat_t \<Rightarrow> vfs \<Rightarrow> ((stat_t option + addr) \<times> vfs) run" where
  "stat_walk d path i node name buff buf s =
     (if node = NULL then Some (Inl Null_Deref)
      else if nd_stat (nodes s node) \<noteq> NULL then
        (let r = op_stat d (nd_stat (nodes s node)) node name buf s in
         Some (Inr (Inl (fst r), snd r)))
      else
        (case vfs_finddir d node name s of
           None \<Rightarrow> None
         | Some (Inl t) \<Rightarrow> Some (Inl t)
         | Some (Inr r) \<Rightarrow>
             if fst r = NULL then Some (Inr (Inl None, (snd r)\<lparr>errno := ENOENT\<rparr>))
             else (case vfs_get_path_level path i (Some buff) of
                 Inl t \<Rightarrow> Some (Inl t)
               | Inr None \<Rightarrow> Some (Inr (Inr (fst r), snd r))
               | Inr (Some name') \<Rightarrow>
                   stat_walk d path (i + 1) (fst r) (Some name') name' buf (snd r))))"

declare stat_walk.simps [simp del]

definition node_stat :: "vfs_node_t \<Rightarrow> stat_t \<Rightarrow> stat_t" where
  "node_stat n buf =
     (let m1 = (if nd_flags n AND 7 = FS_DIRECTORY then MODE_TYPE_DIRECTORY else 0);
          m2 = (if nd_flags n AND 7 = FS_CHARDEVICE then m1 OR MODE_TYPE_CHARDEVICE else m1) in
      \<lparr>st_dev = 0, st_ino = 0, st_mode = m2, st_nlink = 0, st_uid = nd_uid n, st_gid = nd_gid n,
       st_rdev = 0, st_size = nd_length n, st_atime = 0, st_mtime = 0, st_ctime = 0,
       st_blksize = 0, st_blocks = 0\<rparr>)"

definition vfs_stat :: "vfs_ops \<Rightarrow> string option \<Rightarrow> addr \<Rightarrow> string option \<Rightarrow> stat_t \<Rightarrow> vfs \<Rightarrow>
    (stat_t option \<times> vfs) run" where
  "vfs_stat d malloc node path0 buf s =
     (if node \<noteq> NULL \<and> nd_stat (nodes s node) \<noteq> NULL then
        Some (Inr (op_stat d (nd_stat (nodes s node)) node path0 buf s))
      else
        bindR (case path0 of
            None \<Rightarrow> Some (Inr (Inr node, s))
          | Some path \<Rightarrow>
              (case malloc of
                 None \<Rightarrow> Some (Inr (Inl None, s\<lparr>errno := ENOMEM\<rparr>))
               | Some buff \<Rightarrow>
                   bindR (Some (vfs_get_path_level path 0 (Some buff))) (\<lambda>name.
                   stat_walk d path 1 (vfs_root s) name
                     (case name of None \<Rightarrow> buff | Some b \<Rightarrow> b) buf s)))
          (\<lambda>(r, s1). case r of
             Inl res \<Rightarrow> Some (Inr (res, s1))
           | Inr n \<Rightarrow>
               if n = NULL then Some (Inr (None, s1\<lparr>errno := ENOENT\<rparr>))
               else Some (Inr (Some (node_stat (nodes s1 n) buf), s1))))"

text \<open>
  The nodes from below the root to the given one, collected in an array of \<open>MAX_PATH_NODES\<close>
  pointers; \<open>k\<close> is the room left in it.
\<close>

definition MAX_PATH_NODES :: nat where "MAX_PATH_NODES = 64"

fun path_nodes :: "nat \<Rightarrow> vfs \<Rightarrow> addr \<Rightarrow> addr list outcome" where
  "path_nodes 0 s node = Inl Out_Of_Bounds"
| "path_nodes (Suc k) s node =
     (let p = nd_parent (nodes s node) in
      if p = NULL then Inl Assert_Failed
      else if p = vfs_root s then Inr [node]
      else bindE (path_nodes k s p) (\<lambda>ns. Inr (ns @ [node])))"

fun put_names :: "string \<Rightarrow> nat \<Rightarrow> string list \<Rightarrow> (string \<times> nat) outcome" where
  "put_names buf out [] = Inr (buf, out)"
| "put_names buf out (name # names) =
     bindE (writeE buf out (CHR ''/'')) (\<lambda>buf1.
     bindE (copy_text buf1 (out + 1) name) (\<lambda>(buf2, out2). put_names buf2 out2 names))"

definition vfs_get_path :: "addr \<Rightarrow> string \<Rightarrow> vfs \<Rightarrow> string outcome" where
  "vfs_get_path node buf s =
     bindE (assertE (node \<noteq> NULL)) (\<lambda>_.
     if node = vfs_root s then
       bindE (writeE buf 0 (CHR ''/'')) (\<lambda>buf1. writeE buf1 1 NUL)
     else
       bindE (path_nodes MAX_PATH_NODES s node) (\<lambda>ns.
       bindE (put_names buf 0 (map (\<lambda>a. nd_name (nodes s a)) ns)) (\<lambda>(buf1, out).
       writeE buf1 out NUL)))"

section \<open>Directories as lists of nodes\<close>

text \<open>The children of a directory in order.\<close>

definition children :: "vfs \<Rightarrow> addr \<Rightarrow> addr list \<Rightarrow> bool" where
  "children s d xs = chain (next_node s) (nd_ptr (nodes s d)) xs NULL"

definition set_next_node :: "vfs \<Rightarrow> addr \<Rightarrow> addr \<Rightarrow> vfs" where
  "set_next_node s a b = upd_node a (\<lambda>n. n\<lparr>nd_next := b\<rparr>) s"

lemma upd_node_simps [simp]:
  "nodes (upd_node a f s) = (nodes s)(a := f (nodes s a))"
  "vfs_root (upd_node a f s) = vfs_root s"
  "vfs_root_mount (upd_node a f s) = vfs_root_mount s"
  "vfs_root_nodes (upd_node a f s) = vfs_root_nodes s"
  "cwd (upd_node a f s) = cwd s"
  "errno (upd_node a f s) = errno s"
  "pipe_buf (upd_node a f s) = pipe_buf s"
  "released (upd_node a f s) = released s"
  by (simp_all add: upd_node_def)

lemma node_same:
  "nd_next n = v \<Longrightarrow> n\<lparr>nd_next := v\<rparr> = n" "nd_ptr n = v \<Longrightarrow> n\<lparr>nd_ptr := v\<rparr> = n" for n :: vfs_node_t
  by (cases n, simp)+

lemma count_root_node_simps [simp]:
  "nodes (count_root_node p s) = nodes s"
  "vfs_root (count_root_node p s) = vfs_root s"
  "vfs_root_mount (count_root_node p s) = vfs_root_mount s"
  "vfs_root_nodes (count_root_node p s) = vfs_root_nodes s + (if p = vfs_root s then 1 else 0)"
  by (simp_all add: count_root_node_def)

interpretation node_cells: linked_cells next_node set_next_node
  by unfold_locales (auto simp: set_next_node_def)

lemma node_wait_free: "ms (nd_lock (nodes s a)) = 0 \<Longrightarrow>
    node_wait a acts s =
      Some (Inr (upd_node a (\<lambda>n. n\<lparr>nd_lock := (nd_lock n)\<lparr>ms := 1\<rparr>\<rparr>) s, acts))"
  by (simp add: node_wait_def mutex_wait_free upd_node_def)

lemma node_busywait_free: "ms (nd_lock (nodes s a)) = 0 \<Longrightarrow>
    node_busywait a acts s =
      Some (Inr (upd_node a (\<lambda>n. n\<lparr>nd_lock := (nd_lock n)\<lparr>ms := 1\<rparr>\<rparr>) s, acts))"
  by (simp add: node_busywait_def mutex_busywait_eq_wait mutex_wait_free upd_node_def)

lemma node_release_held: "ms (nd_lock (nodes s a)) = 1 \<Longrightarrow>
    node_release a s = Inr (upd_node a (\<lambda>n. n\<lparr>nd_lock := (nd_lock n)\<lparr>ms := 0\<rparr>\<rparr>) s)"
  by (simp add: node_release_def mutex_release_held upd_node_def)

lemma children_cong:
  assumes "nd_ptr (nodes s' d) = nd_ptr (nodes s d)" "\<And>x. x \<in> set xs \<Longrightarrow> next_node s' x = next_node s x"
  shows "children s' d xs = children s d xs"
  using assms chain_cong [of xs "next_node s'" "next_node s"] by (simp add: children_def)

lemma seek_sibling_chain:
  "chain nxt p us x \<Longrightarrow> x \<notin> set us \<Longrightarrow>
    seek_sibling nxt x sib p = Some (last (sib # us), x)"
proof (induction us arbitrary: p sib)
  case Nil
  then show ?case by (simp add: seek_sibling.simps)
next
  case (Cons y us)
  then show ?case by (auto simp: seek_sibling.simps [of nxt x sib y])
qed

lemma seek_sibling_missing:
  "chain nxt p xs NULL \<Longrightarrow> x \<notin> set xs \<Longrightarrow>
    \<exists>sib'. seek_sibling nxt x sib p = Some (sib', NULL)"
proof (induction xs arbitrary: p sib)
  case Nil
  then show ?case by (simp add: seek_sibling.simps)
next
  case (Cons y ys)
  then show ?case by (auto simp: seek_sibling.simps [of nxt x sib y])
qed

text \<open>Attaching links the node behind the last child and changes no other link.\<close>

lemma attach_node_children:
  assumes "children s p xs" "node \<noteq> NULL" "node \<notin> set xs" "next_node s node = NULL"
  obtains s' where "attach_node p node s = Some s'" "children s' p (xs @ [node])"
    "s' = count_root_node p (if xs = [] then
         upd_node p (\<lambda>n. n\<lparr>nd_ptr := node\<rparr>) (upd_node node (\<lambda>n. n\<lparr>nd_parent := p\<rparr>) s)
       else set_next_node (upd_node node (\<lambda>n. n\<lparr>nd_parent := p\<rparr>) s) (last xs) node)"
proof (cases xs rule: rev_cases)
  case Nil
  with assms have "nd_ptr (nodes s p) = NULL" by (simp add: children_def)
  with assms Nil show ?thesis
    by (intro that) (auto simp: attach_node_def children_def Let_def)
next
  case (snoc ys y)
  let ?s = "upd_node node (\<lambda>n. n\<lparr>nd_parent := p\<rparr>) s"
  have nn: "next_node ?s = next_node s" "nd_ptr (nodes ?s p) = nd_ptr (nodes s p)" by auto
  have c: "chain (next_node ?s) (nd_ptr (nodes s p)) (ys @ [y]) NULL"
    using assms(1) snoc unfolding nn by (simp add: children_def)
  have "nd_ptr (nodes s p) \<noteq> NULL" using c by auto
  moreover have "node \<notin> set (ys @ [y])" "next_node ?s node = NULL" using assms snoc by auto
  note app = node_cells.append_last [OF c assms(2) this]
  ultimately have "attach_node p node s = Some (count_root_node p (set_next_node ?s y node))"
    using app(1) by (auto simp: attach_node_def Let_def set_next_node_def)
  moreover have "nd_ptr (nodes (set_next_node ?s y node) p) = nd_ptr (nodes s p)"
    by (auto simp: set_next_node_def)
  then have "children (count_root_node p (set_next_node ?s y node)) p (xs @ [node])"
    using app(2) snoc by (simp add: children_def del: chain_append)
  ultimately show ?thesis using that snoc by simp
qed

text \<open>Removing unlinks exactly the node.\<close>

lemma vfs_rmnod_children:
  assumes "children s p (us @ node # vs)" "nd_parent (nodes s node) = p" "p \<noteq> NULL"
    "ms (nd_lock (nodes s p)) = 0"
  obtains s' where "vfs_rmnod node acts s = Some (Inr (0, s', acts))"
    "s' = upd_node node (\<lambda>n. n\<lparr>nd_next := NULL\<rparr>)
       (if us = [] then upd_node p (\<lambda>n. n\<lparr>nd_ptr := next_node s node\<rparr>) s
        else set_next_node s (last us) (next_node s node))"
proof -
  let ?l = "\<lambda>v. upd_node p (\<lambda>n. n\<lparr>nd_lock := (nd_lock n)\<lparr>ms := v\<rparr>\<rparr>)"
  have d: "node \<notin> set us" "node \<noteq> NULL" "NULL \<notin> set us"
    using chain_distinct [of "next_node s" _ "us @ node # vs"] chain_cells [of "next_node s" _ us]
      assms(1) by (auto simp: children_def)
  have nn: "next_node (?l 1 s) = next_node s" by auto
  have c: "chain (next_node s) (nd_ptr (nodes s p)) us node" using assms(1) by (simp add: children_def)
  have ptr: "nd_ptr (nodes s p) \<noteq> NULL" using assms(1) by (auto simp: children_def)
  have seek: "seek_sibling (next_node s) node NULL (nd_ptr (nodes s p)) = Some (last (NULL # us), node)"
    by (rule seek_sibling_chain [OF c d(1)])
  have sib: "last (NULL # us) = NULL \<longleftrightarrow> us = []"
    using d(3) by (cases us rule: rev_cases) auto
  have restore: "?l 0 (upd_node p (\<lambda>n. n\<lparr>nd_ptr := a\<rparr>) (?l 1 s)) = upd_node p (\<lambda>n. n\<lparr>nd_ptr := a\<rparr>) s"
    "?l 0 (upd_node b (\<lambda>n. n\<lparr>nd_next := a\<rparr>) (?l 1 s)) = upd_node b (\<lambda>n. n\<lparr>nd_next := a\<rparr>) s" for a b
    using assms(4) by (auto simp: upd_node_def fun_eq_iff)
  define s1 where "s1 = ?l 1 s"
  define s2 where "s2 = (if us = [] then upd_node p (\<lambda>n. n\<lparr>nd_ptr := next_node s node\<rparr>) s1
    else upd_node (last us) (\<lambda>n. n\<lparr>nd_next := next_node s node\<rparr>) s1)"
  have s1: "next_node s1 = next_node s" "next_node s1 node = next_node s node" "nd_ptr (nodes s1 p) = nd_ptr (nodes s p)"
    "nd_parent (nodes s1 node) = p" "node_busywait p acts s = Some (Inr (s1, acts))"
    using assms(2,4) by (auto simp: s1_def node_busywait_free)
  have "ms (nd_lock (nodes s2 p)) = 1" by (auto simp: s2_def s1_def)
  then have "node_release p s2 = Inr (?l 0 s2)" by (rule node_release_held)
  also have "?l 0 s2 = (if us = [] then upd_node p (\<lambda>n. n\<lparr>nd_ptr := next_node s node\<rparr>) s
      else set_next_node s (last us) (next_node s node))"
    by (simp add: s2_def s1_def restore set_next_node_def)
  finally have rel: "node_release p s2 = Inr (if us = []
      then upd_node p (\<lambda>n. n\<lparr>nd_ptr := next_node s node\<rparr>) s
      else set_next_node s (last us) (next_node s node))" .
  have "vfs_rmnod node acts s = bindR (Some (node_release p s2)) (\<lambda>s3.
      Some (Inr (0, upd_node node (\<lambda>n. n\<lparr>nd_next := NULL\<rparr>) s3, acts)))"
    using d(2) assms(2,3) ptr seek sib s1
    by (simp add: vfs_rmnod_def Let_def s2_def cong: if_cong)
  with rel that show ?thesis by simp
qed

section \<open>Lookup and path resolution\<close>

text \<open>The name of a node, and the entries of a directory: the root shows the mounted root as well.\<close>

definition node_name :: "vfs \<Rightarrow> addr \<Rightarrow> string" where
  "node_name s a = text_of (nd_name (nodes s a))"

definition is_dir :: "vfs \<Rightarrow> addr \<Rightarrow> bool" where
  "is_dir s a = (nd_flags (nodes s a) AND 7 = FS_DIRECTORY)"

definition entries :: "vfs \<Rightarrow> (addr \<Rightarrow> addr list) \<Rightarrow> addr \<Rightarrow> addr list" where
  "entries s kids a = kids a @ (if a = vfs_root s then kids (vfs_root_mount s) else [])"

text \<open>
  The walk over the components as a function of the tree.  A component behind a node that is not
  a directory makes the kernel call a \<open>NULL\<close> function pointer, and \<open>..\<close> at a node without parent,
  such as the root of the mounted file system, fails an assertion.
\<close>

fun resolve :: "vfs \<Rightarrow> (addr \<Rightarrow> addr list) \<Rightarrow> addr \<Rightarrow> string list \<Rightarrow> walk_end outcome" where
  "resolve s kids n [] = Inr (Reached n)"
| "resolve s kids n (c # cs) =
     (if c = ''..'' then
        (if n = vfs_root s then Inr Above_Root
         else if nd_parent (nodes s n) = NULL then Inl Assert_Failed
         else resolve s kids (nd_parent (nodes s n)) cs)
      else if c = ''.'' then resolve s kids n cs
      else if \<not> is_dir s n then Inl Null_Deref
      else case find (\<lambda>a. node_name s a = c) (entries s kids n) of
          None \<Rightarrow> Inr (Missing_In n)
        | Some m \<Rightarrow> resolve s kids m cs)"

text \<open>
  A tree without driver hooks: \<open>kids\<close> are the children of every directory, \<open>N\<close> contains the root
  and is closed under parents, where there are any, and children, names are terminated.
\<close>

definition tree_ok :: "vfs \<Rightarrow> (addr \<Rightarrow> addr list) \<Rightarrow> addr set \<Rightarrow> bool" where
  "tree_ok s kids N = (vfs_root s \<in> N \<and> vfs_root_mount s \<noteq> NULL \<and>
     children s (vfs_root_mount s) (kids (vfs_root_mount s)) \<and> set (kids (vfs_root_mount s)) \<subseteq> N \<and>
     (\<forall>a \<in> N. a \<noteq> NULL \<and> nd_open (nodes s a) = NULL \<and> nd_finddir (nodes s a) = NULL \<and>
        NUL \<in> set (nd_name (nodes s a)) \<and>
        (a \<noteq> vfs_root s \<longrightarrow> nd_parent (nodes s a) = NULL \<or> nd_parent (nodes s a) \<in> N) \<and>
        (is_dir s a \<longrightarrow> children s a (kids a) \<and> set (kids a) \<subseteq> N)))"

lemma find_named_cells:
  assumes "chain (\<lambda>a. nd_next (h a)) p xs NULL" "NUL \<in> set nm"
    "\<And>a. a \<in> set xs \<Longrightarrow> NUL \<in> set (nd_name (h a))"
  shows "find_named h (Some nm) p =
    Some (Inr (case find (\<lambda>a. text_of (nd_name (h a)) = text_of nm) xs of None \<Rightarrow> NULL | Some a \<Rightarrow> a))"
  using assms
proof (induction xs arbitrary: p)
  case Nil
  then show ?case by (simp add: find_named.simps)
next
  case (Cons x xs)
  then show ?case by (subst find_named.simps) (auto simp: strcmp_buffers)
qed

lemma find_named_chain:
  assumes "chain (next_node s) p xs NULL" "NUL \<in> set nm"
    "\<And>a. a \<in> set xs \<Longrightarrow> NUL \<in> set (nd_name (nodes s a))"
  shows "find_named (nodes s) (Some nm) p =
    Some (Inr (case find (\<lambda>a. node_name s a = text_of nm) xs of None \<Rightarrow> NULL | Some a \<Rightarrow> a))"
  using find_named_cells [OF assms] by (simp add: node_name_def)

lemma vfs_finddir_entries:
  assumes "tree_ok s kids N" "n \<in> N" "is_dir s n" "NUL \<in> set nm"
  shows "vfs_finddir d n (Some nm) s =
    Some (Inr (case find (\<lambda>a. node_name s a = text_of nm) (entries s kids n) of
       None \<Rightarrow> NULL | Some a \<Rightarrow> a, s))"
proof -
  let ?P = "\<lambda>a. node_name s a = text_of nm"
  from assms have n: "n \<noteq> NULL" "nd_finddir (nodes s n) = NULL" "children s n (kids n)"
    "set (kids n) \<subseteq> N" "vfs_root_mount s \<noteq> NULL"
    "children s (vfs_root_mount s) (kids (vfs_root_mount s))" "set (kids (vfs_root_mount s)) \<subseteq> N"
    and nul: "\<And>a. a \<in> N \<Longrightarrow> NUL \<in> set (nd_name (nodes s a))"
    by (auto simp: tree_ok_def)
  have f: "find_named (nodes s) (Some nm) (nd_ptr (nodes s a)) =
      Some (Inr (case find ?P (kids a) of None \<Rightarrow> NULL | Some b \<Rightarrow> b))"
    if "children s a (kids a)" "set (kids a) \<subseteq> N" for a
    using that assms(4) nul by (intro find_named_chain) (auto simp: children_def)
  have nonnull: "find ?P (kids n) = Some b \<Longrightarrow> b \<noteq> NULL" for b
    using n(3) chain_cells [of "next_node s" _ "kids n"] find_Some_in [of ?P "kids n" b]
    by (auto simp: children_def)
  show ?thesis
    using n f [OF n(3,4)] f [OF n(6,7)] nonnull assms(3)
    by (auto simp: vfs_finddir_def Let_def is_dir_def entries_def find_append_eq split: option.split)
qed

lemma lookup_node_entries:
  assumes "tree_ok s kids N" "n \<in> N" "NUL \<in> set nm"
  shows "lookup_node d n nm s = Some (if is_dir s n then
      Inr (case find (\<lambda>a. node_name s a = text_of nm) (entries s kids n) of
        None \<Rightarrow> NULL | Some a \<Rightarrow> a, s) else Inl Null_Deref)"
proof -
  from assms have "n \<noteq> NULL" "nd_open (nodes s n) = NULL" "nd_finddir (nodes s n) = NULL"
    by (auto simp: tree_ok_def)
  then show ?thesis
    using vfs_finddir_entries [OF assms(1,2) _ assms(3)]
    by (auto simp: lookup_node_def vfs_finddir_def Let_def is_dir_def)
qed

lemma is_dotdot_text: "is_text c \<Longrightarrow> is_dotdot (c @ NUL # r) \<longleftrightarrow> c = ''..''"
  by (cases c; cases "tl c"; cases "tl (tl c)") (auto simp: is_dotdot_def)

lemma is_dot_text: "is_text c \<Longrightarrow> is_dot (c @ NUL # r) \<longleftrightarrow> c = ''.''"
  by (cases c; cases "tl c") (auto simp: is_dot_def)

lemma strcmp_empty: "is_text c \<Longrightarrow> c \<noteq> [] \<Longrightarrow> strcmp [NUL] (c @ r) = Inr 1"
  by (cases c) auto

lemma find_entries_in:
  assumes "tree_ok s kids N" "n \<in> N" "is_dir s n" "find P (entries s kids n) = Some m"
  shows "m \<in> N" "m \<noteq> NULL"
proof -
  have "set (entries s kids n) \<subseteq> N" using assms(1-3) by (auto simp: tree_ok_def entries_def)
  then show "m \<in> N" using find_Some_in [OF assms(4)] by auto
  then show "m \<noteq> NULL" using assms(1) by (auto simp: tree_ok_def)
qed

text \<open>The component the kernel reads after component \<open>k\<close>.\<close>

lemma next_component:
  assumes "is_text p" "length p \<le> MAX_PATH" "length buf = MAX_PATH + 1" "k < length (components p)"
  shows "vfs_get_path_level (cstr p) (of_nat (Suc k)) (Some buf) = Inr (
      if Suc k < length (components p) then
        Some ((components p ! Suc k) @ NUL # drop (length (components p ! Suc k) + 1) buf)
      else None)"
proof -
  have "unat (of_nat (Suc k) :: u32) = Suc k"
    using assms(2,4) length_components [of p] by (intro unat_of_nat_u32) (simp add: MAX_PATH_def)
  moreover have "\<not> Suc k < length (components p) \<Longrightarrow> Suc k = length (components p)" using assms(4) by simp
  ultimately show ?thesis
    using assms(3) level_component [OF assms(1,2), of buf "of_nat (Suc k)"]
    by (cases "Suc k < length (components p)") (simp_all del: of_nat_Suc)
qed

lemma component_length: "c \<in> set (split_slash p) \<Longrightarrow> length c \<le> length p"
proof (induction p arbitrary: c)
  case (Cons x p)
  have "hd (split_slash p) \<in> set (split_slash p)" "set (tl (split_slash p)) \<subseteq> set (split_slash p)"
    by (simp, metis split_slash_not_Nil list.collapse set_subset_Cons)
  with Cons show ?case by (fastforce split: if_splits)
qed simp

lemma components_length: "c \<in> set (components p) \<Longrightarrow> length c \<le> length p"
  using component_length [of c "strip_slash p"]
  by (fastforce simp: components_def strip_slash_def dest: set_takeWhileD split: if_splits)

definition with_state :: "'s \<Rightarrow> walk_end outcome \<Rightarrow> (walk_end \<times> 's) outcome" where
  "with_state s r = bindE r (\<lambda>e. Inr (e, s))"

lemma with_state_simps [simp]:
  "with_state s (Inl t) = Inl t" "with_state s (Inr e) = Inr (e, s)"
  by (simp_all add: with_state_def)

text \<open>One round of the walk, with the walk from the next component on as \<open>go\<close>.\<close>

lemma open_walk_round:
  assumes "tree_ok s kids N" "n \<in> N" "is_text c"
    and nx: "vfs_get_path_level f i (Some (c @ NUL # r)) = Inr nx"
      "\<And>b. nx = Some b \<Longrightarrow> strcmp (cstr []) b = Inr 1"
    and go: "\<And>n'. go n' = (case nx of None \<Rightarrow> Some (Inr (Reached n', s))
        | Some b \<Rightarrow> open_walk d f (i + 1) n' b s)"
  shows "open_walk d f i n (c @ NUL # r) s =
    (if c = ''..'' then (if n = vfs_root s then Some (Inr (Above_Root, s))
       else if nd_parent (nodes s n) = NULL then Some (Inl Assert_Failed) else go (nd_parent (nodes s n)))
     else if c = ''.'' then go n
     else if \<not> is_dir s n then Some (Inl Null_Deref)
     else case find (\<lambda>a. node_name s a = c) (entries s kids n) of
         None \<Rightarrow> Some (Inr (Missing_In n, s))
       | Some m \<Rightarrow> go m)"
proof -
  define b where "b = c @ NUL # r"
  have lk: "lookup_node d n b s = Some (if is_dir s n then
      Inr (case find (\<lambda>a. node_name s a = c) (entries s kids n) of
        None \<Rightarrow> NULL | Some a \<Rightarrow> a, s) else Inl Null_Deref)"
    using lookup_node_entries [OF assms(1,2), of b] assms(3) by (simp add: b_def text_of_append)
  have dots: "is_dotdot b \<longleftrightarrow> c = ''..''" "is_dot b \<longleftrightarrow> c = ''.''"
    using assms(3) by (simp_all add: b_def is_dotdot_text is_dot_text)
  note nx' = nx [folded b_def]
  have up: "open_walk d f i n b s =
      (if n = vfs_root s then Some (Inr (Above_Root, s))
       else if nd_parent (nodes s n) = NULL then Some (Inl Assert_Failed) else go (nd_parent (nodes s n)))"
    if "is_dotdot b"
    using that nx' by (subst open_walk.simps) (cases nx; simp add: go)
  have stay: "open_walk d f i n b s = go n" if "\<not> is_dotdot b" "is_dot b"
    using that nx' by (subst open_walk.simps) (cases nx; simp add: go)
  have down: "open_walk d f i n b s = (if \<not> is_dir s n then Some (Inl Null_Deref)
     else case find (\<lambda>a. node_name s a = c) (entries s kids n) of
         None \<Rightarrow> Some (Inr (Missing_In n, s))
       | Some m \<Rightarrow> go m)" if "\<not> is_dotdot b" "\<not> is_dot b"
    using that nx'(1) lk find_entries_in(2) [OF assms(1,2), of "\<lambda>a. node_name s a = c"]
    by (subst open_walk.simps) (cases nx; auto simp: go split: option.split)
  show ?thesis
    unfolding b_def [symmetric] using up stay down unfolding dots by (simp split: if_split)
qed

lemma open_walk_resolve:
  assumes "tree_ok s kids N" "n \<in> N" "is_text p" "length p \<le> MAX_PATH"
    and "k < length (components p)" "length ((components p ! k) @ NUL # r) = MAX_PATH + 1"
  shows "open_walk d (cstr p) (of_nat (Suc k)) n ((components p ! k) @ NUL # r) s =
    Some (with_state s (resolve s kids n (drop k (components p))))"
  using assms(2,5,6)
proof (induction "length (components p) - k" arbitrary: k n r)
  case (Suc m)
  let ?cs = "components p" and ?c = "components p ! k"
  let ?buf = "?c @ NUL # r" and ?c' = "components p ! Suc k"
  let ?r' = "drop (length ?c' + 1) ?buf"
  define nx where "nx = (if Suc k < length ?cs then Some (?c' @ NUL # ?r') else None)"
  define go where "go n' = (case nx of None \<Rightarrow> Some (Inr (Reached n', s))
    | Some b \<Rightarrow> open_walk d (cstr p) (of_nat (Suc k) + 1) n' b s)" for n'
  have drop: "drop k ?cs = ?c # drop (Suc k) ?cs"
    using Suc.prems(2) by (rule Cons_nth_drop_Suc [symmetric])
  have c': "is_text ?c'" "?c' \<noteq> []" "length ?c' \<le> MAX_PATH" if "Suc k < length ?cs"
    using components_is_text [OF assms(3)] components_nth(3) [OF that] that assms(4)
      components_length [of ?c' p] by auto
  have goes: "go n' = Some (with_state s (resolve s kids n' (drop (Suc k) ?cs)))" if "n' \<in> N" for n'
  proof (cases "Suc k < length ?cs")
    case True
    have "length (?c' @ NUL # ?r') = MAX_PATH + 1" using Suc.prems(3) c' [OF True] by simp
    from Suc.hyps(1) [OF _ that True this] Suc.hyps(2) True show ?thesis
      by (simp add: go_def nx_def ac_simps)
  qed (use Suc.prems(2) in \<open>simp add: go_def nx_def\<close>)
  have N: "n \<noteq> vfs_root s \<Longrightarrow> nd_parent (nodes s n) \<noteq> NULL \<Longrightarrow> nd_parent (nodes s n) \<in> N"
    using assms(1) Suc.prems(1) by (auto simp: tree_ok_def)
  have "is_text ?c" using components_is_text [OF assms(3)] Suc.prems(2) by simp
  then have "open_walk d (cstr p) (of_nat (Suc k)) n ?buf s =
    (if ?c = ''..'' then (if n = vfs_root s then Some (Inr (Above_Root, s))
       else if nd_parent (nodes s n) = NULL then Some (Inl Assert_Failed) else go (nd_parent (nodes s n)))
     else if ?c = ''.'' then go n
     else if \<not> is_dir s n then Some (Inl Null_Deref)
     else case find (\<lambda>a. node_name s a = ?c) (entries s kids n) of
         None \<Rightarrow> Some (Inr (Missing_In n, s))
       | Some m \<Rightarrow> go m)"
  proof (rule open_walk_round [OF assms(1) Suc.prems(1)])
    show "vfs_get_path_level (cstr p) (of_nat (Suc k)) (Some ?buf) = Inr nx"
      unfolding nx_def by (rule next_component [OF assms(3,4) Suc.prems(3,2)])
    show "\<And>b. nx = Some b \<Longrightarrow> strcmp (cstr []) b = Inr 1"
      using c' by (auto simp: nx_def strcmp_empty split: if_splits)
  qed (rule go_def)
  then show ?case
    using goes N Suc.prems(1) find_entries_in(1) [OF assms(1) Suc.prems(1)]
    by (simp add: drop split: option.split)
qed simp

lemma node_ref_free:
  assumes "a \<noteq> NULL" "ms (nd_lock (nodes s a)) = 0"
  shows "node_ref a acts s = Some (Inr (upd_node a (\<lambda>n. n\<lparr>nd_refs := nd_refs n + 1\<rparr>) s, acts))"
proof -
  have "upd_node a (\<lambda>n. n\<lparr>nd_lock := (nd_lock n)\<lparr>ms := 0\<rparr>\<rparr>) (upd_node a (\<lambda>n. n\<lparr>nd_refs := nd_refs n + 1\<rparr>)
      (upd_node a (\<lambda>n. n\<lparr>nd_lock := (nd_lock n)\<lparr>ms := 1\<rparr>\<rparr>) s)) =
    upd_node a (\<lambda>n. n\<lparr>nd_refs := nd_refs n + 1\<rparr>) s"
    using assms(2) by (simp add: upd_node_def)
  with assms show ?thesis by (simp add: node_ref_def node_wait_free node_release_held)
qed

text \<open>What \<open>vfs_open\<close> answers for each end of the walk.\<close>

definition open_result :: "vfs \<Rightarrow> walk_end \<Rightarrow> addr \<times> vfs" where
  "open_result s e =
     (case e of
        Reached n \<Rightarrow> (n, upd_node n (\<lambda>n. n\<lparr>nd_refs := nd_refs n + 1\<rparr>) s)
      | Above_Root \<Rightarrow> (NULL, s\<lparr>errno := ENOENT\<rparr>)
      | Missing_In n \<Rightarrow> (NULL, upd_node n (\<lambda>n. n\<lparr>nd_refs := nd_refs n + 1\<rparr>) (s\<lparr>errno := ENOENT\<rparr>)))"

lemma resolve_in:
  "tree_ok s kids N \<Longrightarrow> n \<in> N \<Longrightarrow>
    (resolve s kids n cs = Inr (Reached m) \<longrightarrow> m \<in> N) \<and> (resolve s kids n cs = Inr (Missing_In m) \<longrightarrow> m \<in> N)"
proof (induction cs arbitrary: n)
  case (Cons c cs)
  have "n \<noteq> vfs_root s \<Longrightarrow> nd_parent (nodes s n) \<noteq> NULL \<Longrightarrow> nd_parent (nodes s n) \<in> N"
    using Cons.prems by (auto simp: tree_ok_def)
  with Cons show ?case using find_entries_in(1) [OF Cons.prems] by (auto split: option.split)
qed auto

definition start_node :: "vfs \<Rightarrow> string \<Rightarrow> addr" where
  "start_node s p = (let n = (if p \<noteq> [] \<and> hd p = CHR ''/'' then vfs_root s else cwd s) in
     if n = NULL then vfs_root s else n)"

lemma vfs_open_walk:
  assumes "tree_ok s kids N" "start_node s p \<in> N" "is_text p" "length p \<le> MAX_PATH"
    and "length buf = MAX_PATH + 1" "\<And>a. a \<in> N \<Longrightarrow> ms (nd_lock (nodes s a)) = 0"
  shows "vfs_open d (Some buf) acts (Some (cstr p)) s =
    Some (bindE (if components p = [] then Inr (Reached (vfs_root s))
      else resolve s kids (start_node s p) (components p))
      (\<lambda>e. Inr (fst (open_result s e), snd (open_result s e), acts)))"
proof -
  have len: "strlen (cstr p) = Inr (of_nat (length p))" "unat (of_nat (length p) :: u32) = length p"
    using assms(3,4) by (simp_all add: strlen_eq cstr_def text_of_append unat_of_nat_u32 MAX_PATH_def)
  have hd: "readE (cstr p) 0 = Inr (hd (cstr p))" "hd (cstr p) = CHR ''/'' \<longleftrightarrow> p \<noteq> [] \<and> hd p = CHR ''/''"
    by (cases p; simp add: cstr_def)+
  have root: "vfs_root s \<in> N" "\<And>a. a \<in> N \<Longrightarrow> a \<noteq> NULL" using assms(1) by (auto simp: tree_ok_def)
  have ref: "a \<in> N \<Longrightarrow> node_ref a acts s' =
      Some (Inr (upd_node a (\<lambda>n. n\<lparr>nd_refs := nd_refs n + 1\<rparr>) s', acts))"
    if "nodes s' = nodes s" for a s'
    using that root(2) assms(6) by (intro node_ref_free) simp_all
  note lvl = level_component [OF assms(3,4), of buf 0]
  show ?thesis
  proof (cases "components p = []")
    case True
    with lvl(2) assms(4,5) root ref [of s "vfs_root s"] show ?thesis
      by (simp add: vfs_open_def len hd open_result_def)
  next
    case False
    let ?c = "components p ! 0"
    let ?b = "?c @ NUL # drop (length ?c + 1) buf"
    have c: "is_text ?c" "?c \<noteq> []" "length ?c \<le> MAX_PATH"
      using False components_is_text [OF assms(3)] components_nth(3) [of 0 p]
        components_length [of ?c p] assms(4) by auto
    have walk: "open_walk d (cstr p) 1 (start_node s p) ?b s =
        Some (with_state s (resolve s kids (start_node s p) (components p)))"
      using open_walk_resolve [OF assms(1-4), of 0 "drop (length ?c + 1) buf" d] False c(3) assms(5)
      by simp
    define k where "k = (\<lambda>(e, s1). case e of
          Above_Root \<Rightarrow> Some (Inr (NULL, s1\<lparr>errno := ENOENT\<rparr>, acts))
        | Missing_In dir \<Rightarrow>
            bindR (node_ref dir acts (s1\<lparr>errno := ENOENT\<rparr>)) (\<lambda>(s2, es). Some (Inr (NULL, s2, es)))
        | Reached n \<Rightarrow> bindR (node_ref n acts s1) (\<lambda>(s2, es). Some (Inr (n, s2, es))))"
    have "vfs_open d (Some buf) acts (Some (cstr p)) s =
        bindR (open_walk d (cstr p) 1 (start_node s p) ?b s) k"
      using False lvl(1) assms(4,5) strcmp_empty [OF c(1,2)]
      by (simp add: vfs_open_def len hd start_node_def Let_def k_def)
    also have "\<dots> = bindR (Some (with_state s (resolve s kids (start_node s p) (components p)))) k"
      by (simp only: walk)
    also have "\<dots> = Some (bindE (resolve s kids (start_node s p) (components p))
      (\<lambda>e. Inr (fst (open_result s e), snd (open_result s e), acts)))"
    proof (cases "resolve s kids (start_node s p) (components p)")
      case (Inr e)
      then show ?thesis
        using resolve_in [OF assms(1,2), of "components p"] ref
        by (cases e) (auto simp: open_result_def k_def)
    qed simp
    finally show ?thesis using False by simp
  qed
qed

text \<open>The nodes from below the root down to a node: each is the parent of the next.\<close>

fun descends :: "vfs \<Rightarrow> addr \<Rightarrow> addr list \<Rightarrow> bool" where
  "descends s p [] = True"
| "descends s p (a # as) = (nd_parent (nodes s a) = p \<and> a \<noteq> NULL \<and> a \<noteq> vfs_root s \<and> descends s a as)"

lemma descends_append:
  "descends s p (as @ [a]) \<longleftrightarrow> descends s p as \<and> nd_parent (nodes s a) = last (p # as) \<and>
    a \<noteq> NULL \<and> a \<noteq> vfs_root s"
  by (induction as arbitrary: p) auto

lemma path_nodes_descends:
  assumes "vfs_root s \<noteq> NULL" "descends s (vfs_root s) (as @ [a])" "length as < k"
  shows "path_nodes k s a = Inr (as @ [a])"
  using assms(2,3)
proof (induction as arbitrary: a k rule: rev_induct)
  case Nil
  then show ?case using assms(1) by (cases k) auto
next
  case (snoc b as)
  then obtain k' where k: "k = Suc k'" "length as < k'" by (cases k) auto
  have "descends s (vfs_root s) (as @ [b])" "nd_parent (nodes s a) = b" "b \<noteq> NULL" "b \<noteq> vfs_root s"
    using snoc.prems(1) descends_append [of s "vfs_root s" "as @ [b]" a]
      descends_append [of s "vfs_root s" as b] by auto
  with snoc.IH [of b k'] k show ?case by simp
qed

lemma put_names_path:
  assumes "\<And>n. n \<in> set ns \<Longrightarrow> NUL \<in> set n"
    and "length b = length (path_of (map text_of ns))"
  shows "put_names (q @ b @ r) (length q) ns =
    Inr (q @ path_of (map text_of ns) @ r, length q + length (path_of (map text_of ns)))"
  using assms
proof (induction ns arbitrary: q b)
  case Nil
  then show ?case by (simp add: path_of_def)
next
  case (Cons n ns)
  let ?t = "text_of n" and ?p = "path_of (map text_of ns)"
  obtain x b1 b2 where b: "b = x # b1 @ b2" "length b1 = length ?t" "length b2 = length ?p"
  proof -
    from Cons.prems(2) obtain x b' where "b = x # b'" "length b' = length ?t + length ?p"
      by (cases b) (auto simp: path_of_def)
    then show ?thesis using that [of x "take (length ?t) b'" "drop (length ?t) b'"] by auto
  qed
  from Cons.prems(1) [of n] obtain z where n: "n = ?t @ NUL # z" using text_of_split [of n] by auto
  have "put_names (q @ b @ r) (length q) (n # ns) =
      bindE (copy_text ((q @ ''/'') @ b1 @ (b2 @ r)) (length (q @ ''/'')) n)
        (\<lambda>(buf2, out2). put_names buf2 out2 ns)"
    by (simp add: b list_update_append)
  also have "\<dots> = put_names ((q @ ''/'' @ ?t) @ b2 @ r) (length (q @ ''/'' @ ?t)) ns"
    using copy_text_append [of ?t b1 "q @ ''/''" "b2 @ r" z] b(2) n by simp
  also have "\<dots> = Inr ((q @ ''/'' @ ?t) @ ?p @ r, length (q @ ''/'' @ ?t) + length ?p)"
    using Cons.IH [of b2 "q @ ''/'' @ ?t"] Cons.prems(1) b(3) by simp
  finally show ?case by (simp add: path_of_def)
qed

text \<open>A path down the tree along which every name finds the node it belongs to.\<close>

fun named_path :: "vfs \<Rightarrow> (addr \<Rightarrow> addr list) \<Rightarrow> addr \<Rightarrow> addr list \<Rightarrow> bool" where
  "named_path s kids p [] = True"
| "named_path s kids p (a # as) = (is_dir s p \<and> plain_name (node_name s a) \<and>
     find (\<lambda>b. node_name s b = node_name s a) (entries s kids p) = Some a \<and> named_path s kids a as)"

lemma resolve_named_path:
  "named_path s kids p as \<Longrightarrow> resolve s kids p (map (node_name s) as) = Inr (Reached (last (p # as)))"
  by (induction as arbitrary: p) (auto simp: plain_name_def)

lemma named_path_names: "named_path s kids p as \<Longrightarrow> list_all plain_name (map (node_name s) as)"
  by (induction as arbitrary: p) auto

lemma vfs_get_path_eq:
  assumes "vfs_root s \<noteq> NULL" "descends s (vfs_root s) as" "as \<noteq> []" "length as \<le> MAX_PATH_NODES"
    and "\<And>a. a \<in> set as \<Longrightarrow> NUL \<in> set (nd_name (nodes s a))"
    and "length (path_of (map (node_name s) as)) < length buf"
  shows "\<exists>r. vfs_get_path (last as) buf s = Inr (path_of (map (node_name s) as) @ NUL # r)"
proof -
  let ?p = "path_of (map (node_name s) as)"
  obtain bs a where as: "as = bs @ [a]" using assms(3) by (metis rev_exhaust)
  then have a: "last as = a" "a \<noteq> NULL" "a \<noteq> vfs_root s"
    using assms(2) descends_append [of s "vfs_root s" bs a] by auto
  have nodes: "path_nodes MAX_PATH_NODES s a = Inr as"
    using path_nodes_descends [OF assms(1), of bs a MAX_PATH_NODES] assms(2,4) as by simp
  have map: "map text_of (map (\<lambda>a. nd_name (nodes s a)) as) = map (node_name s) as"
    by (simp add: node_name_def)
  obtain b x r where buf: "buf = b @ x # r" "length b = length ?p"
    using assms(6) id_take_nth_drop [of "length ?p" buf] by (metis length_take min.absorb4)
  have "put_names ([] @ b @ x # r) (length []) (map (\<lambda>a. nd_name (nodes s a)) as) =
      Inr ([] @ ?p @ x # r, length [] + length ?p)"
    using put_names_path [of "map (\<lambda>a. nd_name (nodes s a)) as" b "[]" "x # r"] assms(5) buf(2)
    unfolding map by auto
  then show ?thesis
    using a nodes by (simp add: vfs_get_path_def buf(1) list_update_append)
qed

section \<open>Properties\<close>

text \<open>C10. Attaching and removing a node.  Attaching a fresh node to a directory makes it the last
  child; removing it again succeeds and restores the list of children and every other node, and
  the lock of the directory is free after both calls.  Only the count of root nodes is not
  restored: it stays one too high when the directory is the root.\<close>

theorem vfs_mknod_rmnod_roundtrip:
  assumes "children s p xs" "p \<noteq> NULL" "node \<noteq> NULL" "node \<noteq> p" "node \<notin> set xs" "p \<notin> set xs"
    and "next_node s node = NULL" "nd_flags (nodes s p) AND FS_DIRECTORY \<noteq> 0"
    and "ms (nd_lock (nodes s p)) = 0"
  shows "\<exists>s1 s2. vfs_mknod p node acts s = Some (Inr (0, s1, acts)) \<and>
    children s1 p (xs @ [node]) \<and> nd_parent (nodes s1 node) = p \<and>
    vfs_rmnod node acts s1 = Some (Inr (0, s2, acts)) \<and> children s2 p xs \<and>
    (\<forall>a. nodes s2 a = (if a = node then (nodes s node)\<lparr>nd_parent := p\<rparr> else nodes s a)) \<and>
    vfs_root_nodes s2 = vfs_root_nodes s + (if p = vfs_root s then 1 else 0)"
proof -
  let ?l = "\<lambda>v. upd_node p (\<lambda>n. n\<lparr>nd_lock := (nd_lock n)\<lparr>ms := v\<rparr>\<rparr>)"
  let ?par = "upd_node node (\<lambda>n. n\<lparr>nd_parent := p\<rparr>)"
  have held: "children (?l 1 s) p xs" using assms(1) children_cong [of "?l 1 s" p s xs] by auto
  obtain t where t: "attach_node p node (?l 1 s) = Some t" "children t p (xs @ [node])"
    "t = count_root_node p (if xs = [] then upd_node p (\<lambda>n. n\<lparr>nd_ptr := node\<rparr>) (?par (?l 1 s))
       else set_next_node (?par (?l 1 s)) (last xs) node)"
    by (rule attach_node_children [OF held assms(3,5)]) (use assms(7) in auto)
  define s1 where "s1 = ?l 0 t"
  have lx: "xs \<noteq> [] \<Longrightarrow> last xs \<noteq> p \<and> last xs \<noteq> node"
    using assms(5,6) by (metis last_in_set)
  have s1n: "nodes s1 = (if xs = [] then (nodes s)(node := (nodes s node)\<lparr>nd_parent := p\<rparr>,
        p := (nodes s p)\<lparr>nd_ptr := node\<rparr>)
      else (nodes s)(node := (nodes s node)\<lparr>nd_parent := p\<rparr>,
        last xs := (nodes s (last xs))\<lparr>nd_next := node\<rparr>))"
    using assms(4,9) lx by (auto simp: s1_def t(3) set_next_node_def fun_eq_iff)
  have "ms (nd_lock (nodes t p)) = 1" using lx assms(4) by (auto simp: t(3) set_next_node_def)
  then have mk: "vfs_mknod p node acts s = Some (Inr (0, s1, acts))"
    using assms(2,3,7,8,9) t(1)
    by (simp add: vfs_mknod_def Let_def node_busywait_free node_release_held s1_def)
  have c1: "children s1 p (xs @ [node])"
    using t(2) children_cong [of s1 p t "xs @ [node]"] by (auto simp: s1_def)
  have par: "nd_parent (nodes s1 node) = p" using lx assms(4) by (auto simp: s1n)
  have free: "ms (nd_lock (nodes s1 p)) = 0" using lx assms(4,9) by (auto simp: s1n)
  obtain s2 where s2: "vfs_rmnod node acts s1 = Some (Inr (0, s2, acts))"
    "s2 = upd_node node (\<lambda>n. n\<lparr>nd_next := NULL\<rparr>)
       (if xs = [] then upd_node p (\<lambda>n. n\<lparr>nd_ptr := next_node s1 node\<rparr>) s1
        else set_next_node s1 (last xs) (next_node s1 node))"
    using vfs_rmnod_children [OF c1 par assms(2) free] by metis
  have ends: "xs = [] \<Longrightarrow> nd_ptr (nodes s p) = NULL" "xs \<noteq> [] \<Longrightarrow> next_node s (last xs) = NULL"
    using assms(1) by (auto simp: children_def, cases xs rule: rev_cases, auto)
  have n2: "nodes s2 a = (if a = node then (nodes s node)\<lparr>nd_parent := p\<rparr> else nodes s a)" for a
  proof (cases "xs = []")
    case True
    then show ?thesis using assms(4,7) ends by (simp add: s2(2) s1n node_same)
  next
    case False
    note l = lx [OF False] and e = ends(2) [OF False]
    have "nodes s1 = (nodes s)(node := (nodes s node)\<lparr>nd_parent := p\<rparr>,
        last xs := (nodes s (last xs))\<lparr>nd_next := node\<rparr>)" using False by (simp only: s1n if_False)
    moreover have "nodes s2 = (nodes s1)(last xs := (nodes s1 (last xs))\<lparr>nd_next := next_node s1 node\<rparr>,
        node := (nodes s1 node)\<lparr>nd_next := NULL\<rparr>)"
      using False l by (simp add: s2(2) set_next_node_def)
    ultimately show ?thesis using l assms(7) e by (auto simp: node_same)
  qed
  then have "children s2 p xs" using assms(1,4) children_cong [of s2 p s xs] assms(5) by force
  moreover have "vfs_root_nodes s2 = vfs_root_nodes s + (if p = vfs_root s then 1 else 0)"
    by (simp add: s2(2) s1_def t(3) set_next_node_def)
  ultimately show ?thesis using mk c1 par s2(1) n2 by blast
qed

text \<open>A root with a directory \<open>bin\<close> that holds a file \<open>sh\<close>, and an empty mounted root.\<close>

definition sample_node :: "string \<Rightarrow> u32 \<Rightarrow> addr \<Rightarrow> addr \<Rightarrow> vfs_node_t" where
  "sample_node nm f parent ptr =
     (VFS_NODE_INITIALIZER f)\<lparr>nd_name := cstr nm, nd_parent := parent, nd_ptr := ptr\<rparr>"

definition sample_vfs :: vfs where
  "sample_vfs = \<lparr>nodes = (\<lambda>_. sample_node [] FS_FILE NULL NULL)
       (1 := sample_node [] FS_DIRECTORY NULL 3, 2 := sample_node [] FS_DIRECTORY NULL NULL,
        3 := sample_node ''bin'' FS_DIRECTORY 1 4, 4 := sample_node ''sh'' FS_FILE 3 NULL),
     vfs_root = 1, vfs_root_mount = 2, vfs_root_nodes = 1, cwd = NULL, errno = 0,
     pipe_buf = \<lambda>_. NULL, released = []\<rparr>"

definition sample_kids :: "addr \<Rightarrow> addr list" where
  "sample_kids = (\<lambda>_. [])(1 := [3], 3 := [4])"

lemma sample_node_fields [simp]:
  "nd_name (sample_node nm f p q) = cstr nm" "nd_parent (sample_node nm f p q) = p"
  "nd_ptr (sample_node nm f p q) = q" "nd_next (sample_node nm f p q) = NULL"
  "nd_flags (sample_node nm f p q) = f" "nd_open (sample_node nm f p q) = NULL"
  "nd_finddir (sample_node nm f p q) = NULL" "ms (nd_lock (sample_node nm f p q)) = 0"
  by (simp_all add: sample_node_def VFS_NODE_INITIALIZER_def MUTEX_INITIALIZER_def)

lemma sample_vfs_fields [simp]:
  "nodes sample_vfs 1 = sample_node [] FS_DIRECTORY NULL 3"
  "nodes sample_vfs 2 = sample_node [] FS_DIRECTORY NULL NULL"
  "nodes sample_vfs 3 = sample_node ''bin'' FS_DIRECTORY 1 4"
  "nodes sample_vfs 4 = sample_node ''sh'' FS_FILE 3 NULL"
  "nodes sample_vfs 5 = sample_node [] FS_FILE NULL NULL"
  "vfs_root sample_vfs = 1" "vfs_root_mount sample_vfs = 2" "cwd sample_vfs = NULL"
  "vfs_root_nodes sample_vfs = 1"
  by (simp_all add: sample_vfs_def)

lemma sample_kids_simps [simp]: "sample_kids 1 = [3]" "sample_kids 2 = []" "sample_kids 3 = [4]"
    "sample_kids 4 = []"
  by (simp_all add: sample_kids_def)

lemma sample_is_dir [simp]: "is_dir sample_vfs 1" "is_dir sample_vfs 3" "\<not> is_dir sample_vfs 4"
  by (simp_all add: is_dir_def FS_defs)

lemma sample_names [simp]: "node_name sample_vfs 3 = ''bin''" "node_name sample_vfs 4 = ''sh''"
  by (simp_all add: node_name_def text_of_def)

lemma sample_tree_ok: "tree_ok sample_vfs sample_kids {1, 3, 4}"
  by (auto simp: tree_ok_def children_def cstr_def)

theorem vfs_mknod_rmnod_roundtrip_witness:
  "\<exists>s1 s2. vfs_mknod 1 5 [] sample_vfs = Some (Inr (0, s1, [])) \<and> children s1 1 [3, 5] \<and>
    vfs_rmnod 5 [] s1 = Some (Inr (0, s2, [])) \<and> children s2 1 [3] \<and> vfs_root_nodes s2 = 2"
  using vfs_mknod_rmnod_roundtrip [of sample_vfs 1 "[3]" 5 "[]"]
  by (auto simp: children_def FS_defs)

text \<open>C2. Path resolution.  Over a tree without driver hooks and with its locks free, \<open>vfs_open\<close>
  always returns, for every path of at most \<open>MAX_PATH\<close> characters.  The node is the one that the
  components of the path lead to from the root or the working directory: \<open>.\<close> stays, \<open>..\<close> goes to
  the parent, a name to the first entry of that name, where the root also shows the entries of
  the mounted root.  The walk ends at the first empty component, and the empty path is the root.
  The node found gains a reference; above the root and for a missing name the result is \<open>NULL\<close>
  with \<open>ENOENT\<close>, and in the latter case the directory that lacks the name gains a reference; a
  name looked up below a node that is not a directory is a call through \<open>NULL\<close>, and \<open>..\<close> at a
  node without parent other than the root is a failed assertion.\<close>

theorem vfs_open_resolves:
  assumes "tree_ok s kids N" "start_node s p \<in> N" "is_text p" "length p \<le> MAX_PATH"
    and "length buf = MAX_PATH + 1" "\<forall>a \<in> N. ms (nd_lock (nodes s a)) = 0"
  shows "vfs_open d (Some buf) acts (Some (cstr p)) s =
    Some (bindE (if components p = [] then Inr (Reached (vfs_root s))
      else resolve s kids (start_node s p) (components p))
      (\<lambda>e. Inr (fst (open_result s e), snd (open_result s e), acts)))"
  using assms by (intro vfs_open_walk) auto

theorem vfs_open_resolves_witness:
  "\<forall>d. vfs_open d (Some (replicate 256 NUL)) [] (Some (cstr ''/bin/./sh'')) sample_vfs =
     Some (Inr (4, upd_node 4 (\<lambda>n. n\<lparr>nd_refs := nd_refs n + 1\<rparr>) sample_vfs, [])) \<and>
   vfs_open d (Some (replicate 256 NUL)) [] (Some (cstr ''/bin/sh/x'')) sample_vfs =
     Some (Inl Null_Deref)"
  using vfs_open_resolves [OF sample_tree_ok, of "''/bin/./sh''" "replicate 256 NUL" _ "[]"]
    vfs_open_resolves [OF sample_tree_ok, of "''/bin/sh/x''" "replicate 256 NUL" _ "[]"]
  by (simp add: MAX_PATH_def components_def strip_slash_def start_node_def Let_def entries_def
      open_result_def)

text \<open>C9. Paths and nodes.  For a node reached from the root by distinct plain names the path that
  \<open>vfs_get_path\<close> writes is the slash-separated list of the names on the way, and opening that path
  gives the node back.\<close>

theorem vfs_path_roundtrip:
  assumes "tree_ok s kids N" "descends s (vfs_root s) as" "named_path s kids (vfs_root s) as"
    and "as \<noteq> []" "length as \<le> MAX_PATH_NODES" "set as \<subseteq> N"
    and "length (path_of (map (node_name s) as)) \<le> MAX_PATH" "MAX_PATH < length buf"
    and "length b = MAX_PATH + 1" "\<forall>a \<in> N. ms (nd_lock (nodes s a)) = 0"
  shows "\<exists>path. vfs_get_path (last as) buf s = Inr path \<and>
    text_of path = path_of (map (node_name s) as) \<and>
    vfs_open d (Some b) acts (Some (cstr (text_of path))) s =
      Some (Inr (last as, upd_node (last as) (\<lambda>n. n\<lparr>nd_refs := nd_refs n + 1\<rparr>) s, acts))"
proof -
  let ?ns = "map (node_name s) as"
  let ?p = "path_of ?ns"
  have root: "vfs_root s \<in> N" "vfs_root s \<noteq> NULL" using assms(1) by (auto simp: tree_ok_def)
  have "\<And>a. a \<in> set as \<Longrightarrow> NUL \<in> set (nd_name (nodes s a))"
    using assms(1,6) by (auto simp: tree_ok_def)
  from vfs_get_path_eq [OF root(2) assms(2,4,5) this] assms(7,8) obtain r where
    get: "vfs_get_path (last as) buf s = Inr (?p @ NUL # r)" by fastforce
  have plain: "list_all plain_name ?ns" by (rule named_path_names [OF assms(3)])
  then have tx: "is_text ?p" by (auto simp: path_of_def list_all_iff plain_name_def is_text_def)
  have comps: "components ?p = ?ns" using plain assms(4) by (intro components_path_of) auto
  have "start_node s ?p = vfs_root s"
    using assms(4) root(2) by (cases as) (auto simp: start_node_def path_of_def)
  then have "vfs_open d (Some b) acts (Some (cstr ?p)) s =
      Some (Inr (last as, upd_node (last as) (\<lambda>n. n\<lparr>nd_refs := nd_refs n + 1\<rparr>) s, acts))"
    using vfs_open_walk [OF assms(1) _ tx assms(7,9), of d acts] assms(4,10) root
      resolve_named_path [OF assms(3)] comps
    by (simp add: open_result_def)
  with get tx show ?thesis by (auto simp: text_of_append)
qed

theorem vfs_path_roundtrip_witness:
  "\<forall>d. \<exists>path. vfs_get_path 4 (replicate 256 NUL) sample_vfs = Inr path \<and> text_of path = ''/bin/sh'' \<and>
    vfs_open d (Some (replicate 256 NUL)) [] (Some (cstr (text_of path))) sample_vfs =
      Some (Inr (4, upd_node 4 (\<lambda>n. n\<lparr>nd_refs := nd_refs n + 1\<rparr>) sample_vfs, []))"
  using vfs_path_roundtrip [OF sample_tree_ok, of "[3, 4]" "replicate 256 NUL" "replicate 256 NUL" _ "[]"]
  by (simp add: MAX_PATH_def MAX_PATH_NODES_def plain_name_def entries_def path_of_def)

end
