(* ===== verification/Semaphore.thy ===== *)
theory Semaphore
  imports Mutex
begin

text \<open>
  The counting semaphores of \<open>kernel/semaphore.c\<close>, built on the mutexes.  The non-blocking
  operations are functions of the struct; the blocking ones loop over what the environment does
  at each \<open>yield()\<close>, spin or \<open>pause()\<close>.  The contract of a counting semaphore is the locale
  \<open>counting_semaphore\<close>, interpreted on the non-blocking operations; the locale \<open>semaphore_place\<close> holds
  what the sleeping operations do to the state of the component the semaphore belongs to.
\<close>

section \<open>State\<close>

record semaphore_t =
  cnt :: u32
  max_cnt :: u32
  enter :: light_mutex_t
  exclusive :: mutex_t
  s_waiters_lock :: light_mutex_t
  s_waiters :: addr

definition SEMAPHORE_INITIALIZER :: "u32 \<Rightarrow> u32 \<Rightarrow> semaphore_t" where
  "SEMAPHORE_INITIALIZER mx count = \<lparr>cnt = count, max_cnt = mx,
     enter = LIGHT_MUTEX_INITIALIZER, exclusive = MUTEX_INITIALIZER,
     s_waiters_lock = LIGHT_MUTEX_INITIALIZER, s_waiters = NULL\<rparr>"

definition release_enter :: "semaphore_t \<Rightarrow> semaphore_t outcome" where
  "release_enter s = bindE (mutex_release (enter s)) (\<lambda>l. Inr (s\<lparr>enter := l\<rparr>))"

definition release_exclusive :: "semaphore_t \<Rightarrow> semaphore_t outcome" where
  "release_exclusive s = bindE (mutex_release (exclusive s)) (\<lambda>l. Inr (s\<lparr>exclusive := l\<rparr>))"

section \<open>Non-blocking operations\<close>

definition semaphore_try :: "semaphore_t \<Rightarrow> (bool \<times> semaphore_t) outcome" where
  "semaphore_try s =
     bindE (mutex_try (exclusive s)) (\<lambda>(ok, x).
     let s = s\<lparr>exclusive := x\<rparr> in
     if \<not> ok then Inr (False, s) else
     bindE (mutex_try (enter s)) (\<lambda>(ok, l).
     let s = s\<lparr>enter := l\<rparr> in
     if \<not> ok then bindE (release_exclusive s) (\<lambda>s. Inr (False, s))
     else if cnt s < max_cnt s then
       bindE (release_enter (s\<lparr>cnt := cnt s + 1\<rparr>)) (\<lambda>s.
       bindE (release_exclusive s) (\<lambda>s. Inr (True, s)))
     else
       bindE (release_enter s) (\<lambda>s.
       bindE (release_exclusive s) (\<lambda>s. Inr (False, s)))))"

definition semaphore_try_excl :: "semaphore_t \<Rightarrow> (bool \<times> semaphore_t) outcome" where
  "semaphore_try_excl s =
     bindE (mutex_try (exclusive s)) (\<lambda>(ok, x).
     let s = s\<lparr>exclusive := x\<rparr> in
     if \<not> ok then Inr (False, s) else
     bindE (mutex_try (enter s)) (\<lambda>(ok, l).
     let s = s\<lparr>enter := l\<rparr> in
     if \<not> ok then bindE (release_exclusive s) (\<lambda>s. Inr (False, s))
     else if cnt s = 0 then bindE (release_enter s) (\<lambda>s. Inr (True, s))
     else
       bindE (release_enter s) (\<lambda>s.
       bindE (release_exclusive s) (\<lambda>s. Inr (False, s)))))"

definition semaphore_signal_excl :: "semaphore_t \<Rightarrow> semaphore_t outcome" where
  "semaphore_signal_excl s = release_exclusive s"

definition semaphore_trysignal :: "semaphore_t \<Rightarrow> (bool \<times> semaphore_t) outcome" where
  "semaphore_trysignal s =
     bindE (mutex_try (enter s)) (\<lambda>(ok, l).
     let s = s\<lparr>enter := l\<rparr> in
     if \<not> ok then Inr (False, s)
     else if cnt s > 0 then bindE (release_enter (s\<lparr>cnt := cnt s - 1\<rparr>)) (\<lambda>s. Inr (True, s))
     else bindE (release_enter s) (\<lambda>s. Inr (False, s)))"

section \<open>Blocking operations\<close>

type_synonym sem_state = "semaphore_t \<times> waiter_heap"
type_synonym sem_env = "sem_state \<Rightarrow> sem_state"

abbreviation get_enter :: "sem_state \<Rightarrow> light_mutex_t" where
  "get_enter st \<equiv> enter (fst st)"

abbreviation put_enter :: "light_mutex_t \<Rightarrow> sem_state \<Rightarrow> sem_state" where
  "put_enter l st \<equiv> ((fst st)\<lparr>enter := l\<rparr>, snd st)"

abbreviation get_exclusive :: "sem_state \<Rightarrow> mutex_t" where
  "get_exclusive st \<equiv> exclusive (fst st)"

abbreviation put_exclusive :: "mutex_t \<Rightarrow> sem_state \<Rightarrow> sem_state" where
  "put_exclusive x st \<equiv> ((fst st)\<lparr>exclusive := x\<rparr>, snd st)"

text \<open>
  What a round does once it owns \<open>enter\<close>: \<open>Some\<close> is the branch that takes the slot (or the whole
  semaphore) and returns, \<open>None\<close> the branch that goes round again.
\<close>

definition take_slot :: "semaphore_t \<Rightarrow> semaphore_t outcome option" where
  "take_slot s = (if cnt s < max_cnt s then
     Some (bindE (release_enter (s\<lparr>cnt := cnt s + 1\<rparr>)) release_exclusive) else None)"

definition take_all :: "semaphore_t \<Rightarrow> semaphore_t outcome option" where
  "take_all s = (if cnt s = 0 then Some (release_enter s) else None)"

definition give_slot :: "semaphore_t \<Rightarrow> semaphore_t outcome option" where
  "give_slot s = (if cnt s > 0 then Some (release_enter (s\<lparr>cnt := cnt s - 1\<rparr>)) else None)"

text \<open>The \<open>while (1)\<close> loop; \<open>spin\<close> tells whether \<open>enter\<close> is awaited by spinning.\<close>

function sem_loop :: "bool \<Rightarrow> (semaphore_t \<Rightarrow> semaphore_t outcome option) \<Rightarrow> sem_env list \<Rightarrow>
    sem_state \<Rightarrow> (sem_state \<times> sem_env list) run" where
  "sem_loop spin act envs st =
     bindR (if spin then mutex_busywait get_enter put_enter envs st
            else mutex_wait get_enter put_enter envs st) (\<lambda>x.
       case act (fst (fst x)) of
         Some r \<Rightarrow> Some (bindE r (\<lambda>s. Inr ((s, snd (fst x)), snd x)))
       | None \<Rightarrow>
           bindR (Some (release_enter (fst (fst x)))) (\<lambda>s.
             case snd x of [] \<Rightarrow> None
             | e # es \<Rightarrow> sem_loop spin act es (e (s, snd (fst x)))))"
  by pat_completeness auto
termination
proof (relation "measure (\<lambda>(spin, act, envs, st). length envs)", goal_cases)
  case (2 spin act envs st x s e es)
  then show ?case
    using mutex_wait_envs [of get_enter put_enter envs st "fst x" "snd x"]
    by (cases x) (auto simp: mutex_busywait_eq_wait split: if_splits)
qed simp

definition semaphore_wait :: "sem_env list \<Rightarrow> sem_state \<Rightarrow> (sem_state \<times> sem_env list) run" where
  "semaphore_wait envs st =
     bindR (mutex_wait get_exclusive put_exclusive envs st) (\<lambda>(st, es).
       sem_loop True take_slot es st)"

definition semaphore_wait_excl :: "sem_env list \<Rightarrow> sem_state \<Rightarrow> (sem_state \<times> sem_env list) run" where
  "semaphore_wait_excl envs st =
     bindR (mutex_wait get_exclusive put_exclusive envs st) (\<lambda>(st, es).
       sem_loop False take_all es st)"

definition semaphore_busywait :: "sem_env list \<Rightarrow> sem_state \<Rightarrow> (sem_state \<times> sem_env list) run" where
  "semaphore_busywait envs st =
     bindR (mutex_wait get_exclusive put_exclusive envs st) (\<lambda>(st, es).
       sem_loop True take_slot es st)"

definition semaphore_busywait_excl :: "sem_env list \<Rightarrow> sem_state \<Rightarrow> (sem_state \<times> sem_env list) run" where
  "semaphore_busywait_excl envs st =
     bindR (mutex_busywait get_exclusive put_exclusive envs st) (\<lambda>(st, es).
       sem_loop True take_all es st)"

definition semaphore_signal :: "sem_env list \<Rightarrow> sem_state \<Rightarrow> (sem_state \<times> sem_env list) run" where
  "semaphore_signal envs st = sem_loop False give_slot envs st"

text \<open>
  The sleeping variants attach to the semaphore's own waiter list between two rounds.  They run on
  the state of the component the semaphore belongs to, in which \<open>get\<close> and \<open>put\<close> select the
  semaphore and the waiter structs, so that the others may change all of that state while the caller
  sleeps.
\<close>

abbreviation sem_of :: "('s \<Rightarrow> sem_state) \<Rightarrow> 's \<Rightarrow> semaphore_t" where
  "sem_of get st \<equiv> fst (get st)"

abbreviation put_sem :: "('s \<Rightarrow> sem_state) \<Rightarrow> (sem_state \<Rightarrow> 's \<Rightarrow> 's) \<Rightarrow> semaphore_t \<Rightarrow> 's \<Rightarrow> 's" where
  "put_sem get put s st \<equiv> put (s, snd (get st)) st"

abbreviation sleepers :: "('s \<Rightarrow> sem_state) \<Rightarrow> 's \<Rightarrow> waiter_heap" where
  "sleepers get st \<equiv> snd (get st)"

abbreviation put_sleepers :: "('s \<Rightarrow> sem_state) \<Rightarrow> (sem_state \<Rightarrow> 's \<Rightarrow> 's) \<Rightarrow> waiter_heap \<Rightarrow> 's \<Rightarrow> 's" where
  "put_sleepers get put h st \<equiv> put (fst (get st), h) st"

definition wait_enter :: "('s \<Rightarrow> sem_state) \<Rightarrow> (sem_state \<Rightarrow> 's \<Rightarrow> 's) \<Rightarrow> ('s \<Rightarrow> 's) list \<Rightarrow> 's \<Rightarrow>
    ('s \<times> ('s \<Rightarrow> 's) list) run" where
  "wait_enter get put = mutex_wait (\<lambda>st. enter (sem_of get st))
     (\<lambda>l st. put_sem get put ((sem_of get st)\<lparr>enter := l\<rparr>) st)"

definition sem_waitsleep_exclusive :: "('s \<Rightarrow> sem_state) \<Rightarrow> (sem_state \<Rightarrow> 's \<Rightarrow> 's) \<Rightarrow> i32 \<Rightarrow> addr \<Rightarrow>
    ('s \<Rightarrow> 's) list \<Rightarrow> 's \<Rightarrow> ('s \<times> ('s \<Rightarrow> 's) list) run" where
  "sem_waitsleep_exclusive get put = mutex_waitsleep (\<lambda>st. exclusive (sem_of get st))
     (\<lambda>x st. put_sem get put ((sem_of get st)\<lparr>exclusive := x\<rparr>) st) (sleepers get) (put_sleepers get put)"

definition sem_attach_waiter :: "('s \<Rightarrow> sem_state) \<Rightarrow> (sem_state \<Rightarrow> 's \<Rightarrow> 's) \<Rightarrow> i32 \<Rightarrow> addr \<Rightarrow>
    ('s \<Rightarrow> 's) list \<Rightarrow> 's \<Rightarrow> ('s \<times> ('s \<Rightarrow> 's) list) run" where
  "sem_attach_waiter get put = mutex_attach_waiter (\<lambda>st. s_waiters_lock (sem_of get st))
     (\<lambda>l st. put_sem get put ((sem_of get st)\<lparr>s_waiters_lock := l\<rparr>) st)
     (\<lambda>st. (s_waiters (sem_of get st), sleepers get st))
     (\<lambda>lh st. put ((sem_of get st)\<lparr>s_waiters := fst lh\<rparr>, snd lh) st)"

definition sem_detach_waiter :: "('s \<Rightarrow> sem_state) \<Rightarrow> (sem_state \<Rightarrow> 's \<Rightarrow> 's) \<Rightarrow> addr \<Rightarrow>
    ('s \<Rightarrow> 's) list \<Rightarrow> 's \<Rightarrow> ('s \<times> ('s \<Rightarrow> 's) list) run" where
  "sem_detach_waiter get put = mutex_detach_waiter (\<lambda>st. s_waiters_lock (sem_of get st))
     (\<lambda>l st. put_sem get put ((sem_of get st)\<lparr>s_waiters_lock := l\<rparr>) st)
     (\<lambda>st. (s_waiters (sem_of get st), sleepers get st))
     (\<lambda>lh st. put ((sem_of get st)\<lparr>s_waiters := fst lh\<rparr>, snd lh) st)"

text \<open>
  The \<open>while (1)\<close> loop of the sleeping waits.  Besides the actions at each \<open>yield()\<close> and \<open>pause()\<close>,
  \<open>gap\<close> is what the others do between the release of \<open>enter\<close> and the attachment of the waiter, where
  an interrupt finds \<open>enter\<close> free and no waiter to wake; it is \<open>id\<close> when nothing happens there.
\<close>

partial_function (option) sem_sleep_loop :: "('s \<Rightarrow> sem_state) \<Rightarrow> (sem_state \<Rightarrow> 's \<Rightarrow> 's) \<Rightarrow> ('s \<Rightarrow> 's) \<Rightarrow>
    (semaphore_t \<Rightarrow> semaphore_t outcome option) \<Rightarrow> i32 \<Rightarrow> addr \<Rightarrow> ('s \<Rightarrow> 's) list \<Rightarrow> 's \<Rightarrow>
    ('s \<times> ('s \<Rightarrow> 's) list) run" where
  "sem_sleep_loop get put gap act tid waiter envs st =
     bindR (wait_enter get put envs st) (\<lambda>x.
       case act (sem_of get (fst x)) of
         Some r \<Rightarrow> Some (bindE r (\<lambda>s. Inr (put_sem get put s (fst x), snd x)))
       | None \<Rightarrow>
           bindR (Some (release_enter (sem_of get (fst x)))) (\<lambda>s.
           bindR (sem_attach_waiter get put tid waiter (snd x) (gap (put_sem get put s (fst x)))) (\<lambda>a.
           bindR (sleep_while_waiting (sleepers get) waiter (snd a) (fst a)) (\<lambda>b.
           bindR (sem_detach_waiter get put waiter (snd b) (fst b)) (\<lambda>c.
             sem_sleep_loop get put gap act tid waiter (snd c) (fst c))))))"

declare sem_sleep_loop.simps [code]

definition semaphore_waitsleep :: "('s \<Rightarrow> sem_state) \<Rightarrow> (sem_state \<Rightarrow> 's \<Rightarrow> 's) \<Rightarrow> ('s \<Rightarrow> 's) \<Rightarrow> i32 \<Rightarrow> addr \<Rightarrow>
    ('s \<Rightarrow> 's) list \<Rightarrow> 's \<Rightarrow> ('s \<times> ('s \<Rightarrow> 's) list) run" where
  "semaphore_waitsleep get put gap tid waiter envs st =
     bindR (sem_waitsleep_exclusive get put tid waiter envs st)
       (\<lambda>(st, es). sem_sleep_loop get put gap take_slot tid waiter es st)"

definition semaphore_waitsleep_excl :: "('s \<Rightarrow> sem_state) \<Rightarrow> (sem_state \<Rightarrow> 's \<Rightarrow> 's) \<Rightarrow> ('s \<Rightarrow> 's) \<Rightarrow> i32 \<Rightarrow> addr \<Rightarrow>
    ('s \<Rightarrow> 's) list \<Rightarrow> 's \<Rightarrow> ('s \<times> ('s \<Rightarrow> 's) list) run" where
  "semaphore_waitsleep_excl get put gap tid waiter envs st =
     bindR (sem_waitsleep_exclusive get put tid waiter envs st)
       (\<lambda>(st, es). sem_sleep_loop get put gap take_all tid waiter es st)"

text \<open>The pid that gets \<open>SIGCONT\<close> is part of the result, as for the mutex.\<close>

function semaphore_signal_sleep :: "('s \<Rightarrow> sem_state) \<Rightarrow> (sem_state \<Rightarrow> 's \<Rightarrow> 's) \<Rightarrow> ('s \<Rightarrow> 's) list \<Rightarrow> 's \<Rightarrow>
    ('s \<times> ('s \<Rightarrow> 's) list \<times> i32 option) run" where
  "semaphore_signal_sleep get put envs st =
     bindR (wait_enter get put envs st) (\<lambda>x.
       let s = sem_of get (fst x); h = sleepers get (fst x) in
       if cnt s > 0 then
         (let s1 = s\<lparr>cnt := cnt s - 1\<rparr>; w = s_waiters s1;
              h1 = (if w \<noteq> NULL then h(w := (h w)\<lparr>w_waiting := False\<rparr>) else h);
              pid = (if w \<noteq> NULL then Some (w_pid (h w)) else None) in
          Some (bindE (release_enter s1) (\<lambda>s2. Inr (put (s2, h1) (fst x), snd x, pid))))
       else
         bindR (Some (release_enter s)) (\<lambda>s1.
           case snd x of [] \<Rightarrow> None
           | e # es \<Rightarrow> semaphore_signal_sleep get put es (e (put_sem get put s1 (fst x)))))"
  by pat_completeness auto
termination
proof (relation "measure (\<lambda>(get, put, envs, st). length envs)", goal_cases)
  case (2 get put envs st x)
  then show ?case
    using mutex_wait_envs [of _ _ envs st "fst x" "snd x"] unfolding wait_enter_def by (cases x) force
qed simp

section \<open>Specification\<close>

text \<open>Outside the operations \<open>enter\<close> is free; \<open>exclusive\<close> may be held by a successful caller.\<close>

definition sem_ok :: "semaphore_t \<Rightarrow> bool" where
  "sem_ok s = (ms (enter s) = 0 \<and> (ms (exclusive s) = 0 \<or> ms (exclusive s) = 1) \<and>
     cnt s \<le> max_cnt s)"

text \<open>A sequence of attempts to take (\<open>True\<close>) and to give back (\<open>False\<close>) a slot, with results.\<close>

fun sem_run :: "('s \<Rightarrow> (bool \<times> 's) outcome) \<Rightarrow> ('s \<Rightarrow> (bool \<times> 's) outcome) \<Rightarrow> bool list \<Rightarrow> 's \<Rightarrow>
    (bool list \<times> 's) outcome" where
  "sem_run acquire release [] s = Inr ([], s)"
| "sem_run acquire release (op # ops) s =
     bindE ((if op then acquire else release) s) (\<lambda>(r, s').
     bindE (sem_run acquire release ops s') (\<lambda>(rs, s''). Inr (r # rs, s'')))"

text \<open>How many attempts of the given kind succeeded.\<close>

definition successes :: "bool \<Rightarrow> bool list \<Rightarrow> bool list \<Rightarrow> nat" where
  "successes op ops rs = length (filter (\<lambda>(p, r). p = op \<and> r) (zip ops rs))"

text \<open>The rest of the system signals the semaphore once.\<close>

definition someone_signals :: sem_env where
  "someone_signals st = (case semaphore_signal [] st of Some (Inr (st', _)) \<Rightarrow> st' | _ \<Rightarrow> st)"

text \<open>A sleeping wait whose waiter is attached, and the structs after the waiter at \<open>w\<close> was woken.\<close>

definition sem_asleep :: "('s \<Rightarrow> sem_state) \<Rightarrow> (sem_state \<Rightarrow> 's \<Rightarrow> 's) \<Rightarrow> ('s \<Rightarrow> 's) \<Rightarrow>
    (semaphore_t \<Rightarrow> semaphore_t outcome option) \<Rightarrow> i32 \<Rightarrow> addr \<Rightarrow> ('s \<Rightarrow> 's) list \<Rightarrow> 's \<Rightarrow>
    ('s \<times> ('s \<Rightarrow> 's) list) run" where
  "sem_asleep get put gap act tid waiter envs st =
     bindR (sleep_while_waiting (sleepers get) waiter envs st) (\<lambda>b.
     bindR (sem_detach_waiter get put waiter (snd b) (fst b)) (\<lambda>c.
       sem_sleep_loop get put gap act tid waiter (snd c) (fst c)))"

definition wake_waiter :: "addr \<Rightarrow> waiter_heap \<Rightarrow> waiter_heap" where
  "wake_waiter w h = (if w \<noteq> NULL then h(w := (h w)\<lparr>w_waiting := False\<rparr>) else h)"

locale counting_semaphore =
  fixes inv :: "'s \<Rightarrow> bool"
    and count :: "'s \<Rightarrow> nat"
    and limit :: "'s \<Rightarrow> nat"
    and closed :: "'s \<Rightarrow> bool"
    and acquire :: "'s \<Rightarrow> (bool \<times> 's) outcome"
    and release :: "'s \<Rightarrow> (bool \<times> 's) outcome"
  assumes acquire_law: "inv s \<Longrightarrow> \<exists>s'. acquire s = Inr (\<not> closed s \<and> count s < limit s, s') \<and>
      inv s' \<and> limit s' = limit s \<and> closed s' = closed s \<and>
      count s' = (if \<not> closed s \<and> count s < limit s then Suc (count s) else count s)"
    and release_law: "inv s \<Longrightarrow> \<exists>s'. release s = Inr (0 < count s, s') \<and>
      inv s' \<and> limit s' = limit s \<and> closed s' = closed s \<and> count s' = count s - 1"
    and bound: "inv s \<Longrightarrow> count s \<le> limit s"
begin

lemma run_accounting:
  assumes "inv s"
  shows "\<exists>rs s'. sem_run acquire release ops s = Inr (rs, s') \<and> inv s' \<and> limit s' = limit s \<and>
    closed s' = closed s \<and> length rs = length ops \<and>
    count s' + successes False ops rs = count s + successes True ops rs \<and>
    (closed s \<longrightarrow> successes True ops rs = 0)"
  using assms
proof (induction ops arbitrary: s)
  case Nil
  then show ?case by (simp add: successes_def)
next
  case (Cons op ops)
  show ?case
  proof (cases op)
    case True
    from acquire_law [OF Cons.prems] obtain s1 where
      s1: "acquire s = Inr (\<not> closed s \<and> count s < limit s, s1)" "inv s1" "limit s1 = limit s"
        "closed s1 = closed s"
        "count s1 = (if \<not> closed s \<and> count s < limit s then Suc (count s) else count s)" by blast
    with Cons.IH [OF s1(2)] True show ?thesis by (auto simp: successes_def)
  next
    case False
    from release_law [OF Cons.prems] obtain s1 where
      s1: "release s = Inr (0 < count s, s1)" "inv s1" "limit s1 = limit s"
        "closed s1 = closed s" "count s1 = count s - 1" by blast
    with Cons.IH [OF s1(2)] False show ?thesis by (auto simp: successes_def)
  qed
qed

end

section \<open>Lemmas\<close>

declare sem_loop.simps [simp del] semaphore_signal_sleep.simps [simp del]

lemma sem_fields_same [simp]:
  fixes s :: semaphore_t
  shows "enter s = l \<Longrightarrow> s\<lparr>enter := l\<rparr> = s" "exclusive s = x \<Longrightarrow> s\<lparr>exclusive := x\<rparr> = s"
    "cnt s = c \<Longrightarrow> s\<lparr>cnt := c\<rparr> = s" "s_waiters_lock s = l \<Longrightarrow> s\<lparr>s_waiters_lock := l\<rparr> = s"
  by (cases s; simp)+

lemma release_enter_held: "ms (enter s) = 1 \<Longrightarrow> release_enter s = Inr (s\<lparr>enter := \<lparr>ms = 0\<rparr>\<rparr>)"
  by (cases "enter s") (simp add: release_enter_def mutex_release_held)

lemma release_exclusive_held:
  "ms (exclusive s) = 1 \<Longrightarrow> release_exclusive s = Inr (s\<lparr>exclusive := (exclusive s)\<lparr>ms := 0\<rparr>\<rparr>)"
  by (simp add: release_exclusive_def mutex_release_held)

lemma light_eq: "ms l = v \<Longrightarrow> l = \<lparr>ms = v\<rparr>" for l :: light_mutex_t
  by (cases l) simp

lemma semaphore_try_eq:
  assumes "sem_ok s"
  shows "semaphore_try s = Inr (if ms (exclusive s) = 0 \<and> cnt s < max_cnt s
    then (True, s\<lparr>cnt := cnt s + 1\<rparr>) else (False, s))"
proof -
  have e: "enter s = \<lparr>ms = 0\<rparr>" using assms by (intro light_eq) (simp add: sem_ok_def)
  show ?thesis
  proof (cases "ms (exclusive s) = 0")
    case True
    then show ?thesis using e
      by (simp add: semaphore_try_def mutex_try_free release_enter_held release_exclusive_held Let_def)
  next
    case False
    then have "ms (exclusive s) = 1" using assms by (simp add: sem_ok_def)
    then show ?thesis by (simp add: semaphore_try_def mutex_try_held Let_def)
  qed
qed

lemma semaphore_try_excl_eq:
  assumes "sem_ok s"
  shows "semaphore_try_excl s = Inr (if ms (exclusive s) = 0 \<and> cnt s = 0
    then (True, s\<lparr>exclusive := (exclusive s)\<lparr>ms := 1\<rparr>\<rparr>) else (False, s))"
proof -
  have e: "enter s = \<lparr>ms = 0\<rparr>" using assms by (intro light_eq) (simp add: sem_ok_def)
  show ?thesis
  proof (cases "ms (exclusive s) = 0")
    case True
    then show ?thesis using e
      by (simp add: semaphore_try_excl_def mutex_try_free release_enter_held release_exclusive_held
          Let_def)
  next
    case False
    then have "ms (exclusive s) = 1" using assms by (simp add: sem_ok_def)
    then show ?thesis by (simp add: semaphore_try_excl_def mutex_try_held Let_def)
  qed
qed

lemma semaphore_trysignal_eq:
  assumes "sem_ok s"
  shows "semaphore_trysignal s = Inr (if 0 < cnt s then (True, s\<lparr>cnt := cnt s - 1\<rparr>) else (False, s))"
proof -
  have e: "enter s = \<lparr>ms = 0\<rparr>" using assms by (intro light_eq) (simp add: sem_ok_def)
  then show ?thesis
    by (simp add: semaphore_trysignal_def mutex_try_free release_enter_held Let_def)
qed

interpretation sem: counting_semaphore sem_ok "\<lambda>s. unat (cnt s)" "\<lambda>s. unat (max_cnt s)"
  "\<lambda>s. ms (exclusive s) \<noteq> 0" semaphore_try semaphore_trysignal
proof unfold_locales
  fix s assume ok: "sem_ok s"
  show "\<exists>s'. semaphore_try s = Inr (\<not> ms (exclusive s) \<noteq> 0 \<and> unat (cnt s) < unat (max_cnt s), s') \<and>
      sem_ok s' \<and> unat (max_cnt s') = unat (max_cnt s) \<and>
      (ms (exclusive s') \<noteq> 0) = (ms (exclusive s) \<noteq> 0) \<and>
      unat (cnt s') = (if \<not> ms (exclusive s) \<noteq> 0 \<and> unat (cnt s) < unat (max_cnt s)
        then Suc (unat (cnt s)) else unat (cnt s))"
    using ok by (auto simp: semaphore_try_eq sem_ok_def word_less_nat_alt word_le_nat_alt
        unat_add_1 [of "cnt s" "max_cnt s"])
  show "\<exists>s'. semaphore_trysignal s = Inr (0 < unat (cnt s), s') \<and> sem_ok s' \<and>
      unat (max_cnt s') = unat (max_cnt s) \<and> (ms (exclusive s') \<noteq> 0) = (ms (exclusive s) \<noteq> 0) \<and>
      unat (cnt s') = unat (cnt s) - 1"
    using ok by (cases "cnt s = 0") (auto simp: semaphore_trysignal_eq sem_ok_def word_le_nat_alt
        unat_sub_1 unat_gt_0 word_neq_0_conv)
  show "unat (cnt s) \<le> unat (max_cnt s)" using ok by (simp add: sem_ok_def word_le_nat_alt)
qed

lemma semaphore_initializer_ok: "c \<le> mx \<Longrightarrow> sem_ok (SEMAPHORE_INITIALIZER mx c)"
  by (simp add: sem_ok_def SEMAPHORE_INITIALIZER_def LIGHT_MUTEX_INITIALIZER_def
      MUTEX_INITIALIZER_def)

lemma sem_loop_enter:
  assumes "ms (enter s) = 0"
  shows "sem_loop spin act envs (s, h) =
    (case act (s\<lparr>enter := \<lparr>ms = 1\<rparr>\<rparr>) of
       Some r \<Rightarrow> Some (bindE r (\<lambda>s. Inr ((s, h), envs)))
     | None \<Rightarrow> (case envs of [] \<Rightarrow> None | e # es \<Rightarrow> sem_loop spin act es (e (s, h))))"
proof -
  have e: "enter s = \<lparr>ms = 0\<rparr>" using assms by (rule light_eq)
  then show ?thesis
    by (subst sem_loop.simps)
      (auto simp: mutex_busywait_eq_wait mutex_wait_free release_enter_held split: option.split
        list.split)
qed

lemma someone_signals_eq:
  assumes "ms (enter s) = 0" "0 < cnt s"
  shows "someone_signals (s, h) = (s\<lparr>cnt := cnt s - 1\<rparr>, h)"
proof -
  have e: "enter s = \<lparr>ms = 0\<rparr>" using assms(1) by (rule light_eq)
  then show ?thesis
    using assms(2) by (simp add: someone_signals_def semaphore_signal_def sem_loop_enter give_slot_def
        release_enter_held)
qed

lemma slot_loop_idle:
  assumes "ms (enter s) = 0" "cnt s = max_cnt s"
  shows "sem_loop True take_slot (replicate n id @ envs) (s, h) = sem_loop True take_slot envs (s, h)"
  by (induction n) (simp_all add: sem_loop_enter take_slot_def assms)

section \<open>Sleeping on a semaphore\<close>

text \<open>
  What the sleeping operations need of the state they run on: reading and writing the semaphore and
  the structs in it obey the laws of a field.
\<close>

locale semaphore_place =
  fixes get :: "'s \<Rightarrow> sem_state"
    and put :: "sem_state \<Rightarrow> 's \<Rightarrow> 's"
  assumes get_put [simp]: "get (put x st) = x"
    and put_put [simp]: "put y (put x st) = put y st"
    and put_get: "get st = x \<Longrightarrow> put x st = st"
begin

lemma wait_enter_free:
  assumes "get st = (s, h)" "ms (enter s) = 0"
  shows "wait_enter get put envs st = Some (Inr (put (s\<lparr>enter := \<lparr>ms = 1\<rparr>\<rparr>, h) st, envs))"
  using assms light_eq [OF assms(2)] by (simp add: wait_enter_def mutex_wait_free)

lemma attach_first:
  assumes "get st = (s, h)" "ms (s_waiters_lock s) = 0" "s_waiters s = NULL"
  shows "sem_attach_waiter get put tid w envs st = Some (Inr (put (s\<lparr>s_waiters := w\<rparr>,
    h(w := \<lparr>w_pid = tid, w_waiting = True, w_next = NULL\<rparr>)) st, envs))"
proof -
  have l: "s_waiters_lock s = \<lparr>ms = 0\<rparr>" using assms(2) by (rule light_eq)
  then show ?thesis using assms
    by (simp add: sem_attach_waiter_def mutex_attach_waiter_def mutex_wait_free attach_locked_def
        mutex_release_held)
qed

lemma detach_only:
  assumes "get st = (s, h)" "ms (s_waiters_lock s) = 0" "s_waiters s = w" "w \<noteq> NULL" "w_next (h w) = NULL"
  shows "sem_detach_waiter get put w envs st = Some (Inr (put (s\<lparr>s_waiters := NULL\<rparr>, h) st, envs))"
proof -
  have l: "s_waiters_lock s = \<lparr>ms = 0\<rparr>" using assms(2) by (rule light_eq)
  then show ?thesis using assms
    by (simp add: sem_detach_waiter_def mutex_detach_waiter_def mutex_wait_free detach_locked_def
        mutex_release_held next_of_waiter_def)
qed

lemma slot_loop_ready:
  assumes "get st = (s, h)" "ms (enter s) = 0" "ms (exclusive s) = 1" "cnt s < max_cnt s"
  shows "sem_sleep_loop get put gap take_slot tid w envs st =
    Some (Inr (put (s\<lparr>cnt := cnt s + 1, exclusive := (exclusive s)\<lparr>ms := 0\<rparr>\<rparr>, h) st, envs))"
proof -
  have "s\<lparr>enter := \<lparr>ms = 0\<rparr>, cnt := cnt s + 1, exclusive := (exclusive s)\<lparr>ms := 0\<rparr>\<rparr> =
      s\<lparr>cnt := cnt s + 1, exclusive := (exclusive s)\<lparr>ms := 0\<rparr>\<rparr>"
    using light_eq [OF assms(2)] by (cases s) simp
  then show ?thesis using assms
    by (subst sem_sleep_loop.simps)
      (simp add: wait_enter_free [OF assms(1,2)] take_slot_def release_enter_held release_exclusive_held)
qed

lemma waitsleep_ready:
  assumes "get st = (s, h)" "ms (enter s) = 0" "ms (exclusive s) = 0" "cnt s < max_cnt s"
  shows "semaphore_waitsleep get put gap tid w envs st =
    Some (Inr (put (s\<lparr>cnt := cnt s + 1\<rparr>, h) st, envs))"
proof -
  let ?s = "s\<lparr>exclusive := (exclusive s)\<lparr>ms := 1\<rparr>\<rparr>"
  have "s\<lparr>exclusive := exclusive s, cnt := c\<rparr> = s\<lparr>cnt := c\<rparr>" for c by (cases s) simp
  then show ?thesis using assms slot_loop_ready [of "put (?s, h) st" ?s h]
    by (simp add: semaphore_waitsleep_def sem_waitsleep_exclusive_def mutex_waitsleep_def arch_exchange_rm_def)
qed

text \<open>The wait that finds no slot goes to sleep holding \<open>exclusive\<close>.\<close>

lemma waitsleep_sleeps:
  assumes "get st = (s, h)" "ms (enter s) = 0" "ms (exclusive s) = 0" "\<not> cnt s < max_cnt s"
    and st1: "st1 = gap (put (s\<lparr>exclusive := (exclusive s)\<lparr>ms := 1\<rparr>\<rparr>, h) st)"
    and s1: "get st1 = (s1, h1)" "ms (s_waiters_lock s1) = 0" "s_waiters s1 = NULL"
  shows "semaphore_waitsleep get put gap tid w envs st =
    sem_asleep get put gap take_slot tid w envs (put (s1\<lparr>s_waiters := w\<rparr>,
      h1(w := \<lparr>w_pid = tid, w_waiting = True, w_next = NULL\<rparr>)) st1)"
proof -
  let ?s = "s\<lparr>exclusive := (exclusive s)\<lparr>ms := 1\<rparr>\<rparr>"
  have e: "?s\<lparr>enter := \<lparr>ms = 0\<rparr>\<rparr> = ?s" using light_eq [OF assms(2)] by (cases s) simp
  have w: "wait_enter get put envs (put (?s, h) st) = Some (Inr (put (?s\<lparr>enter := \<lparr>ms = 1\<rparr>\<rparr>, h) st, envs))"
    using wait_enter_free [of "put (?s, h) st" ?s h envs] assms(2) by simp
  have "semaphore_waitsleep get put gap tid w envs st =
      sem_sleep_loop get put gap take_slot tid w envs (put (?s, h) st)"
    using assms(1,3)
    by (simp add: semaphore_waitsleep_def sem_waitsleep_exclusive_def mutex_waitsleep_def arch_exchange_rm_def)
  also have "\<dots> = bindR (sem_attach_waiter get put tid w envs st1) (\<lambda>a.
      sem_asleep get put gap take_slot tid w (snd a) (fst a))"
    using assms(4) e by (subst sem_sleep_loop.simps)
      (simp add: w take_slot_def release_enter_held st1 sem_asleep_def)
  finally show ?thesis by (simp add: attach_first [OF s1])
qed

lemma asleep_step:
  assumes "w_waiting (sleepers get st w)"
  shows "sem_asleep get put gap act tid w envs st =
    (case envs of [] \<Rightarrow> None | e # es \<Rightarrow> sem_asleep get put gap act tid w es (e st))"
  using assms by (auto simp: sem_asleep_def sleep_while_waiting.simps [of _ _ envs] split: list.split)

text \<open>Woken while a slot is free, it detaches, takes the slot and gives \<open>exclusive\<close> back.\<close>

lemma asleep_woken:
  assumes "get st = (s, h)" "\<not> w_waiting (h w)" "w_next (h w) = NULL" "w \<noteq> NULL"
    "s_waiters s = w" "ms (s_waiters_lock s) = 0" "ms (enter s) = 0" "ms (exclusive s) = 1" "cnt s < max_cnt s"
  shows "sem_asleep get put gap take_slot tid w envs st =
    Some (Inr (put (s\<lparr>s_waiters := NULL, cnt := cnt s + 1, exclusive := (exclusive s)\<lparr>ms := 0\<rparr>\<rparr>, h) st, envs))"
proof -
  let ?s = "s\<lparr>s_waiters := NULL\<rparr>"
  have "sleep_while_waiting (sleepers get) w envs st = Some (Inr (st, envs))"
    using assms(1,2) by (simp add: sleep_while_waiting.simps)
  then show ?thesis
    using slot_loop_ready [of "put (?s, h) st" ?s h gap tid w envs] detach_only [OF assms(1,6,5,4,3)] assms(7-9)
    by (simp add: sem_asleep_def)
qed

lemma signal_ready:
  assumes "get st = (s, h)" "ms (enter s) = 0" "0 < cnt s"
  shows "semaphore_signal_sleep get put envs st = Some (Inr (put (s\<lparr>cnt := cnt s - 1\<rparr>,
    wake_waiter (s_waiters s) h) st, envs, if s_waiters s \<noteq> NULL then Some (w_pid (h (s_waiters s))) else None))"
proof -
  have "s\<lparr>cnt := c, enter := \<lparr>ms = 0\<rparr>\<rparr> = s\<lparr>cnt := c\<rparr>" for c using light_eq [OF assms(2)] by (cases s) simp
  then show ?thesis using assms(3)
    by (subst semaphore_signal_sleep.simps)
      (simp add: wait_enter_free [OF assms(1,2)] release_enter_held Let_def wake_waiter_def)
qed

lemma signal_blocked:
  assumes "get st = (s, h)" "ms (enter s) = 0" "cnt s = 0"
  shows "semaphore_signal_sleep get put [] st = None"
  using assms(3) by (subst semaphore_signal_sleep.simps)
    (simp add: wait_enter_free [OF assms(1,2)] release_enter_held Let_def)

end

section \<open>Properties\<close>

text \<open>C30. A semaphore initialised with a count within its maximum counts correctly over every
  sequence of attempts to take and to give back a slot: no attempt traps, the final count is the
  initial count plus the successful attempts to take minus the successful ones to give back, and
  it never exceeds the maximum.\<close>

theorem semaphore_accounting:
  assumes "c \<le> mx"
  shows "\<exists>rs s'. sem_run semaphore_try semaphore_trysignal ops (SEMAPHORE_INITIALIZER mx c) = Inr (rs, s') \<and>
    length rs = length ops \<and> unat (cnt s') \<le> unat mx \<and>
    unat (cnt s') + successes False ops rs = unat c + successes True ops rs"
proof -
  let ?s = "SEMAPHORE_INITIALIZER mx c"
  have "cnt ?s = c" "max_cnt ?s = mx" by (simp_all add: SEMAPHORE_INITIALIZER_def)
  with sem.run_accounting [OF semaphore_initializer_ok [OF assms], of ops] sem.bound
  show ?thesis by fastforce
qed

theorem semaphore_accounting_witness:
  "(1 :: u32) \<le> 2 \<and> (\<exists>rs s'. sem_run semaphore_try semaphore_trysignal [True, True, False]
     (SEMAPHORE_INITIALIZER 2 1) = Inr (rs, s') \<and> length rs = 3 \<and> unat (cnt s') \<le> 2 \<and>
     unat (cnt s') + successes False [True, True, False] rs = 1 + successes True [True, True, False] rs)"
  using semaphore_accounting [of 1 2 "[True, True, False]"]
  by (simp add: numeral_3_eq_3 del: sem_run.simps)

text \<open>C31. \<open>semaphore_wait\<close> on a full semaphore blocks for as long as nobody signals it, and
  returns with the slot and with both locks free as soon as somebody does, however many times it
  had to yield before.\<close>

theorem semaphore_wait_blocks_until_signal:
  assumes "sem_ok s" "ms (exclusive s) = 0" "cnt s = max_cnt s" "0 < max_cnt s"
  shows "semaphore_wait (replicate n id) (s, h) = None \<and>
    semaphore_wait (replicate n id @ [someone_signals]) (s, h) = Some (Inr ((s, h), []))"
proof -
  let ?s = "s\<lparr>exclusive := (exclusive s)\<lparr>ms := 1\<rparr>\<rparr>"
  have e: "enter s = \<lparr>ms = 0\<rparr>" using assms(1) by (intro light_eq) (simp add: sem_ok_def)
  have w: "semaphore_wait envs (s, h) = sem_loop True take_slot envs (?s, h)" for envs
    using assms(2) by (simp add: semaphore_wait_def mutex_wait_free)
  have "sem_loop True take_slot (replicate n id) (?s, h) = None"
    using slot_loop_idle [of ?s n "[]" h] assms(3) e by (simp add: sem_loop_enter take_slot_def)
  moreover have "sem_loop True take_slot [] (?s\<lparr>cnt := cnt s - 1\<rparr>, h) = Some (Inr ((s, h), []))"
    using e assms by (simp add: sem_loop_enter take_slot_def release_enter_held
        release_exclusive_held word_less_nat_alt unat_sub_1)
  then have "sem_loop True take_slot [someone_signals] (?s, h) = Some (Inr ((s, h), []))"
    using e assms(3,4) by (subst sem_loop_enter) (simp_all add: take_slot_def someone_signals_eq)
  ultimately show ?thesis
    using slot_loop_idle [of ?s n "[someone_signals]" h] assms(3) e by (simp add: w)
qed

theorem semaphore_wait_blocks_until_signal_witness:
  "semaphore_wait (replicate 3 id) (SEMAPHORE_INITIALIZER 1 1, sample_heap) = None \<and>
   semaphore_wait (replicate 3 id @ [someone_signals]) (SEMAPHORE_INITIALIZER 1 1, sample_heap) =
     Some (Inr ((SEMAPHORE_INITIALIZER 1 1, sample_heap), []))"
  using semaphore_wait_blocks_until_signal [of "SEMAPHORE_INITIALIZER 1 1" 3 sample_heap]
    semaphore_initializer_ok [of 1 1]
  by (simp add: SEMAPHORE_INITIALIZER_def MUTEX_INITIALIZER_def)

text \<open>C32. Exclusive access excludes: after a successful \<open>semaphore_try_excl\<close> no slot can be taken
  and no second exclusive access succeeds until \<open>semaphore_signal_excl\<close>, which restores the state
  from before.\<close>

theorem semaphore_exclusive:
  assumes "sem_ok s" "semaphore_try_excl s = Inr (True, s1)"
  shows "semaphore_try s1 = Inr (False, s1) \<and> semaphore_try_excl s1 = Inr (False, s1) \<and>
    sem_ok s1 \<and> semaphore_signal_excl s1 = Inr s"
proof -
  from assms have s: "ms (exclusive s) = 0" "cnt s = 0"
    "s1 = s\<lparr>exclusive := (exclusive s)\<lparr>ms := 1\<rparr>\<rparr>"
    by (auto simp: semaphore_try_excl_eq split: if_splits)
  moreover from s assms(1) have "sem_ok s1" by (simp add: sem_ok_def)
  ultimately show ?thesis
    by (simp add: semaphore_try_eq semaphore_try_excl_eq semaphore_signal_excl_def
        release_exclusive_held)
qed

theorem semaphore_exclusive_witness:
  "\<exists>s1. semaphore_try_excl (SEMAPHORE_INITIALIZER 4 0) = Inr (True, s1) \<and>
     semaphore_try s1 = Inr (False, s1) \<and> semaphore_signal_excl s1 = Inr (SEMAPHORE_INITIALIZER 4 0)"
proof -
  have ok: "sem_ok (SEMAPHORE_INITIALIZER 4 0)" by (rule semaphore_initializer_ok) simp
  then obtain s1 where "semaphore_try_excl (SEMAPHORE_INITIALIZER 4 0) = Inr (True, s1)"
    by (simp add: semaphore_try_excl_eq SEMAPHORE_INITIALIZER_def MUTEX_INITIALIZER_def)
  with semaphore_exclusive [OF ok] show ?thesis by blast
qed

end
