(* ===== verification/Ring.thy ===== *)
theory Ring
  imports Bounded_Queue
begin

text \<open>
  The content of a ring: \<open>n\<close> bytes of a store of \<open>sz\<close> slots, from slot \<open>r\<close> on, wrapping at the end.
  The two steps of the drivers that use a ring (storing behind the content and moving the write
  position, loading at the read position and moving it) append to the content and take its head.
\<close>

definition ring_content :: "'a list \<Rightarrow> nat \<Rightarrow> nat \<Rightarrow> nat \<Rightarrow> 'a list" where
  "ring_content m sz r n = map (\<lambda>i. m ! ((r + i) mod sz)) [0..<n]"

lemma length_ring_content [simp]: "length (ring_content m sz r n) = n"
  by (simp add: ring_content_def)

lemma ring_content_0 [simp]: "ring_content m sz r 0 = []"
  by (simp add: ring_content_def)

text \<open>A step of the position: one further, back to zero at the end.\<close>

lemma ring_step: "p < sz \<Longrightarrow> (if p + 1 \<ge> sz then 0 else p + 1) = (p + 1) mod sz" for p :: nat
  by (auto simp: le_Suc_eq)

lemma ring_slot_distinct:
  fixes r :: nat
  assumes "i < n" "n < sz" "r < sz"
  shows "(r + i) mod sz \<noteq> (r + n) mod sz"
proof
  assume eq: "(r + i) mod sz = (r + n) mod sz"
  have "(r + n) - (r + i) = n - i" by simp
  moreover have "sz dvd (r + n) - (r + i)" using eq assms(1) by (metis mod_eq_dvd_iff_nat nat_add_left_cancel_le less_imp_le)
  ultimately show False using assms by (auto dest: dvd_imp_le)
qed

lemma ring_content_put:
  assumes "n < sz" "r < sz" "length m = sz"
  shows "ring_content (m[(r + n) mod sz := x]) sz r (Suc n) = ring_content m sz r n @ [x]"
  using assms ring_slot_distinct [OF _ assms(1,2), THEN not_sym] by (auto simp: ring_content_def)

lemma ring_content_get:
  assumes "r < sz"
  shows "ring_content m sz r (Suc n) = m ! r # ring_content m sz ((r + 1) mod sz) n"
proof -
  have "[0..<Suc n] = 0 # map Suc [0..<n]" by (metis map_Suc_upt upt_conv_Cons zero_less_Suc)
  with assms show ?thesis by (simp add: ring_content_def mod_simps ac_simps)
qed

end
