(* ===== verification/Pipe.thy ===== *)
theory Pipe
  imports Semaphore Ring
begin

text \<open>
  The pipe of \<open>kernel/io.c\<close> (\<open>pipe_read\<close>, \<open>pipe_write\<close>) over the \<open>pipe_t\<close> of \<open>include/vfs.h\<close>.  The
  pointers into the buffer are offsets.  The semaphore counts down from \<open>CONFIG_PIPE_BUFFER_SIZE\<close>:
  it is the number of bytes that may still be written.  The pointers wrap only past
  \<open>buf_end = buf + CONFIG_PIPE_BUFFER_SIZE\<close>, so the byte behind the buffer is part of the ring; it
  is part of the model as well, as the last element of \<open>buf\<close>.

  A call that blocks on the semaphore does so inside \<open>semaphore_waitsleep\<close> and
  \<open>semaphore_signal_sleep\<close>, which run on the state of the pipe: at each \<open>pause()\<close> or \<open>yield()\<close> the
  rest of the system acts on it, and with no action left the call has not returned.  Nothing is
  assumed to happen between the test of the count and the attachment of the reader's waiter.
\<close>

section \<open>Operations\<close>

definition CONFIG_PIPE_BUFFER_SIZE :: nat where "CONFIG_PIPE_BUFFER_SIZE = 1024"

record pipe_t =
  buf :: "u8 list"
  read_ptr :: nat
  write_ptr :: nat
  p_sem :: semaphore_t

type_synonym pipe_state = "pipe_t \<times> waiter_heap"
type_synonym pipe_act = "pipe_state \<Rightarrow> pipe_state"

definition pipe_sem :: "pipe_state \<Rightarrow> sem_state" where
  "pipe_sem st = (p_sem (fst st), snd st)"

definition put_pipe_sem :: "sem_state \<Rightarrow> pipe_state \<Rightarrow> pipe_state" where
  "put_pipe_sem x st = ((fst st)\<lparr>p_sem := fst x\<rparr>, snd x)"

definition pipe_wait :: "i32 \<Rightarrow> addr \<Rightarrow> pipe_act list \<Rightarrow> pipe_state \<Rightarrow>
    (pipe_state \<times> pipe_act list) run" where
  "pipe_wait tid w acts st = semaphore_waitsleep pipe_sem put_pipe_sem id tid w acts st"

definition pipe_signal :: "pipe_act list \<Rightarrow> pipe_state \<Rightarrow> (pipe_state \<times> pipe_act list) run" where
  "pipe_signal acts st =
     bindR (semaphore_signal_sleep pipe_sem put_pipe_sem acts st) (\<lambda>(st', es, _). Some (Inr (st', es)))"

text \<open>\<open>if (ptr > buf_end) ptr = buf\<close> after the pointer has moved on.\<close>

definition pipe_step :: "nat \<Rightarrow> nat" where
  "pipe_step p = (if p + 1 > CONFIG_PIPE_BUFFER_SIZE then 0 else p + 1)"

fun pipe_read_loop :: "i32 \<Rightarrow> addr \<Rightarrow> nat \<Rightarrow> pipe_act list \<Rightarrow> pipe_state \<Rightarrow>
    (u8 list \<times> pipe_state \<times> pipe_act list) run" where
  "pipe_read_loop tid w 0 acts st = Some (Inr ([], st, acts))"
| "pipe_read_loop tid w (Suc len) acts st =
     bindR (pipe_wait tid w acts st) (\<lambda>((p, h), es).
     bindR (Some (readE (buf p) (read_ptr p))) (\<lambda>b.
     bindR (pipe_read_loop tid w len es (p\<lparr>read_ptr := pipe_step (read_ptr p)\<rparr>, h))
       (\<lambda>(bs, st', es'). Some (Inr (b # bs, st', es')))))"

text \<open>\<open>data\<close> is \<open>node->data\<close>; the count returned is the number of bytes read.\<close>

definition pipe_read :: "i32 \<Rightarrow> addr \<Rightarrow> addr \<Rightarrow> u32 \<Rightarrow> pipe_act list \<Rightarrow> pipe_state \<Rightarrow>
    (u32 \<times> u8 list \<times> pipe_state \<times> pipe_act list) run" where
  "pipe_read tid w data len acts st =
     bindR (Some (assertE (data \<noteq> NULL))) (\<lambda>_.
     bindR (pipe_read_loop tid w (unat len) acts st) (\<lambda>(bs, st', es).
     Some (Inr (of_nat (length bs), bs, st', es))))"

fun pipe_write_loop :: "u8 list \<Rightarrow> pipe_act list \<Rightarrow> pipe_state \<Rightarrow> (pipe_state \<times> pipe_act list) run" where
  "pipe_write_loop [] acts st = Some (Inr (st, acts))"
| "pipe_write_loop (b # bs) acts st =
     bindR (Some (writeE (buf (fst st)) (write_ptr (fst st)) b)) (\<lambda>m.
     bindR (pipe_signal acts ((fst st)\<lparr>buf := m, write_ptr := pipe_step (write_ptr (fst st))\<rparr>, snd st))
       (\<lambda>(st', es). pipe_write_loop bs es st'))"

text \<open>
  The result says whether \<open>SIGPIPE\<close> was raised, which happens when the node has fewer than two
  references, and how many bytes were written.
\<close>

definition pipe_write :: "addr \<Rightarrow> addr \<Rightarrow> u32 \<Rightarrow> u8 list \<Rightarrow> pipe_act list \<Rightarrow> pipe_state \<Rightarrow>
    (bool \<times> u32 \<times> pipe_state \<times> pipe_act list) run" where
  "pipe_write node data refs bs acts st =
     bindR (Some (assertE (node \<noteq> NULL))) (\<lambda>_.
     bindR (Some (assertE (data \<noteq> NULL))) (\<lambda>_.
     bindR (pipe_write_loop bs acts st) (\<lambda>(st', es).
     Some (Inr (refs < 2, of_nat (length bs), st', es)))))"

section \<open>The queue a pipe holds\<close>

definition pipe_fill :: "pipe_state \<Rightarrow> nat" where
  "pipe_fill st = CONFIG_PIPE_BUFFER_SIZE - unat (cnt (p_sem (fst st)))"

definition pipe_content :: "pipe_state \<Rightarrow> u8 list" where
  "pipe_content st = ring_content (buf (fst st)) (CONFIG_PIPE_BUFFER_SIZE + 1) (read_ptr (fst st)) (pipe_fill st)"

definition pipe_ok :: "pipe_state \<Rightarrow> bool" where
  "pipe_ok st = (let p = fst st; s = p_sem p; sz = CONFIG_PIPE_BUFFER_SIZE + 1 in
     length (buf p) = sz \<and> read_ptr p < sz \<and>
     write_ptr p = (read_ptr p + pipe_fill st) mod sz \<and>
     unat (cnt s) \<le> CONFIG_PIPE_BUFFER_SIZE \<and> max_cnt s = of_nat CONFIG_PIPE_BUFFER_SIZE \<and>
     ms (enter s) = 0 \<and> ms (exclusive s) = 0 \<and> ms (s_waiters_lock s) = 0)"

definition pipe_put :: "u8 \<Rightarrow> pipe_state \<Rightarrow> pipe_state option" where
  "pipe_put b st = (case pipe_write_loop [b] [] st of Some (Inr (st', _)) \<Rightarrow> Some st' | _ \<Rightarrow> None)"

definition pipe_avail :: "pipe_state \<Rightarrow> bool" where
  "pipe_avail st = (cnt (p_sem (fst st)) < max_cnt (p_sem (fst st)))"

definition pipe_get :: "i32 \<Rightarrow> addr \<Rightarrow> pipe_state \<Rightarrow> u8 \<times> pipe_state" where
  "pipe_get tid w st = (case pipe_read_loop tid w 1 [] st of
     Some (Inr (b # _, st', _)) \<Rightarrow> (b, st') | _ \<Rightarrow> (0, st))"

section \<open>Lemmas\<close>

lemma pipe_step_mod: "p < CONFIG_PIPE_BUFFER_SIZE + 1 \<Longrightarrow> pipe_step p = (p + 1) mod (CONFIG_PIPE_BUFFER_SIZE + 1)"
  using ring_step [of p "CONFIG_PIPE_BUFFER_SIZE + 1"] by (auto simp: pipe_step_def)

interpretation pipe_place: semaphore_place pipe_sem put_pipe_sem
  by unfold_locales (auto simp: pipe_sem_def put_pipe_sem_def)

lemma pipe_sem_pair [simp]: "pipe_sem (p, h) = (p_sem p, h)"
  by (simp add: pipe_sem_def)

lemma put_pipe_sem_pair [simp]: "put_pipe_sem (s, h') (p, h) = (p\<lparr>p_sem := s\<rparr>, h')"
  by (simp add: put_pipe_sem_def)

lemma pipe_signal_ready:
  assumes "ms (enter (p_sem p)) = 0" "cnt (p_sem p) > 0"
  obtains h' where "pipe_signal acts (p, h) =
    Some (Inr ((p\<lparr>p_sem := (p_sem p)\<lparr>cnt := cnt (p_sem p) - 1\<rparr>\<rparr>, h'), acts))"
  using that pipe_place.signal_ready [OF pipe_sem_pair assms, of acts h] by (auto simp: pipe_signal_def)

lemma pipe_signal_blocked:
  "ms (enter (p_sem p)) = 0 \<Longrightarrow> cnt (p_sem p) = 0 \<Longrightarrow> pipe_signal [] (p, h) = None"
  by (simp add: pipe_signal_def pipe_place.signal_blocked)

lemma pipe_wait_ready:
  assumes "ms (enter (p_sem p)) = 0" "ms (exclusive (p_sem p)) = 0" "cnt (p_sem p) < max_cnt (p_sem p)"
  shows "pipe_wait tid w acts (p, h) =
    Some (Inr ((p\<lparr>p_sem := (p_sem p)\<lparr>cnt := cnt (p_sem p) + 1\<rparr>\<rparr>, h), acts))"
  using pipe_place.waitsleep_ready [OF pipe_sem_pair assms] by (simp add: pipe_wait_def)

lemma unat_pipe_size: "unat (of_nat CONFIG_PIPE_BUFFER_SIZE :: u32) = CONFIG_PIPE_BUFFER_SIZE"
  by (simp add: CONFIG_PIPE_BUFFER_SIZE_def)

lemma pipe_write_byte:
  assumes "pipe_ok st" "pipe_fill st < CONFIG_PIPE_BUFFER_SIZE"
  obtains st' where "pipe_write_loop (b # bs) acts st = pipe_write_loop bs acts st'"
    "pipe_ok st'" "pipe_content st' = pipe_content st @ [b]" "pipe_fill st' = Suc (pipe_fill st)"
    "buf (fst st') = (buf (fst st))[write_ptr (fst st) := b]"
    "write_ptr (fst st') = pipe_step (write_ptr (fst st))"
proof -
  obtain p h where st: "st = (p, h)" by (cases st)
  let ?sz = "CONFIG_PIPE_BUFFER_SIZE + 1" and ?s = "p_sem p"
  let ?p = "p\<lparr>buf := (buf p)[write_ptr p := b], write_ptr := pipe_step (write_ptr p)\<rparr>"
  note ok = assms(1) [unfolded pipe_ok_def Let_def st fst_conv]
  have c: "cnt ?s > 0" "unat (cnt ?s) = CONFIG_PIPE_BUFFER_SIZE - pipe_fill st"
    using assms(2) ok by (auto simp: pipe_fill_def st word_gt_0 simp flip: unat_eq_zero)
  obtain h' where sig: "pipe_signal acts (?p, h) =
      Some (Inr ((?p\<lparr>p_sem := ?s\<lparr>cnt := cnt ?s - 1\<rparr>\<rparr>, h'), acts))"
    using pipe_signal_ready [of ?p acts h] ok c(1) by auto
  define st' where "st' = (?p\<lparr>p_sem := ?s\<lparr>cnt := cnt ?s - 1\<rparr>\<rparr>, h')"
  have wp: "write_ptr p < ?sz" "write_ptr p = (read_ptr p + pipe_fill st) mod ?sz" using ok st by auto
  have "pipe_fill st' = CONFIG_PIPE_BUFFER_SIZE - (unat (cnt ?s) - 1)"
    using unat_sub_1 [OF c(1)] by (simp add: st'_def pipe_fill_def)
  then have fill: "pipe_fill st' = Suc (pipe_fill st)" using c(2) assms(2) by arith
  have "pipe_step (write_ptr p) = (read_ptr p + pipe_fill st') mod ?sz"
    using pipe_step_mod [OF wp(1)] wp(2) fill by (simp add: mod_simps)
  moreover have "unat (cnt ?s - 1) \<le> CONFIG_PIPE_BUFFER_SIZE" using c unat_sub_1 [OF c(1)] by simp
  ultimately have "pipe_ok st'" using ok by (simp add: pipe_ok_def Let_def st'_def)
  moreover have "pipe_content st' = pipe_content st @ [b]"
    using ring_content_put [of "pipe_fill st" ?sz "read_ptr p" "buf p" b] assms(2) ok wp(2) fill
    by (simp add: pipe_content_def st'_def st)
  moreover have "pipe_write_loop (b # bs) acts st = pipe_write_loop bs acts st'"
    using ok wp(1) sig by (simp add: st st'_def)
  ultimately show ?thesis using that fill by (simp add: st'_def st)
qed

lemma pipe_read_byte:
  assumes "pipe_ok st" "0 < pipe_fill st"
  obtains st' where "pipe_read_loop tid w (Suc n) acts st =
      bindR (pipe_read_loop tid w n acts st') (\<lambda>(bs, st'', es).
        Some (Inr (hd (pipe_content st) # bs, st'', es)))"
    "pipe_ok st'" "pipe_content st' = tl (pipe_content st)" "Suc (pipe_fill st') = pipe_fill st"
    "buf (fst st') = buf (fst st)" "write_ptr (fst st') = write_ptr (fst st)"
proof -
  obtain p h where st: "st = (p, h)" by (cases st)
  let ?sz = "CONFIG_PIPE_BUFFER_SIZE + 1" and ?s = "p_sem p"
  note ok = assms(1) [unfolded pipe_ok_def Let_def st fst_conv]
  have c: "unat (cnt ?s) = CONFIG_PIPE_BUFFER_SIZE - pipe_fill st" "pipe_fill st \<le> CONFIG_PIPE_BUFFER_SIZE"
    using ok by (auto simp: pipe_fill_def st)
  have lt: "cnt ?s < max_cnt ?s"
    using ok c assms(2) unat_pipe_size by (simp add: word_less_nat_alt)
  define p' where "p' = p\<lparr>p_sem := ?s\<lparr>cnt := cnt ?s + 1\<rparr>, read_ptr := pipe_step (read_ptr p)\<rparr>"
  have "unat (cnt ?s + 1) = Suc (unat (cnt ?s))" using lt by (rule unat_add_1)
  then have "pipe_fill (p', h) = CONFIG_PIPE_BUFFER_SIZE - Suc (unat (cnt ?s))"
    and le: "unat (cnt ?s + 1) \<le> CONFIG_PIPE_BUFFER_SIZE"
    using c assms(2) by (simp_all add: p'_def pipe_fill_def)
  then have fill: "Suc (pipe_fill (p', h)) = pipe_fill st" using c assms(2) by arith
  have rp: "pipe_step (read_ptr p) = (read_ptr p + 1) mod ?sz" using ok by (intro pipe_step_mod) simp
  have content: "pipe_content st = buf p ! read_ptr p # pipe_content (p', h)"
    using ring_content_get [of "read_ptr p" ?sz "buf p" "pipe_fill (p', h)"] ok fill
    by (simp add: pipe_content_def st p'_def rp)
  have "(pipe_step (read_ptr p) + pipe_fill (p', h)) mod ?sz = (read_ptr p + pipe_fill st) mod ?sz"
    unfolding rp fill [symmetric] by (simp add: mod_simps)
  then have "pipe_ok (p', h)"
    using ok le rp by (simp add: pipe_ok_def Let_def p'_def st)
  moreover have "pipe_read_loop tid w (Suc n) acts st =
      bindR (pipe_read_loop tid w n acts (p', h)) (\<lambda>(bs, st'', es).
        Some (Inr (hd (pipe_content st) # bs, st'', es)))"
    using ok lt content by (simp add: st pipe_wait_ready p'_def)
  ultimately show ?thesis using that [of "(p', h)"] content fill by (simp add: p'_def st)
qed

lemma pipe_fill_content: "length (pipe_content st) = pipe_fill st"
  by (simp add: pipe_content_def)

lemma pipe_write_full:
  assumes "pipe_ok st" "pipe_fill st = CONFIG_PIPE_BUFFER_SIZE"
  shows "pipe_write_loop (b # bs) [] st = None"
proof -
  obtain p h where st: "st = (p, h)" by (cases st)
  note ok = assms(1) [unfolded pipe_ok_def Let_def st fst_conv]
  have "unat (cnt (p_sem p)) = 0" using assms(2) ok by (simp add: pipe_fill_def st CONFIG_PIPE_BUFFER_SIZE_def)
  then have "cnt (p_sem p) = 0" by (simp add: unat_eq_zero)
  with ok show ?thesis by (simp add: st pipe_signal_blocked)
qed

interpretation pq: bounded_queue pipe_ok pipe_content CONFIG_PIPE_BUFFER_SIZE pipe_put pipe_avail
    "pipe_get tid w" for tid w
proof
  fix st x assume ok: "pipe_ok st"
  show bound: "length (pipe_content st) \<le> CONFIG_PIPE_BUFFER_SIZE"
    by (simp add: pipe_fill_content pipe_fill_def)
  show "pipe_avail st \<longleftrightarrow> pipe_content st \<noteq> []"
  proof -
    have "pipe_avail st \<longleftrightarrow> unat (cnt (p_sem (fst st))) < CONFIG_PIPE_BUFFER_SIZE"
      using ok unat_pipe_size by (simp add: pipe_avail_def pipe_ok_def Let_def word_less_nat_alt)
    then show ?thesis by (simp add: length_greater_0_conv [symmetric] pipe_fill_content pipe_fill_def
          del: length_greater_0_conv)
  qed
  show "\<exists>s'. pipe_put x st = Some s' \<and> pipe_ok s' \<and> pipe_content s' = pipe_content st @ [x]"
    if "length (pipe_content st) < CONFIG_PIPE_BUFFER_SIZE"
    by (rule pipe_write_byte [OF ok, of x "[]" "[]"])
      (use that in \<open>auto simp: pipe_fill_content pipe_put_def simp del: pipe_write_loop.simps(2)\<close>)
  show "pipe_put x st = None" if "CONFIG_PIPE_BUFFER_SIZE \<le> length (pipe_content st)"
    using that bound pipe_write_full [OF ok, of x "[]"]
    by (simp add: pipe_fill_content pipe_put_def del: pipe_write_loop.simps(2))
  show "\<exists>s'. pipe_get tid w st = (hd (pipe_content st), s') \<and> pipe_ok s' \<and>
      pipe_content s' = tl (pipe_content st)" if "pipe_content st \<noteq> []"
    by (rule pipe_read_byte [OF ok, of tid w 0 "[]"])
      (use that in \<open>auto simp: pipe_get_def pipe_fill_content [symmetric] simp del: pipe_read_loop.simps(2)\<close>)
qed

text \<open>Writing and reading whole blocks.\<close>

lemma pipe_write_block:
  assumes "pipe_ok st" "pipe_fill st + length bs \<le> CONFIG_PIPE_BUFFER_SIZE"
  obtains st' where "pipe_write_loop bs acts st = Some (Inr (st', acts))" "pipe_ok st'"
    "pipe_content st' = pipe_content st @ bs"
    "write_ptr (fst st') = (write_ptr (fst st) + length bs) mod (CONFIG_PIPE_BUFFER_SIZE + 1)"
proof -
  let ?sz = "CONFIG_PIPE_BUFFER_SIZE + 1"
  have "\<exists>st'. pipe_write_loop bs acts st = Some (Inr (st', acts)) \<and> pipe_ok st' \<and>
    pipe_content st' = pipe_content st @ bs \<and>
    write_ptr (fst st') = (write_ptr (fst st) + length bs) mod ?sz"
    using assms
  proof (induction bs arbitrary: st)
    case Nil
    then have "write_ptr (fst st) < ?sz" by (simp add: pipe_ok_def Let_def)
    with Nil show ?case by simp
  next
    case (Cons b bs)
    have room: "pipe_fill st < CONFIG_PIPE_BUFFER_SIZE" using Cons.prems(2) by simp
    obtain st1 where s1: "pipe_write_loop (b # bs) acts st = pipe_write_loop bs acts st1"
      "pipe_ok st1" "pipe_content st1 = pipe_content st @ [b]" "pipe_fill st1 = Suc (pipe_fill st)"
      "write_ptr (fst st1) = pipe_step (write_ptr (fst st))"
      by (rule pipe_write_byte [OF Cons.prems(1) room, of b bs acts])
    have "write_ptr (fst st) < ?sz" using Cons.prems(1) by (simp add: pipe_ok_def Let_def)
    then have "write_ptr (fst st1) = (write_ptr (fst st) + 1) mod ?sz" using s1(5) pipe_step_mod by simp
    moreover have "pipe_fill st1 + length bs \<le> CONFIG_PIPE_BUFFER_SIZE" using Cons.prems(2) s1(4) by simp
    from Cons.IH [OF s1(2) this] obtain st' where
      "pipe_write_loop bs acts st1 = Some (Inr (st', acts))" "pipe_ok st'"
      "pipe_content st' = pipe_content st1 @ bs"
      "write_ptr (fst st') = (write_ptr (fst st1) + length bs) mod ?sz" by blast
    ultimately show ?case using s1 by (intro exI [of _ st']) (simp add: mod_simps del: pipe_write_loop.simps)
  qed
  then show ?thesis using that by blast
qed

lemma pipe_read_block:
  assumes "pipe_ok st" "n \<le> pipe_fill st"
  obtains st' where "pipe_read_loop tid w n acts st = Some (Inr (take n (pipe_content st), st', acts))"
    "pipe_ok st'" "pipe_content st' = drop n (pipe_content st)"
    "buf (fst st') = buf (fst st)" "write_ptr (fst st') = write_ptr (fst st)"
proof -
  have "\<exists>st'. pipe_read_loop tid w n acts st = Some (Inr (take n (pipe_content st), st', acts)) \<and>
    pipe_ok st' \<and> pipe_content st' = drop n (pipe_content st) \<and>
    buf (fst st') = buf (fst st) \<and> write_ptr (fst st') = write_ptr (fst st)"
    using assms
  proof (induction n arbitrary: st)
    case (Suc n)
    have pos: "0 < pipe_fill st" using Suc.prems(2) by simp
    obtain st1 where s1: "pipe_read_loop tid w (Suc n) acts st =
        bindR (pipe_read_loop tid w n acts st1) (\<lambda>(bs, st'', es).
          Some (Inr (hd (pipe_content st) # bs, st'', es)))"
      "pipe_ok st1" "pipe_content st1 = tl (pipe_content st)" "Suc (pipe_fill st1) = pipe_fill st"
      "buf (fst st1) = buf (fst st)" "write_ptr (fst st1) = write_ptr (fst st)"
      by (rule pipe_read_byte [OF Suc.prems(1) pos, of tid w n acts])
    have ne: "pipe_content st \<noteq> []" using pos by (metis pipe_fill_content length_greater_0_conv)
    from Suc.IH [OF s1(2)] s1(4) Suc.prems(2) obtain st' where
      "pipe_read_loop tid w n acts st1 = Some (Inr (take n (pipe_content st1), st', acts))"
      "pipe_ok st'" "pipe_content st' = drop n (pipe_content st1)"
      "buf (fst st') = buf (fst st1)" "write_ptr (fst st') = write_ptr (fst st1)" by auto
    then show ?case
      using s1 ne by (intro exI [of _ st'])
        (simp add: take_Suc drop_Suc del: pipe_read_loop.simps)
  qed simp
  then show ?thesis using that by blast
qed

text \<open>The pipe as the call \<open>pipe\<close> sets it up, with the byte behind the buffer.\<close>

definition fresh_pipe :: "u8 list \<Rightarrow> pipe_t" where
  "fresh_pipe m = \<lparr>buf = m, read_ptr = 0, write_ptr = 0,
     p_sem = SEMAPHORE_INITIALIZER (of_nat CONFIG_PIPE_BUFFER_SIZE) (of_nat CONFIG_PIPE_BUFFER_SIZE)\<rparr>"

lemma fresh_pipe_ok:
  "length m = CONFIG_PIPE_BUFFER_SIZE + 1 \<Longrightarrow>
    pipe_ok (fresh_pipe m, h) \<and> pipe_content (fresh_pipe m, h) = []"
  using unat_pipe_size
  by (simp add: pipe_ok_def pipe_content_def pipe_fill_def fresh_pipe_def Let_def
      SEMAPHORE_INITIALIZER_def MUTEX_INITIALIZER_def LIGHT_MUTEX_INITIALIZER_def)

section \<open>Properties\<close>

text \<open>C6. A pipe is a first-in first-out queue of at most \<open>CONFIG_PIPE_BUFFER_SIZE\<close> bytes: for every
  sequence of one-byte writes and reads, where reads of an empty pipe and writes to a full one are
  not performed, the bytes read followed by the bytes still in the pipe are the bytes that were in
  it at the start followed by the bytes written.\<close>

theorem pipe_fifo:
  assumes "pipe_ok st"
  shows "\<exists>ins outs st'. queue_run pipe_put pipe_avail (pipe_get tid w) ops st = (ins, outs, st') \<and>
    pipe_ok st' \<and> outs @ pipe_content st' = pipe_content st @ ins \<and>
    length (pipe_content st') \<le> CONFIG_PIPE_BUFFER_SIZE"
  using assms by (rule pq.run_fifo)

theorem pipe_fifo_witness:
  "\<exists>ins outs st'. queue_run pipe_put pipe_avail (pipe_get 1 64) [Put 7, Put 8, Get]
      (fresh_pipe (replicate 1025 0), \<lambda>_. \<lparr>w_pid = 0, w_waiting = False, w_next = NULL\<rparr>) = (ins, outs, st') \<and>
    outs @ pipe_content st' = ins"
  using pipe_fifo [of "(fresh_pipe (replicate 1025 0), \<lambda>_. \<lparr>w_pid = 0, w_waiting = False, w_next = NULL\<rparr>)"
      1 64 "[Put 7, Put 8, Get]"]
    fresh_pipe_ok [of "replicate 1025 0" "\<lambda>_. \<lparr>w_pid = 0, w_waiting = False, w_next = NULL\<rparr>"]
  by (auto simp: CONFIG_PIPE_BUFFER_SIZE_def simp del: queue_run.simps)

text \<open>C12. Writing and reading back.  A block that fits into the free space of an empty pipe is
  written completely without blocking, the count returned is its length, \<open>SIGPIPE\<close> is raised exactly
  when the node has fewer than two references, and reading as many bytes returns the block and
  leaves the pipe empty.  One byte more than the pipe can hold blocks the writer until the rest of
  the system reads.\<close>

theorem pipe_write_read_roundtrip:
  assumes "pipe_ok st" "pipe_content st = []" "length bs \<le> CONFIG_PIPE_BUFFER_SIZE"
    and "node \<noteq> NULL" "data \<noteq> NULL"
  shows "\<exists>st' st''. pipe_write node data refs bs acts st =
      Some (Inr (refs < 2, of_nat (length bs), st', acts)) \<and>
    pipe_read tid w data (of_nat (length bs)) acts st' = Some (Inr (of_nat (length bs), bs, st'', acts)) \<and>
    pipe_ok st'' \<and> pipe_content st'' = [] \<and>
    (length bs = CONFIG_PIPE_BUFFER_SIZE \<longrightarrow> pipe_write node data refs (bs @ [b]) [] st = None)"
proof -
  have fill: "pipe_fill st = 0" using assms(2) pipe_fill_content [of st] by simp
  obtain st1 where w: "pipe_write_loop bs acts st = Some (Inr (st1, acts))" "pipe_ok st1"
    "pipe_content st1 = pipe_content st @ bs"
    by (rule pipe_write_block [OF assms(1), of bs acts]) (use fill assms(3) in auto)
  then have f1: "pipe_fill st1 = length bs" using assms(2) pipe_fill_content [of st1] by simp
  obtain st2 where r: "pipe_read_loop tid w (length bs) acts st1 =
      Some (Inr (take (length bs) (pipe_content st1), st2, acts))" "pipe_ok st2"
    "pipe_content st2 = drop (length bs) (pipe_content st1)"
    by (rule pipe_read_block [OF w(2), of "length bs" tid w acts]) (use f1 in auto)
  have len: "unat (of_nat (length bs) :: u32) = length bs"
    using assms(3) by (intro unat_of_nat_u32) (simp add: CONFIG_PIPE_BUFFER_SIZE_def)
  have "pipe_write node data refs (bs @ [b]) [] st = None" if full: "length bs = CONFIG_PIPE_BUFFER_SIZE"
  proof -
    obtain s where s: "pipe_write_loop bs [] st = Some (Inr (s, []))" "pipe_ok s" "pipe_content s = bs"
      by (rule pipe_write_block [OF assms(1), of bs "[]"]) (use fill assms(2,3) in auto)
    have app: "pipe_write_loop (xs @ ys) acts t = bindR (pipe_write_loop xs acts t) (\<lambda>(t', es). pipe_write_loop ys es t')"
      for xs ys acts t
    proof (induction xs arbitrary: acts t)
      case (Cons x xs)
      show ?case
      proof (cases "writeE (buf (fst t)) (write_ptr (fst t)) x")
        case (Inr m)
        then show ?thesis
          by (cases "pipe_signal acts ((fst t)\<lparr>buf := m, write_ptr := pipe_step (write_ptr (fst t))\<rparr>, snd t)")
            (auto simp: Cons.IH bindR_def split: sum.splits)
      qed simp
    qed simp
    have "pipe_fill s = CONFIG_PIPE_BUFFER_SIZE" using s(3) full pipe_fill_content [of s] by simp
    then show ?thesis using s pipe_write_full [OF s(2), of b "[]"] assms(4,5)
      by (simp add: pipe_write_def app del: pipe_write_loop.simps)
  qed
  with w r len assms(2,4,5) show ?thesis
    by (intro exI [of _ st1] exI [of _ st2]) (simp add: pipe_write_def pipe_read_def)
qed

theorem pipe_write_read_roundtrip_witness:
  "\<forall>h. \<exists>st' st''. pipe_write 64 128 2 [1, 2, 3] [] (fresh_pipe (replicate 1025 0), h) =
      Some (Inr (False, 3, st', [])) \<and>
    pipe_read 1 96 128 3 [] st' = Some (Inr (3, [1, 2, 3], st'', []))"
  using pipe_write_read_roundtrip [of "(fresh_pipe (replicate 1025 0), h)" "[1, 2, 3]" 64 128 2 "[]" 1 96 for h]
    fresh_pipe_ok [of "replicate 1025 0"]
  by (fastforce simp: CONFIG_PIPE_BUFFER_SIZE_def)

text \<open>C38. The ring is one byte longer than its buffer: once a pipe has carried
  \<open>CONFIG_PIPE_BUFFER_SIZE\<close> bytes, of which at least one has been read, the next byte written is
  stored at offset \<open>CONFIG_PIPE_BUFFER_SIZE\<close>, behind the memory allocated for it.\<close>

theorem pipe_write_overruns:
  assumes "length m = CONFIG_PIPE_BUFFER_SIZE + 1" "length bs = CONFIG_PIPE_BUFFER_SIZE"
  shows "\<exists>st1 b' st2 st3. pipe_write_loop bs [] (fresh_pipe m, h) = Some (Inr (st1, [])) \<and>
    pipe_read_loop tid w 1 [] st1 = Some (Inr ([b'], st2, [])) \<and>
    pipe_write_loop [b] [] st2 = Some (Inr (st3, [])) \<and> buf (fst st3) ! CONFIG_PIPE_BUFFER_SIZE = b"
proof -
  let ?st = "(fresh_pipe m, h)"
  have fresh: "pipe_ok ?st" "pipe_fill ?st = 0" "write_ptr (fst ?st) = 0"
    using fresh_pipe_ok [OF assms(1), of h] pipe_fill_content [of ?st] by (simp_all add: fresh_pipe_def)
  obtain st1 where s1: "pipe_write_loop bs [] ?st = Some (Inr (st1, []))" "pipe_ok st1"
    "pipe_content st1 = pipe_content ?st @ bs"
    "write_ptr (fst st1) = (write_ptr (fst ?st) + length bs) mod (CONFIG_PIPE_BUFFER_SIZE + 1)"
    by (rule pipe_write_block [OF fresh(1), of bs "[]"]) (use fresh(2) assms(2) in auto)
  have f1: "pipe_fill st1 = CONFIG_PIPE_BUFFER_SIZE"
    using s1(3) fresh(2) assms(2) pipe_fill_content [of st1] pipe_fill_content [of ?st] by simp
  then have "1 \<le> pipe_fill st1" by (simp add: CONFIG_PIPE_BUFFER_SIZE_def)
  then obtain st2 where s2: "pipe_read_loop tid w 1 [] st1 = Some (Inr (take 1 (pipe_content st1), st2, []))"
    "pipe_ok st2" "pipe_content st2 = drop 1 (pipe_content st1)" "write_ptr (fst st2) = write_ptr (fst st1)"
    using pipe_read_block [OF s1(2), of 1 tid w "[]"] by metis
  have wp: "write_ptr (fst st2) = CONFIG_PIPE_BUFFER_SIZE" using s1(4) s2(4) fresh(3) assms(2) by simp
  have room: "pipe_fill st2 < CONFIG_PIPE_BUFFER_SIZE"
    using s2(3) f1 pipe_fill_content [of st1] pipe_fill_content [of st2]
    by (simp add: CONFIG_PIPE_BUFFER_SIZE_def)
  obtain st3 where s3: "pipe_write_loop [b] [] st2 = pipe_write_loop [] [] st3"
    "buf (fst st3) = (buf (fst st2))[write_ptr (fst st2) := b]"
    using pipe_write_byte [OF s2(2) room, of b "[]" "[]"] by metis
  have "length (buf (fst st2)) = CONFIG_PIPE_BUFFER_SIZE + 1" using s2(2) by (simp add: pipe_ok_def Let_def)
  then have "buf (fst st3) ! CONFIG_PIPE_BUFFER_SIZE = b" using s3(2) wp by simp
  moreover obtain b' where "take 1 (pipe_content st1) = [b']"
    using f1 pipe_fill_content [of st1] by (cases "pipe_content st1") (auto simp: CONFIG_PIPE_BUFFER_SIZE_def)
  moreover have "pipe_write_loop [b] [] st2 = Some (Inr (st3, []))" using s3(1) by simp
  ultimately show ?thesis
    using s1(1) s2(1) by (intro exI [of _ st1] exI [of _ b'] exI [of _ st2] exI [of _ st3]) metis
qed

theorem pipe_write_overruns_witness:
  "\<forall>h. \<exists>st1 b' st2 st3. pipe_write_loop (replicate 1024 5) [] (fresh_pipe (replicate 1025 0), h) =
      Some (Inr (st1, [])) \<and>
    pipe_read_loop 1 64 1 [] st1 = Some (Inr ([b'], st2, [])) \<and>
    pipe_write_loop [255] [] st2 = Some (Inr (st3, [])) \<and> buf (fst st3) ! 1024 = 255"
  using pipe_write_overruns [of "replicate 1025 0" "replicate 1024 5" _ 1 64 255]
  unfolding CONFIG_PIPE_BUFFER_SIZE_def by simp

end
