(* ===== verification/Io.thy ===== *)
theory Io
  imports Vfs Pipe
begin

text \<open>
  The file descriptors and the file calls of \<open>kernel/io.c\<close>.  The state joins the virtual file
  system with the descriptor tables and the open file structures by address, the descriptor table
  and root of the current task, and the pipes by address.  Results of \<open>malloc\<close> are arguments,
  memory given to \<open>free\<close> is recorded.

  A call waits for the lock of the descriptor table while the rest of the system acts; the locks
  of nodes are taken with no such action, so a call that finds one held has not returned.
\<close>

section \<open>State\<close>

definition FD_MODE_READ :: u32 where "FD_MODE_READ = 1"
definition FD_MODE_WRITE :: u32 where "FD_MODE_WRITE = 2"
definition SEEK_SET :: i32 where "SEEK_SET = 1"
definition SEEK_CUR :: i32 where "SEEK_CUR = 2"
definition SEEK_END :: i32 where "SEEK_END = 3"

record file_t =
  f_fd :: i32
  f_offset :: u32
  f_mode :: u32
  f_node :: addr
  f_next :: addr

record desc_info_t =
  fd_next :: u32
  d_refs :: u32
  d_lock :: mutex_t
  file_descriptors :: addr

record io =
  fs :: vfs
  files :: "addr \<Rightarrow> file_t"
  tables :: "addr \<Rightarrow> desc_info_t"
  descriptors_info :: addr
  root_dir :: addr
  pipes :: "addr \<Rightarrow> pipe_t"
  freed_io :: "addr list"

type_synonym io_act = "io \<Rightarrow> io"

abbreviation table :: "io \<Rightarrow> desc_info_t" where
  "table s \<equiv> tables s (descriptors_info s)"

abbreviation next_file :: "io \<Rightarrow> addr \<Rightarrow> addr" where
  "next_file s a \<equiv> f_next (files s a)"

definition upd_table :: "addr \<Rightarrow> (desc_info_t \<Rightarrow> desc_info_t) \<Rightarrow> io \<Rightarrow> io" where
  "upd_table a f s = s\<lparr>tables := (tables s)(a := f (tables s a))\<rparr>"

definition upd_file :: "addr \<Rightarrow> (file_t \<Rightarrow> file_t) \<Rightarrow> io \<Rightarrow> io" where
  "upd_file a f s = s\<lparr>files := (files s)(a := f (files s a))\<rparr>"

definition set_errno :: "i32 \<Rightarrow> io \<Rightarrow> io" where
  "set_errno e s = s\<lparr>fs := (fs s)\<lparr>errno := e\<rparr>\<rparr>"

text \<open>A call of the virtual file system made by a call here.\<close>

definition in_fs :: "(vfs \<Rightarrow> ('a \<times> vfs) run) \<Rightarrow> io \<Rightarrow> ('a \<times> io) run" where
  "in_fs call s = bindR (call (fs s)) (\<lambda>(r, v). Some (Inr (r, s\<lparr>fs := v\<rparr>)))"

definition open_node :: "vfs_ops \<Rightarrow> string option \<Rightarrow> string option \<Rightarrow> io \<Rightarrow> (addr \<times> io) run" where
  "open_node d b path = in_fs (\<lambda>v. bindR (vfs_open d b [] path v) (\<lambda>(n, v', _). Some (Inr (n, v'))))"

definition close_node :: "addr \<Rightarrow> io \<Rightarrow> io run" where
  "close_node n s = bindR (in_fs (\<lambda>v. bindR (vfs_close n [] v) (\<lambda>(v', _). Some (Inr ((), v')))) s)
     (\<lambda>(_, s'). Some (Inr s'))"

definition ref_node :: "addr \<Rightarrow> io \<Rightarrow> io run" where
  "ref_node n s = bindR (in_fs (\<lambda>v. bindR (node_ref n [] v) (\<lambda>(v', _). Some (Inr ((), v')))) s)
     (\<lambda>(_, s'). Some (Inr s'))"

text \<open>The lock of the table of the current task; there is none when the task has no table.\<close>

definition table_wait :: "io_act list \<Rightarrow> io \<Rightarrow> (io \<times> io_act list) run" where
  "table_wait acts s =
     (if descriptors_info s = NULL then Some (Inl Null_Deref)
      else let a = descriptors_info s in
        mutex_wait (\<lambda>s. d_lock (tables s a)) (\<lambda>m. upd_table a (\<lambda>t. t\<lparr>d_lock := m\<rparr>)) acts s)"

definition table_release :: "io \<Rightarrow> io outcome" where
  "table_release s =
     bindE (mutex_release (d_lock (table s))) (\<lambda>m.
     Inr (upd_table (descriptors_info s) (\<lambda>t. t\<lparr>d_lock := m\<rparr>) s))"

section \<open>Descriptors\<close>

text \<open>\<open>assert(node != NULL); return true;\<close>\<close>

definition check_file_permissions :: "addr \<Rightarrow> u32 \<Rightarrow> bool outcome" where
  "check_file_permissions node msk = bindE (assertE (node \<noteq> NULL)) (\<lambda>_. Inr True)"

text \<open>
  \<open>while (f != NULL && f->fd != fd) { parent = f; f = f->next; }\<close>, giving \<open>parent\<close> and \<open>f\<close>.
\<close>

partial_function (option) seek_fd :: "(addr \<Rightarrow> file_t) \<Rightarrow> i32 \<Rightarrow> addr \<Rightarrow> addr \<Rightarrow> (addr \<times> addr) option" where
  "seek_fd h fd parent f =
     (if f \<noteq> NULL \<and> f_fd (h f) \<noteq> fd then seek_fd h fd f (f_next (h f)) else Some (parent, f))"

declare seek_fd.simps [simp del]

definition get_file_descriptor :: "i32 \<Rightarrow> io \<Rightarrow> addr option" where
  "get_file_descriptor fd s =
     (if descriptors_info s = NULL \<or> file_descriptors (table s) = NULL then Some NULL
      else map_option snd (seek_fd (files s) fd NULL (file_descriptors (table s))))"

text \<open>The calls that work on the descriptor, with the exit for an unknown one.\<close>

definition with_fd :: "i32 \<Rightarrow> io \<Rightarrow> (io \<Rightarrow> 'a run) \<Rightarrow> (addr \<Rightarrow> 'a run) \<Rightarrow> 'a run" where
  "with_fd fd s bad go =
     (case get_file_descriptor fd s of
        None \<Rightarrow> None
      | Some f \<Rightarrow> if f = NULL then bad s else go f)"

text \<open>Linking the new structure into the list; \<open>f\<close> is the result of \<open>malloc\<close>.\<close>

definition append_file :: "addr \<Rightarrow> io \<Rightarrow> io option" where
  "append_file f s =
     (if file_descriptors (table s) = NULL then
        Some (upd_table (descriptors_info s) (\<lambda>t. t\<lparr>file_descriptors := f\<rparr>) s)
      else case walk_last (next_file s) (file_descriptors (table s)) of
          None \<Rightarrow> None
        | Some tmp \<Rightarrow> Some (upd_file tmp (\<lambda>x. x\<lparr>f_next := f\<rparr>) s))"

definition number_file :: "addr \<Rightarrow> i32 \<Rightarrow> io \<Rightarrow> io" where
  "number_file f fd s =
     (if fd = - 1 then
        upd_file f (\<lambda>x. x\<lparr>f_fd := fd_next (table s)\<rparr>)
          (upd_table (descriptors_info s) (\<lambda>t. t\<lparr>fd_next := fd_next t + 1\<rparr>) s)
      else upd_file f (\<lambda>x. x\<lparr>f_fd := fd\<rparr>) s)"

definition create_file_descriptor :: "addr \<Rightarrow> addr \<Rightarrow> i32 \<Rightarrow> u32 \<Rightarrow> io_act list \<Rightarrow> io \<Rightarrow>
    (i32 \<times> io \<times> io_act list) run" where
  "create_file_descriptor f node fd mode acts s =
     (if f = NULL then Some (Inr (- 1, set_errno ENOMEM s, acts))
      else
        bindR (table_wait acts (upd_file f (\<lambda>x. x\<lparr>f_next := NULL, f_offset := 0, f_mode := mode,
          f_node := node\<rparr>) s)) (\<lambda>(s1, es).
        case append_file f (number_file f fd s1) of
          None \<Rightarrow> None
        | Some s2 \<Rightarrow> bindR (Some (table_release s2)) (\<lambda>s3. Some (Inr (f_fd (files s3 f), s3, es)))))"

text \<open>
  The loop of \<open>clone_descriptor_table\<close>: \<open>mallocs\<close> are the results of \<open>malloc\<close>, \<open>prev\<close> the structure whose
  \<open>next\<close> field is to be filled (\<open>NULL\<close> for the head of the table).  \<open>None\<close> in the result is the
  exit for lack of memory.
\<close>

definition link_clone :: "addr \<Rightarrow> addr \<Rightarrow> addr \<Rightarrow> io \<Rightarrow> io" where
  "link_clone tbl prev f s =
     (if prev = NULL then upd_table tbl (\<lambda>t. t\<lparr>file_descriptors := f\<rparr>) s
      else upd_file prev (\<lambda>x. x\<lparr>f_next := f\<rparr>) s)"

fun clone_loop :: "addr list \<Rightarrow> addr \<Rightarrow> addr \<Rightarrow> addr \<Rightarrow> io \<Rightarrow> (bool \<times> io) run" where
  "clone_loop mallocs tbl prev tmp s =
     (if tmp = NULL then Some (Inr (True, s))
      else case mallocs of
          [] \<Rightarrow> Some (Inr (False, s))
        | f # rest \<Rightarrow>
            if f = NULL then Some (Inr (False, s))
            else
              bindR (ref_node (f_node (files s tmp)) (upd_file f (\<lambda>_. files s tmp) s)) (\<lambda>s1.
              clone_loop rest tbl f (next_file s tmp)
                (link_clone tbl prev f (upd_file f (\<lambda>x. x\<lparr>f_next := NULL\<rparr>) s1))))"

declare clone_loop.simps [simp del]

text \<open>\<open>while (tmp != NULL) { f = tmp->next; free(tmp); tmp = f; }\<close>: the structures freed.\<close>

partial_function (option) free_files :: "(addr \<Rightarrow> addr) \<Rightarrow> addr list \<Rightarrow> addr \<Rightarrow> addr list option" where
  "free_files nxt fl tmp =
     (if tmp = NULL then Some fl else free_files nxt (fl @ [tmp]) (nxt tmp))"

declare free_files.simps [simp del]

definition clone_descriptor_table :: "addr \<Rightarrow> addr list \<Rightarrow> io_act list \<Rightarrow> io \<Rightarrow>
    (addr \<times> io \<times> io_act list) run" where
  "clone_descriptor_table tbl mallocs acts s =
     (if tbl = NULL then Some (Inr (NULL, set_errno ENOMEM s, acts))
      else
        bindR (table_wait acts (upd_table tbl (\<lambda>_. \<lparr>fd_next = 0, d_refs = 0,
          d_lock = MUTEX_INITIALIZER, file_descriptors = NULL\<rparr>) s)) (\<lambda>(s1, es).
        let s2 = upd_table tbl (\<lambda>t. t\<lparr>fd_next := fd_next (table s1)\<rparr>) s1 in
        bindR (clone_loop mallocs tbl NULL (file_descriptors (table s2)) s2) (\<lambda>(ok, s3).
        bindR (Some (table_release s3)) (\<lambda>s4.
        if ok then Some (Inr (tbl, s4, es))
        else case free_files (next_file s4) [] (file_descriptors (tables s4 tbl)) of
            None \<Rightarrow> None
          | Some fl \<Rightarrow>
              Some (Inr (NULL, set_errno ENOMEM (s4\<lparr>freed_io := freed_io s4 @ fl @ [tbl]\<rparr>), es))))))"

definition close :: "i32 \<Rightarrow> io_act list \<Rightarrow> io \<Rightarrow> (i32 \<times> io \<times> io_act list) run" where
  "close fd acts s =
     (if descriptors_info s = NULL \<or> file_descriptors (table s) = NULL then
        Some (Inr (- 1, set_errno EBADF s, acts))
      else
        let t = descriptors_info s in
        bindR (table_wait acts s) (\<lambda>(s1, es).
        case seek_fd (files s1) fd NULL (file_descriptors (tables s1 t)) of
          None \<Rightarrow> None
        | Some (parent, f) \<Rightarrow>
            if f = NULL then Some (Inl Null_Deref)
            else if f_node (files s1 f) = NULL then Some (Inl Assert_Failed)
            else
              let s2 = (if parent = NULL
                        then upd_table t (\<lambda>t. t\<lparr>file_descriptors := next_file s1 f\<rparr>) s1
                        else upd_file parent (\<lambda>x. x\<lparr>f_next := next_file s1 f\<rparr>) s1) in
              bindR (close_node (f_node (files s1 f)) s2) (\<lambda>s3.
              bindR (Some (table_release (s3\<lparr>freed_io := freed_io s3 @ [f]\<rparr>))) (\<lambda>s4.
              Some (Inr (0, s4, es))))))"

text \<open>
  Closing every descriptor of the list; the link is read before the descriptor is closed.
\<close>

partial_function (option) close_all :: "io_act list \<Rightarrow> addr \<Rightarrow> io \<Rightarrow> (io \<times> io_act list) run" where
  "close_all acts f s =
     (if f = NULL then Some (Inr (s, acts))
      else case close (f_fd (files s f)) acts s of
          None \<Rightarrow> None
        | Some (Inl t) \<Rightarrow> Some (Inl t)
        | Some (Inr r) \<Rightarrow> close_all (snd (snd r)) (next_file s f) (fst (snd r)))"

declare close_all.simps [simp del]

definition destroy_descriptor_table :: "io_act list \<Rightarrow> io \<Rightarrow> (io \<times> io_act list) run" where
  "destroy_descriptor_table acts s =
     bindR (table_wait acts s) (\<lambda>(s1, es).
     if d_refs (table s1) = 0 then
       bindR (Some (table_release s1)) (\<lambda>s2.
       bindR (close_all es (file_descriptors (table s2)) s2) (\<lambda>(s3, es').
       Some (Inr (s3\<lparr>freed_io := freed_io s3 @ [descriptors_info s3], descriptors_info := NULL\<rparr>, es'))))
     else
       bindR (Some (table_release (upd_table (descriptors_info s1) (\<lambda>t. t\<lparr>d_refs := d_refs t - 1\<rparr>) s1)))
         (\<lambda>s2. Some (Inr (s2, es))))"

section \<open>Calls on descriptors\<close>

definition bad_fd :: "i32 \<Rightarrow> io \<Rightarrow> (i32 \<times> io) run" where
  "bad_fd r s = Some (Inr (r, set_errno EBADF s))"

definition rewindfd :: "i32 \<Rightarrow> io \<Rightarrow> (i32 \<times> io) run" where
  "rewindfd fd s = with_fd fd s (bad_fd (- 1)) (\<lambda>f.
     Some (Inr (0, upd_file f (\<lambda>x. x\<lparr>f_offset := 0\<rparr>) s)))"

text \<open>
  \<open>f\<close> is the result of \<open>malloc\<close> for the new structure.  The old descriptor is read again after the new
  number has been closed, also when the two are the same and the structure has just been freed.
\<close>

definition dup2 :: "addr \<Rightarrow> i32 \<Rightarrow> i32 \<Rightarrow> io_act list \<Rightarrow> io \<Rightarrow> (i32 \<times> io \<times> io_act list) run" where
  "dup2 f oldfd newfd acts s =
     with_fd oldfd s (\<lambda>s. Some (Inr (- 1, set_errno EBADF s, acts))) (\<lambda>old.
     if f_node (files s old) = NULL then Some (Inl Assert_Failed)
     else
       bindR (case get_file_descriptor newfd s of
           None \<Rightarrow> None
         | Some new \<Rightarrow>
             if new \<noteq> NULL then
               bindR (close (f_fd (files s new)) acts s) (\<lambda>(_, s1, es). Some (Inr (s1, es)))
             else Some (Inr (s, acts))) (\<lambda>(s1, es).
       let node = f_node (files s1 old) in
       bindR (in_fs (\<lambda>v. bindR (node_wait node [] v) (\<lambda>(v', _).
         Some (Inr ((), upd_node node (\<lambda>n. n\<lparr>nd_refs := nd_refs n + 1\<rparr>) v')))) s1) (\<lambda>(_, s2).
       bindR (create_file_descriptor f node newfd (f_mode (files s2 old)) es s2) (\<lambda>(fd, s3, es').
       bindR (in_fs (\<lambda>v. bindR (Some (node_release node v)) (\<lambda>v'. Some (Inr ((), v')))) s3) (\<lambda>(_, s4).
       if fd <s 0 then Some (Inr (fd, s4, es'))
       else case get_file_descriptor fd s4 of
           None \<Rightarrow> None
         | Some new \<Rightarrow>
             if new = NULL then Some (Inl Assert_Failed)
             else Some (Inr (fd, upd_file new (\<lambda>x. x\<lparr>f_offset := f_offset (files s4 old)\<rparr>) s4, es')))))))"

definition dup :: "addr \<Rightarrow> i32 \<Rightarrow> io_act list \<Rightarrow> io \<Rightarrow> (i32 \<times> io \<times> io_act list) run" where
  "dup f oldfd acts s = dup2 f oldfd (- 1) acts s"

definition lseek :: "i32 \<Rightarrow> i32 \<Rightarrow> i32 \<Rightarrow> io \<Rightarrow> (i32 \<times> io) run" where
  "lseek fd offset whence s = with_fd fd s (bad_fd (- 1)) (\<lambda>f.
     let x = files s f;
         move = (\<lambda>off. Some (Inr (off, upd_file f (\<lambda>x. x\<lparr>f_offset := off\<rparr>) s))) in
     if whence = SEEK_SET then move offset
     else if whence = SEEK_CUR then move (f_offset x + offset)
     else if whence = SEEK_END then
       (if f_node x = NULL then Some (Inl Null_Deref)
        else move (nd_length (nodes (fs s) (f_node x)) + offset))
     else Some (Inr (- 1, set_errno EINVAL s)))"

text \<open>The operation of the node is tested before \<open>vfs_write\<close> is called.\<close>

definition write_fd :: "vfs_ops \<Rightarrow> i32 \<Rightarrow> u8 list option \<Rightarrow> u32 \<Rightarrow> io \<Rightarrow> (u32 \<times> io) run" where
  "write_fd d fd b count s = with_fd fd s (bad_fd (- 1)) (\<lambda>f.
     let x = files s f in
     if f_node x = NULL then Some (Inl Null_Deref)
     else if nd_write (nodes (fs s) (f_node x)) = NULL then Some (Inr (- 1, s))
     else bindR (in_fs (\<lambda>v. Some (vfs_write d (f_node x) (f_offset x) count b v)) s) (\<lambda>(n, s1).
       Some (Inr (n, upd_file f (\<lambda>x. x\<lparr>f_offset := f_offset x + n\<rparr>) s1))))"

text \<open>An unknown descriptor gives \<open>EBADF\<close> as the number of bytes read; \<open>errno\<close> is not set.\<close>

definition read_fd :: "vfs_ops \<Rightarrow> i32 \<Rightarrow> addr \<Rightarrow> u32 \<Rightarrow> io \<Rightarrow> (u32 \<times> u8 list \<times> io) run" where
  "read_fd d fd b count s =
     with_fd fd s (\<lambda>s. Some (Inr (EBADF, [], s))) (\<lambda>f.
     let x = files s f in
     bindR (Some (vfs_read d (f_node x) (f_offset x) count b (fs s))) (\<lambda>(n, bs, v).
     Some (Inr (n, bs, upd_file f (\<lambda>x. x\<lparr>f_offset := f_offset x + n\<rparr>) (s\<lparr>fs := v\<rparr>)))))"

definition fstat :: "vfs_ops \<Rightarrow> i32 \<Rightarrow> stat_t option \<Rightarrow> io \<Rightarrow> (i32 \<times> stat_t option \<times> io) run" where
  "fstat d fd b s =
     (case b of
        None \<Rightarrow> Some (Inr (- 1, None, set_errno EFAULT s))
      | Some sb \<Rightarrow> with_fd fd s (\<lambda>s. Some (Inr (- 1, b, set_errno EBADF s))) (\<lambda>f.
          let n = f_node (files s f) in
          if n = NULL then Some (Inl Assert_Failed)
          else bindR (in_fs (vfs_stat d None n None sb) s) (\<lambda>(r, s1).
            case r of None \<Rightarrow> Some (Inr (- 1, b, set_errno EFAULT s1))
            | Some st \<Rightarrow> Some (Inr (0, Some st, s1)))))"

definition ioctl :: "vfs_ops \<Rightarrow> i32 \<Rightarrow> u32 \<Rightarrow> u32 \<Rightarrow> io \<Rightarrow> (i32 \<times> io) run" where
  "ioctl d fd request arg s = with_fd fd s (bad_fd (- 1)) (\<lambda>f.
     let n = f_node (files s f) in
     if n = NULL then Some (Inl Assert_Failed)
     else in_fs (\<lambda>v. Some (vfs_ioctl d n request arg v)) s)"

definition readdir_r :: "vfs_ops \<Rightarrow> i32 \<Rightarrow> dirent option \<Rightarrow> io \<Rightarrow> (i32 \<times> dirent option \<times> io) run" where
  "readdir_r d dir entry s =
     with_fd dir s (\<lambda>s. Some (Inr (- 1, None, set_errno EBADF s))) (\<lambda>f.
     let x = files s f in
     bindR (in_fs (\<lambda>v. Some (vfs_readdir d (f_node x) (f_offset x) entry v))
       (upd_file f (\<lambda>x. x\<lparr>f_offset := f_offset x + 1\<rparr>) s)) (\<lambda>(r, s1). Some (Inr (0, r, s1))))"

definition closedir :: "i32 \<Rightarrow> io_act list \<Rightarrow> io \<Rightarrow> (i32 \<times> io \<times> io_act list) run" where
  "closedir dir acts s = close dir acts s"

section \<open>Calls on paths\<close>

definition too_long :: "string \<Rightarrow> bool outcome" where
  "too_long path = bindE (strlen path) (\<lambda>n. Inr (unat n > MAX_PATH))"

definition open_file :: "vfs_ops \<Rightarrow> string option \<Rightarrow> addr \<Rightarrow> string \<Rightarrow> io_act list \<Rightarrow> io \<Rightarrow>
    (i32 \<times> io \<times> io_act list) run" where
  "open_file d b f path acts s =
     bindR (Some (too_long path)) (\<lambda>long.
     if long then Some (Inr (- 1, set_errno ENAMETOOLONG s, acts))
     else bindR (open_node d b (Some path) s) (\<lambda>(node, s1).
       if node = NULL then Some (Inr (- 1, s1, acts))
       else bindR (Some (check_file_permissions node 0x2400)) (\<lambda>ok.
         if \<not> ok then bindR (close_node node s1) (\<lambda>s2. Some (Inr (- 1, set_errno EACCES s2, acts)))
         else create_file_descriptor f node (- 1) (FD_MODE_READ OR FD_MODE_WRITE) acts s1)))"

text \<open>The result is the address of the \<open>fd\<close> field, the first of the structure.\<close>

definition opendir :: "vfs_ops \<Rightarrow> string option \<Rightarrow> addr \<Rightarrow> string \<Rightarrow> io_act list \<Rightarrow> io \<Rightarrow>
    (addr \<times> io \<times> io_act list) run" where
  "opendir d b f path acts s =
     bindR (open_file d b f path acts s) (\<lambda>(fd, s1, es).
     if fd = - 1 then Some (Inr (NULL, s1, es))
     else case get_file_descriptor fd s1 of
         None \<Rightarrow> None
       | Some desc \<Rightarrow> if desc = NULL then Some (Inl Assert_Failed) else Some (Inr (desc, s1, es)))"

definition chown :: "vfs_ops \<Rightarrow> string option \<Rightarrow> string option \<Rightarrow> i32 \<Rightarrow> i32 \<Rightarrow> io \<Rightarrow> (i32 \<times> io) run" where
  "chown d b path uid gid s =
     bindR (open_node d b path s) (\<lambda>(node, s1).
     if node = NULL then Some (Inr (- 1, set_errno ENOENT s1))
     else bindR (close_node node (s1\<lparr>fs := upd_node node (\<lambda>n. n\<lparr>nd_uid := uid, nd_gid := gid\<rparr>) (fs s1)\<rparr>))
       (\<lambda>s2. Some (Inr (0, s2))))"

definition chroot :: "vfs_ops \<Rightarrow> string option \<Rightarrow> string option \<Rightarrow> io \<Rightarrow> (i32 \<times> io) run" where
  "chroot d b path s =
     bindR (open_node d b path s) (\<lambda>(node, s1).
     if node = NULL then Some (Inr (- 1, set_errno ENOENT s1))
     else bindR (if root_dir s1 \<noteq> NULL then close_node (root_dir s1) s1 else Some (Inr s1)) (\<lambda>s2.
       Some (Inr (0, s2\<lparr>root_dir := node\<rparr>))))"

definition chdir :: "vfs_ops \<Rightarrow> string option \<Rightarrow> string \<Rightarrow> io \<Rightarrow> (i32 \<times> io) run" where
  "chdir d b path s =
     bindR (Some (too_long path)) (\<lambda>long.
     if long then Some (Inr (- 1, set_errno ENAMETOOLONG s))
     else bindR (open_node d b (Some path) s) (\<lambda>(node, s1).
       if node = NULL then Some (Inr (- 1, set_errno ENOENT s1))
       else Some (Inr (0, s1\<lparr>fs := (fs s1)\<lparr>cwd := node\<rparr>\<rparr>))))"

text \<open>\<open>path\<close> is the uninitialised local array of \<open>MAX_PATH + 1\<close> characters.\<close>

definition getcwd :: "string \<Rightarrow> string option \<Rightarrow> u32 \<Rightarrow> io \<Rightarrow> (string option \<times> io) run" where
  "getcwd path b sz s =
     (case b of
        None \<Rightarrow> Some (Inr (None, set_errno EFAULT s))
      | Some out \<Rightarrow>
          if cwd (fs s) = NULL then
            bindR (Some (bindE (writeE out 0 (CHR ''/'')) (\<lambda>o1. writeE o1 1 NUL))) (\<lambda>o2.
            Some (Inr (Some o2, s)))
          else
            bindR (Some (vfs_get_path (cwd (fs s)) path (fs s))) (\<lambda>p.
            bindR (Some (strlen p)) (\<lambda>n.
            if n > sz then Some (Inr (None, set_errno ENAMETOOLONG s))
            else bindR (Some (assertE (n < sz))) (\<lambda>_.
              bindR (Some (strcpy out p)) (\<lambda>(o1, _). Some (Inr (Some o1, s)))))))"

definition stat :: "vfs_ops \<Rightarrow> string option \<Rightarrow> string \<Rightarrow> stat_t option \<Rightarrow> io \<Rightarrow>
    (i32 \<times> stat_t option \<times> io) run" where
  "stat d b path sb s =
     bindR (Some (too_long path)) (\<lambda>long.
     if long then Some (Inr (- 1, sb, set_errno ENAMETOOLONG s))
     else case sb of
         None \<Rightarrow> Some (Inr (- 1, sb, set_errno EFAULT s))
       | Some st \<Rightarrow> bindR (in_fs (vfs_stat d b NULL (Some path) st) s) (\<lambda>(r, s1).
           case r of None \<Rightarrow> Some (Inr (- 1, sb, set_errno EFAULT s1))
           | Some st' \<Rightarrow> Some (Inr (0, Some st', s1))))"

text \<open>
  \<open>node\<close>, \<open>p\<close>, \<open>b\<close>, \<open>f0\<close>, \<open>f1\<close> are the results of the five calls of \<open>malloc\<close> in order, \<open>m\<close> the bytes found at
  \<open>b\<close> with the one behind them, \<open>rd\<close> and \<open>wr\<close> the addresses of \<open>pipe_read\<close> and \<open>pipe_write\<close>.
\<close>

definition pipe :: "addr \<Rightarrow> addr \<Rightarrow> addr \<Rightarrow> addr \<Rightarrow> addr \<Rightarrow> u8 list \<Rightarrow> addr \<Rightarrow> addr \<Rightarrow>
    io_act list \<Rightarrow> io \<Rightarrow> (i32 \<times> i32 \<times> i32 \<times> io \<times> io_act list) run" where
  "pipe node p b f0 f1 m rd wr acts s =
     (if node = NULL then Some (Inr (- 1, 0, 0, set_errno ENOMEM s, acts))
      else if p = NULL then
        Some (Inr (- 1, 0, 0, set_errno ENOMEM (s\<lparr>freed_io := freed_io s @ [node]\<rparr>), acts))
      else if b = NULL then
        Some (Inr (- 1, 0, 0, set_errno ENOMEM (s\<lparr>freed_io := freed_io s @ [p, node]\<rparr>), acts))
      else
        let v = (fs s)\<lparr>pipe_buf := (pipe_buf (fs s))(p := b)\<rparr>;
            v' = upd_node node (\<lambda>_. (VFS_NODE_INITIALIZER (FS_PIPE OR FS_AUTOFREE))
              \<lparr>nd_read := rd, nd_write := wr, nd_data := p, nd_refs := 2\<rparr>) v;
            s1 = s\<lparr>fs := v', pipes := (pipes s)(p := fresh_pipe m)\<rparr> in
        bindR (create_file_descriptor f0 node (- 1) FD_MODE_READ acts s1) (\<lambda>(fd0, s2, es).
        bindR (create_file_descriptor f1 node (- 1) FD_MODE_WRITE es s2) (\<lambda>(fd1, s3, es').
        Some (Inr (0, fd0, fd1, s3, es')))))"

section \<open>Calls without an implementation\<close>

definition no_system_call :: "io \<Rightarrow> i32 \<times> io" where
  "no_system_call s = (- 1, set_errno ENOSYS s)"

definition sync :: "io \<Rightarrow> i32 \<times> io" where "sync s = no_system_call s"
definition fsync :: "i32 \<Rightarrow> io \<Rightarrow> i32 \<times> io" where "fsync fd s = sync s"
definition unlink :: "string \<Rightarrow> io \<Rightarrow> i32 \<times> io" where "unlink path s = no_system_call s"
definition link :: "string \<Rightarrow> string \<Rightarrow> io \<Rightarrow> i32 \<times> io" where "link old new s = no_system_call s"
definition kfcntl :: "i32 \<Rightarrow> i32 \<Rightarrow> io \<Rightarrow> i32 \<times> io" where "kfcntl fd cmd s = no_system_call s"
definition fcntl :: "i32 \<Rightarrow> i32 \<Rightarrow> io \<Rightarrow> i32 \<times> io" where "fcntl fd cmd s = kfcntl fd cmd s"
definition readlink :: "string \<Rightarrow> io \<Rightarrow> i32 \<times> io" where "readlink path s = no_system_call s"
definition lstat :: "string \<Rightarrow> io \<Rightarrow> i32 \<times> io" where "lstat path s = no_system_call s"
definition mkdir :: "string \<Rightarrow> io \<Rightarrow> i32 \<times> io" where "mkdir path s = no_system_call s"
definition isatty :: "i32 \<Rightarrow> i32" where "isatty fd = 0"

section \<open>The descriptor list\<close>

definition set_next_file :: "io \<Rightarrow> addr \<Rightarrow> addr \<Rightarrow> io" where
  "set_next_file s a b = upd_file a (\<lambda>x. x\<lparr>f_next := b\<rparr>) s"

lemma upd_file_simps [simp]:
  "files (upd_file a f s) = (files s)(a := f (files s a))" "tables (upd_file a f s) = tables s"
  "descriptors_info (upd_file a f s) = descriptors_info s" "fs (upd_file a f s) = fs s"
  "freed_io (upd_file a f s) = freed_io s"
  by (simp_all add: upd_file_def)

lemma upd_table_simps [simp]:
  "tables (upd_table a g s) = (tables s)(a := g (tables s a))" "files (upd_table a g s) = files s"
  "descriptors_info (upd_table a g s) = descriptors_info s" "fs (upd_table a g s) = fs s"
  "freed_io (upd_table a g s) = freed_io s"
  by (simp_all add: upd_table_def)

interpretation file_cells: linked_cells next_file set_next_file
  by unfold_locales (auto simp: set_next_file_def)

text \<open>The open descriptors of the current task in order, with the lock of the table free.\<close>

definition fd_list :: "io \<Rightarrow> addr list \<Rightarrow> bool" where
  "fd_list s xs = (descriptors_info s \<noteq> NULL \<and> ms (d_lock (table s)) = 0 \<and>
     chain (next_file s) (file_descriptors (table s)) xs NULL)"

text \<open>Numbers are distinct, not negative and below the next number to be given out.\<close>

definition fd_ok :: "io \<Rightarrow> addr list \<Rightarrow> bool" where
  "fd_ok s xs = (fd_list s xs \<and> distinct (map (\<lambda>x. f_fd (files s x)) xs) \<and>
     (\<forall>x \<in> set xs. f_fd (files s x) < fd_next (table s)) \<and> fd_next (table s) < 0x7FFFFFFF)"

lemma table_wait_free:
  assumes "descriptors_info s \<noteq> NULL" "ms (d_lock (table s)) = 0"
  shows "table_wait acts s =
    Some (Inr (upd_table (descriptors_info s) (\<lambda>t. t\<lparr>d_lock := (d_lock t)\<lparr>ms := 1\<rparr>\<rparr>) s, acts))"
  using assms by (simp add: table_wait_def Let_def mutex_wait_free upd_table_def)

lemma table_release_held:
  assumes "ms (d_lock (table s)) = 1"
  shows "table_release s = Inr (upd_table (descriptors_info s) (\<lambda>t. t\<lparr>d_lock := (d_lock t)\<lparr>ms := 0\<rparr>\<rparr>) s)"
  using assms by (simp add: table_release_def mutex_release_held upd_table_def)

lemma append_file_list:
  assumes "chain (next_file s) (file_descriptors (table s)) xs NULL" "f \<noteq> NULL" "f \<notin> set xs"
    "next_file s f = NULL"
  obtains s' where "append_file f s = Some s'"
    "chain (next_file s') (file_descriptors (table s')) (xs @ [f]) NULL"
    "s' = (if xs = [] then upd_table (descriptors_info s) (\<lambda>t. t\<lparr>file_descriptors := f\<rparr>) s
       else set_next_file s (last xs) f)"
proof (cases xs rule: rev_cases)
  case Nil
  with assms show ?thesis by (intro that) (auto simp: append_file_def)
next
  case (snoc ys y)
  have c: "chain (next_file s) (file_descriptors (table s)) (ys @ [y]) NULL" using assms(1) snoc by simp
  have "f \<notin> set (ys @ [y])" using assms(3) snoc by simp
  note app = file_cells.append_last [OF c assms(2) this assms(4)]
  have ne: "file_descriptors (table s) \<noteq> NULL" using c by auto
  have "table (set_next_file s y f) = table s" by (simp add: set_next_file_def)
  with app ne snoc show ?thesis
    by (intro that) (simp_all add: append_file_def set_next_file_def [symmetric] del: chain_append)
qed

lemma seek_fd_chain:
  assumes "chain (\<lambda>a. f_next (h a)) p us x" "\<And>u. u \<in> set us \<Longrightarrow> f_fd (h u) \<noteq> fd"
    "x = NULL \<or> f_fd (h x) = fd"
  shows "seek_fd h fd par p = Some (last (par # us), x)"
  using assms
proof (induction us arbitrary: p par)
  case Nil
  then show ?case by (subst seek_fd.simps) auto
next
  case (Cons y us)
  then show ?case by (subst seek_fd.simps) auto
qed

lemma get_file_descriptor_find:
  assumes "fd_list s xs"
  shows "get_file_descriptor fd s =
    Some (case find (\<lambda>x. f_fd (files s x) = fd) xs of None \<Rightarrow> NULL | Some x \<Rightarrow> x)"
proof (cases "find (\<lambda>x. f_fd (files s x) = fd) xs")
  case None
  then have "seek_fd (files s) fd NULL (file_descriptors (table s)) = Some (last (NULL # xs), NULL)"
    using assms by (intro seek_fd_chain) (auto simp: fd_list_def find_None_iff)
  with None assms show ?thesis by (auto simp: get_file_descriptor_def fd_list_def)
next
  case (Some x)
  then obtain us vs where xs: "xs = us @ x # vs" "f_fd (files s x) = fd" "\<forall>u \<in> set us. f_fd (files s u) \<noteq> fd"
    using find_first_split [OF Some] by auto
  then have "seek_fd (files s) fd NULL (file_descriptors (table s)) = Some (last (NULL # us), x)"
    using assms by (intro seek_fd_chain) (auto simp: fd_list_def)
  moreover have "file_descriptors (table s) \<noteq> NULL" using assms xs by (auto simp: fd_list_def)
  ultimately show ?thesis using Some assms by (simp add: get_file_descriptor_def fd_list_def)
qed

text \<open>The effect of creating a descriptor: the list grows by one, at its end.\<close>

lemma create_file_descriptor_list:
  assumes "fd_list s xs" "f \<noteq> NULL" "f \<notin> set xs"
    and num: "num = (if fd = - 1 then fd_next (table s) else fd)"
  obtains s' where "create_file_descriptor f node fd mode acts s = Some (Inr (num, s', acts))"
    "fd_list s' (xs @ [f])" "descriptors_info s' = descriptors_info s" "fs s' = fs s"
    "files s' f = \<lparr>f_fd = num, f_offset = 0, f_mode = mode, f_node = node, f_next = NULL\<rparr>"
    "\<And>x. x \<in> set xs \<Longrightarrow> \<exists>b. files s' x = (files s x)\<lparr>f_next := b\<rparr>"
    "\<And>x. x \<notin> set (xs @ [f]) \<Longrightarrow> files s' x = files s x"
    "fd_next (table s') = (if fd = - 1 then fd_next (table s) + 1 else fd_next (table s))"
proof -
  let ?t = "descriptors_info s"
  define s0 where "s0 = upd_file f (\<lambda>x. x\<lparr>f_next := NULL, f_offset := 0, f_mode := mode, f_node := node\<rparr>) s"
  define s1 where "s1 = upd_table ?t (\<lambda>t. t\<lparr>d_lock := (d_lock t)\<lparr>ms := 1\<rparr>\<rparr>) s0"
  define s2 where "s2 = number_file f fd s1"
  have w: "table_wait acts s0 = Some (Inr (s1, acts))"
    using table_wait_free [of s0 acts] assms(1) by (simp add: fd_list_def s0_def s1_def)
  have s2: "descriptors_info s2 = ?t" "fs s2 = fs s" "file_descriptors (table s2) = file_descriptors (table s)"
    "ms (d_lock (table s2)) = 1"
    "fd_next (table s2) = (if fd = - 1 then fd_next (table s) + 1 else fd_next (table s))"
    by (auto simp: s2_def number_file_def s1_def s0_def)
  have f2: "files s2 = (files s)(f := \<lparr>f_fd = num, f_offset = 0, f_mode = mode, f_node = node, f_next = NULL\<rparr>)"
    by (auto simp: s2_def number_file_def s1_def s0_def num fun_eq_iff)
  have "chain (next_file s2) p xs NULL \<longleftrightarrow> chain (next_file s) p xs NULL" for p
    by (rule chain_cong) (use assms(3) in \<open>auto simp: f2\<close>)
  then have "chain (next_file s2) (file_descriptors (table s2)) xs NULL"
    using assms(1) s2(3) by (simp add: fd_list_def)
  then obtain s3 where s3: "append_file f s2 = Some s3"
    "chain (next_file s3) (file_descriptors (table s3)) (xs @ [f]) NULL"
    "s3 = (if xs = [] then upd_table (descriptors_info s2) (\<lambda>t. t\<lparr>file_descriptors := f\<rparr>) s2
       else set_next_file s2 (last xs) f)"
    using append_file_list [of s2 xs f] assms(2,3) by (auto simp: f2)
  define s4 where "s4 = upd_table ?t (\<lambda>t. t\<lparr>d_lock := (d_lock t)\<lparr>ms := 0\<rparr>\<rparr>) s3"
  have t3: "descriptors_info s3 = ?t" "ms (d_lock (table s3)) = 1" "fs s3 = fs s"
    "fd_next (table s3) = fd_next (table s2)"
    using s2 by (auto simp: s3(3) set_next_file_def)
  have rel: "table_release s3 = Inr s4" using table_release_held [OF t3(2)] t3(1) by (simp add: s4_def)
  have lx: "xs \<noteq> [] \<Longrightarrow> last xs \<noteq> f" using assms(3) by (metis last_in_set)
  have f4: "files s4 = (if xs = [] then files s2 else (files s2)(last xs := (files s2 (last xs))\<lparr>f_next := f\<rparr>))"
    by (simp add: s4_def s3(3) set_next_file_def)
  have ff: "files s4 f = \<lparr>f_fd = num, f_offset = 0, f_mode = mode, f_node = node, f_next = NULL\<rparr>"
    using lx by (auto simp: f4 f2)
  have "create_file_descriptor f node fd mode acts s = Some (Inr (num, s4, acts))"
    using assms(2) w s3(1) rel ff
    by (simp add: create_file_descriptor_def s0_def [symmetric] s2_def)
  moreover have "fd_list s4 (xs @ [f])"
    using s3(2) t3(1) assms(1) by (simp add: fd_list_def s4_def del: chain_append)
  moreover have "\<exists>b. files s4 x = (files s x)\<lparr>f_next := b\<rparr>" if "x \<in> set xs" for x
  proof -
    have "x \<noteq> f" using that assms(3) by auto
    then have "files s4 x = (if x = last xs then (files s x)\<lparr>f_next := f\<rparr> else files s x)"
      using that by (auto simp: f4 f2)
    moreover have "files s x = (files s x)\<lparr>f_next := f_next (files s x)\<rparr>" by simp
    ultimately show ?thesis by metis
  qed
  moreover have "files s4 x = files s x" if "x \<notin> set (xs @ [f])" for x
    using that last_in_set [of xs] by (auto simp: f4 f2)
  ultimately show ?thesis
    using that [of s4] ff t3 s2(5) by (simp add: s4_def)
qed

text \<open>The effect of closing: the list loses the descriptor, its node a reference.\<close>

lemma close_node_eq:
  assumes "n \<noteq> NULL" "ms (nd_lock (nodes (fs s) n)) = 0"
    "nd_refs (nodes (fs s) n) \<noteq> 1 \<or> nd_flags (nodes (fs s) n) AND FS_AUTOFREE = 0"
  shows "close_node n s =
    Some (Inr (s\<lparr>fs := upd_node n (\<lambda>x. x\<lparr>nd_refs := nd_refs x - 1\<rparr>) (fs s)\<rparr>))"
proof -
  let ?v = "fs s"
  have lock: "upd_node n (\<lambda>x. x\<lparr>nd_lock := (nd_lock x)\<lparr>ms := 0\<rparr>\<rparr>) (upd_node n (\<lambda>x. x\<lparr>nd_refs := nd_refs x - 1\<rparr>)
      (upd_node n (\<lambda>x. x\<lparr>nd_lock := (nd_lock x)\<lparr>ms := 1\<rparr>\<rparr>) ?v)) = upd_node n (\<lambda>x. x\<lparr>nd_refs := nd_refs x - 1\<rparr>) ?v"
    using assms(2) by (simp add: upd_node_def)
  have "vfs_close n [] ?v = Some (Inr (upd_node n (\<lambda>x. x\<lparr>nd_refs := nd_refs x - 1\<rparr>) ?v, []))"
    using assms by (auto simp: vfs_close_def node_wait_free node_release_held Let_def lock)
  then show ?thesis by (simp add: close_node_def in_fs_def)
qed

lemma close_list:
  assumes "fd_list s (us @ f # vs)" "f_fd (files s f) = fd" "\<And>u. u \<in> set us \<Longrightarrow> f_fd (files s u) \<noteq> fd"
    and n: "f_node (files s f) = n" "n \<noteq> NULL" "ms (nd_lock (nodes (fs s) n)) = 0"
      "nd_refs (nodes (fs s) n) \<noteq> 1 \<or> nd_flags (nodes (fs s) n) AND FS_AUTOFREE = 0"
  obtains s' where "close fd acts s = Some (Inr (0, s', acts))" "fd_list s' (us @ vs)"
    "descriptors_info s' = descriptors_info s"
    "fs s' = upd_node n (\<lambda>x. x\<lparr>nd_refs := nd_refs x - 1\<rparr>) (fs s)"
    "freed_io s' = freed_io s @ [f]" "fd_next (table s') = fd_next (table s)"
    "\<And>x. \<exists>b. files s' x = (files s x)\<lparr>f_next := b\<rparr>"
proof -
  let ?t = "descriptors_info s"
  have c: "chain (next_file s) (file_descriptors (table s)) (us @ f # vs) NULL" "?t \<noteq> NULL"
    "ms (d_lock (table s)) = 0" using assms(1) by (auto simp: fd_list_def)
  have d: "distinct (us @ f # vs)" "NULL \<notin> set (us @ f # vs)"
    using chain_distinct [OF c(1)] chain_cells [OF c(1)] by auto
  define s1 where "s1 = upd_table ?t (\<lambda>t. t\<lparr>d_lock := (d_lock t)\<lparr>ms := 1\<rparr>\<rparr>) s"
  have w: "table_wait acts s = Some (Inr (s1, acts))" using c(2,3) by (simp add: table_wait_free s1_def)
  have seek: "seek_fd (files s1) fd NULL (file_descriptors (tables s1 ?t)) = Some (last (NULL # us), f)"
    using c(1) assms(2,3) by (intro seek_fd_chain) (auto simp: s1_def)
  have sib: "last (NULL # us) = NULL \<longleftrightarrow> us = []" using d(2) by (cases us rule: rev_cases) auto
  define s2 where "s2 = (if us = [] then upd_table ?t (\<lambda>t. t\<lparr>file_descriptors := next_file s f\<rparr>) s1
    else upd_file (last us) (\<lambda>x. x\<lparr>f_next := next_file s f\<rparr>) s1)"
  define s3 where "s3 = s2\<lparr>fs := upd_node n (\<lambda>x. x\<lparr>nd_refs := nd_refs x - 1\<rparr>) (fs s2), freed_io := freed_io s2 @ [f]\<rparr>"
  define s4 where "s4 = upd_table ?t (\<lambda>t. t\<lparr>d_lock := (d_lock t)\<lparr>ms := 0\<rparr>\<rparr>) s3"
  have fs2: "fs s2 = fs s" "descriptors_info s2 = ?t" by (auto simp: s2_def s1_def)
  have cl: "close_node n s2 = Some (Inr (s2\<lparr>fs := upd_node n (\<lambda>x. x\<lparr>nd_refs := nd_refs x - 1\<rparr>) (fs s2)\<rparr>))"
    using n by (intro close_node_eq) (simp_all add: fs2)
  have "ms (d_lock (table s3)) = 1" "descriptors_info s3 = ?t" by (auto simp: s3_def s2_def s1_def)
  then have rel: "table_release s3 = Inr s4" by (simp add: table_release_held s4_def)
  have s1f: "files s1 = files s" "f \<noteq> NULL" "file_descriptors (table s) \<noteq> NULL"
    using d(2) c(1) by (auto simp: s1_def)
  have ret: "close fd acts s = Some (Inr (0, s4, acts))"
  proof -
    have "close fd acts s = bindR (close_node n s2) (\<lambda>s3.
        bindR (Some (table_release (s3\<lparr>freed_io := freed_io s3 @ [f]\<rparr>))) (\<lambda>s4. Some (Inr (0, s4, acts))))"
      using c(2) s1f w seek sib n(1,2) by (auto simp: close_def Let_def s2_def)
    then show ?thesis using cl rel by (simp add: s3_def)
  qed
  have files4: "files s4 = (if us = [] then files s else (files s)(last us := (files s (last us))\<lparr>f_next := next_file s f\<rparr>))"
    by (simp add: s4_def s3_def s2_def s1_def)
  have chain4: "chain (next_file s4) (file_descriptors (table s4)) (us @ vs) NULL"
  proof (cases us rule: rev_cases)
    case Nil
    then show ?thesis using c(1) by (simp add: s4_def s3_def s2_def s1_def)
  next
    case (snoc ws y)
    then have "chain (next_file s) (file_descriptors (table s)) (ws @ y # f # vs) NULL" using c(1) by simp
    then have "chain ((next_file s)(y := next_file s f)) (file_descriptors (table s)) (ws @ y # vs) NULL"
      by (rule chain_unlink)
    moreover have "next_file s4 = (next_file s)(y := next_file s f)" using snoc by (auto simp: files4)
    moreover have "file_descriptors (table s4) = file_descriptors (table s)"
      using snoc by (simp add: s4_def s3_def s2_def s1_def)
    ultimately show ?thesis using snoc by (simp del: chain_append)
  qed
  have "\<exists>b. files s4 x = (files s x)\<lparr>f_next := b\<rparr>" for x
  proof (cases "us = [] \<or> x \<noteq> last us")
    case True
    then have "files s4 x = (files s x)\<lparr>f_next := next_file s x\<rparr>" by (auto simp: files4)
    then show ?thesis ..
  next
    case False
    then have "files s4 x = (files s x)\<lparr>f_next := next_file s f\<rparr>" by (auto simp: files4)
    then show ?thesis ..
  qed
  moreover have "descriptors_info s4 = ?t" "ms (d_lock (table s4)) = 0" "freed_io s4 = freed_io s @ [f]"
    "fs s4 = upd_node n (\<lambda>x. x\<lparr>nd_refs := nd_refs x - 1\<rparr>) (fs s)" "fd_next (table s4) = fd_next (table s)"
    by (simp_all add: s4_def s3_def s2_def s1_def)
  ultimately show ?thesis using that [of s4] ret chain4 c(2) by (simp add: fd_list_def del: chain_append)
qed

lemma find_same_fd:
  assumes "\<And>x. x \<in> set xs \<Longrightarrow> \<exists>b. files s' x = (files s x)\<lparr>f_next := b\<rparr>"
  shows "find (\<lambda>x. f_fd (files s' x) = k) xs = find (\<lambda>x. f_fd (files s x) = k) xs"
  using assms by (intro find_cong) fastforce+

lemma map_same_fd:
  assumes "\<And>x. x \<in> set xs \<Longrightarrow> \<exists>b. files s' x = (files s x)\<lparr>f_next := b\<rparr>"
  shows "map (\<lambda>x. f_fd (files s' x)) xs = map (\<lambda>x. f_fd (files s x)) xs"
  using assms by (intro map_cong) fastforce+

section \<open>Properties\<close>

text \<open>C5. Descriptors.  In a table whose numbers are distinct and below the next number, creating a
  descriptor gives it a number that is not in use; the numbers stay distinct and below the next
  number, the new number denotes the new descriptor and every other number what it denoted before.
  Closing it again succeeds, leaves exactly the descriptors that were open before, keeps the numbers
  distinct, gives the structure to \<open>free\<close> and takes one reference from the node.\<close>

theorem descriptor_lifecycle:
  assumes ok: "fd_ok s xs" "fd_next (table s) < 0x7FFFFFFE"
    and f: "f \<noteq> NULL" "f \<notin> set xs"
    and n: "n \<noteq> NULL" "ms (nd_lock (nodes (fs s) n)) = 0"
      "nd_refs (nodes (fs s) n) \<noteq> 1 \<or> nd_flags (nodes (fs s) n) AND FS_AUTOFREE = 0"
  shows "\<exists>s1 s2. create_file_descriptor f n (- 1) mode acts s = Some (Inr (fd_next (table s), s1, acts)) \<and>
    fd_ok s1 (xs @ [f]) \<and> get_file_descriptor (fd_next (table s)) s1 = Some f \<and>
    get_file_descriptor (fd_next (table s)) s = Some NULL \<and>
    (\<forall>k. k = fd_next (table s) \<or> get_file_descriptor k s1 = get_file_descriptor k s) \<and>
    close (fd_next (table s)) acts s1 = Some (Inr (0, s2, acts)) \<and>
    fd_ok s2 xs \<and> (\<forall>k. get_file_descriptor k s2 = get_file_descriptor k s) \<and>
    freed_io s2 = freed_io s1 @ [f] \<and>
    fs s2 = upd_node n (\<lambda>x. x\<lparr>nd_refs := nd_refs x - 1\<rparr>) (fs s)"
proof -
  let ?k = "fd_next (table s)"
  have l: "fd_list s xs" "distinct (map (\<lambda>x. f_fd (files s x)) xs)"
    "\<And>x. x \<in> set xs \<Longrightarrow> f_fd (files s x) < ?k" using ok(1) by (auto simp: fd_ok_def)
  obtain s1 where c: "create_file_descriptor f n (- 1) mode acts s = Some (Inr (?k, s1, acts))"
    "fd_list s1 (xs @ [f])" "descriptors_info s1 = descriptors_info s" "fs s1 = fs s"
    "files s1 f = \<lparr>f_fd = ?k, f_offset = 0, f_mode = mode, f_node = n, f_next = NULL\<rparr>"
    "\<And>x. x \<in> set xs \<Longrightarrow> \<exists>b. files s1 x = (files s x)\<lparr>f_next := b\<rparr>"
    "fd_next (table s1) = (if (- 1 :: i32) = - 1 then ?k + 1 else ?k)"
    by (rule create_file_descriptor_list [OF l(1) f, of ?k "- 1" n mode acts]) (simp, rule that, assumption+)
  have next1: "fd_next (table s1) = ?k + 1" using c(7) by simp
  have k: "?k < ?k + 1" "?k + 1 < 0x7FFFFFFF"
    using ok(2) by (simp_all add: word_less_nat_alt unat_add_1 [OF ok(2)])
  have same1: "map (\<lambda>x. f_fd (files s1 x)) xs = map (\<lambda>x. f_fd (files s x)) xs"
    "find (\<lambda>x. f_fd (files s1 x) = j) xs = find (\<lambda>x. f_fd (files s x) = j) xs" for j
    using c(6) by (intro map_same_fd find_same_fd; blast)+
  have old: "\<And>x. x \<in> set xs \<Longrightarrow> f_fd (files s1 x) < ?k" using l(3) c(6) by fastforce
  have old': "\<And>x. x \<in> set xs \<Longrightarrow> f_fd (files s1 x) \<noteq> ?k" using old by fastforce
  have dist1: "distinct (map (\<lambda>x. f_fd (files s1 x)) xs)" unfolding same1(1) by (rule l(2))
  have "f_fd (files s1 x) < ?k + 1" if "x \<in> set (xs @ [f])" for x
    using that old [of x] c(5) k(1) by (auto dest: order.strict_trans)
  moreover have "distinct (map (\<lambda>x. f_fd (files s1 x)) (xs @ [f]))"
    using dist1 old c(5) by fastforce
  ultimately have ok1: "fd_ok s1 (xs @ [f])"
    unfolding fd_ok_def next1 using c(2) k(2) by blast
  have none: "find (\<lambda>x. f_fd (files s x) = ?k) xs = None"
    using l(3) by (fastforce simp: find_None_iff)
  have get1: "get_file_descriptor j s1 = (if j = ?k then Some f else get_file_descriptor j s)" for j
    using get_file_descriptor_find [OF c(2), of j] get_file_descriptor_find [OF l(1), of j] none c(5)
    by (auto simp: find_append_eq same1(2) split: option.splits)
  obtain s2 where d: "close ?k acts s1 = Some (Inr (0, s2, acts))" "fd_list s2 (xs @ [])"
    "fs s2 = upd_node n (\<lambda>x. x\<lparr>nd_refs := nd_refs x - 1\<rparr>) (fs s1)" "freed_io s2 = freed_io s1 @ [f]"
    "fd_next (table s2) = fd_next (table s1)" "\<And>x. \<exists>b. files s2 x = (files s1 x)\<lparr>f_next := b\<rparr>"
    by (rule close_list [OF c(2), of ?k n acts]) (use old' c(4,5) n in auto)
  have same2: "map (\<lambda>x. f_fd (files s2 x)) xs = map (\<lambda>x. f_fd (files s1 x)) xs"
    "find (\<lambda>x. f_fd (files s2 x) = j) xs = find (\<lambda>x. f_fd (files s1 x) = j) xs" for j
    using d(6) by (intro map_same_fd find_same_fd; blast)+
  have "f_fd (files s2 x) < ?k + 1" if "x \<in> set xs" for x
    using that old [of x] d(6) [of x] k(1) by (auto dest: order.strict_trans)
  moreover have "distinct (map (\<lambda>x. f_fd (files s2 x)) xs)" unfolding same2(1) by (rule dist1)
  ultimately have ok2: "fd_ok s2 xs"
    unfolding fd_ok_def d(5) next1 using d(2) k(2) by simp
  have "get_file_descriptor j s2 = get_file_descriptor j s" for j
    using get_file_descriptor_find [of s2 xs j] d(2) get_file_descriptor_find [OF l(1), of j]
    by (simp add: same1(2) same2(2))
  moreover have "get_file_descriptor ?k s = Some NULL"
    using get_file_descriptor_find [OF l(1), of ?k] none by simp
  ultimately show ?thesis using c(1,4) ok1 get1 d(1,3,4) ok2
    by (intro exI [of _ s1] exI [of _ s2]) auto
qed

text \<open>A task with one open descriptor, number 0, on the file \<open>sh\<close> of the sample tree.\<close>

definition sample_io :: io where
  "sample_io = \<lparr>fs = sample_vfs,
     files = (\<lambda>_. \<lparr>f_fd = 0, f_offset = 0, f_mode = 3, f_node = 4, f_next = NULL\<rparr>),
     tables = (\<lambda>_. \<lparr>fd_next = 1, d_refs = 0, d_lock = MUTEX_INITIALIZER, file_descriptors = 80\<rparr>),
     descriptors_info = 64, root_dir = NULL, pipes = \<lambda>_. fresh_pipe [], freed_io = []\<rparr>"

lemma sample_io_ok: "fd_ok sample_io [80]" "fd_next (table sample_io) = 1" "fs sample_io = sample_vfs"
  by (simp_all add: fd_ok_def fd_list_def sample_io_def MUTEX_INITIALIZER_def)

theorem descriptor_lifecycle_witness:
  "\<exists>s1 s2. create_file_descriptor 96 4 (- 1) 3 [] sample_io = Some (Inr (1, s1, [])) \<and>
    get_file_descriptor 1 s1 = Some 96 \<and> close 1 [] s1 = Some (Inr (0, s2, [])) \<and> fd_ok s2 [80]"
  using descriptor_lifecycle [OF sample_io_ok(1), of 96 4 3 "[]"] sample_io_ok(2,3)
  by (simp add: sample_node_def VFS_NODE_INITIALIZER_def MUTEX_INITIALIZER_def FS_defs) blast

text \<open>C40. A number chosen by the caller can be given out again: \<open>create_file_descriptor\<close> does not
  move the next number when it is asked for a particular one, as \<open>dup2\<close> asks it.  If that number is
  the next one, the following descriptor created without a choice gets the same number, and only the
  first of the two can be reached through it.\<close>

theorem descriptor_collision:
  assumes "fd_ok s xs" "f \<noteq> NULL" "f \<notin> set xs" "g \<noteq> NULL" "g \<notin> set (xs @ [f])"
  shows "\<exists>s1 s2. create_file_descriptor f n (fd_next (table s)) mode acts s =
      Some (Inr (fd_next (table s), s1, acts)) \<and>
    create_file_descriptor g m (- 1) mode' acts s1 = Some (Inr (fd_next (table s), s2, acts)) \<and>
    f_fd (files s2 f) = f_fd (files s2 g) \<and> get_file_descriptor (fd_next (table s)) s2 = Some f"
proof -
  let ?k = "fd_next (table s)"
  have l: "fd_list s xs" "\<And>x. x \<in> set xs \<Longrightarrow> f_fd (files s x) \<noteq> ?k" "?k \<noteq> - 1"
    using assms(1) by (auto simp: fd_ok_def)
  obtain s1 where c: "create_file_descriptor f n ?k mode acts s = Some (Inr (?k, s1, acts))"
    "fd_list s1 (xs @ [f])" "files s1 f = \<lparr>f_fd = ?k, f_offset = 0, f_mode = mode, f_node = n, f_next = NULL\<rparr>"
    "\<And>x. x \<in> set xs \<Longrightarrow> \<exists>b. files s1 x = (files s x)\<lparr>f_next := b\<rparr>"
    "fd_next (table s1) = (if ?k = - 1 then ?k + 1 else ?k)"
    by (rule create_file_descriptor_list [OF l(1) assms(2,3), of ?k ?k n mode acts])
      (simp, rule that, assumption+)
  have k: "?k = (if (- 1 :: i32) = - 1 then fd_next (table s1) else - 1)" using c(5) l(3) by simp
  obtain s2 where d: "create_file_descriptor g m (- 1) mode' acts s1 = Some (Inr (?k, s2, acts))"
    "fd_list s2 ((xs @ [f]) @ [g])"
    "files s2 g = \<lparr>f_fd = ?k, f_offset = 0, f_mode = mode', f_node = m, f_next = NULL\<rparr>"
    "\<And>x. x \<in> set (xs @ [f]) \<Longrightarrow> \<exists>b. files s2 x = (files s1 x)\<lparr>f_next := b\<rparr>"
    by (rule create_file_descriptor_list [OF c(2) assms(4,5) k, of m mode' acts]) (rule that, assumption+)
  have "find (\<lambda>x. f_fd (files s2 x) = ?k) (xs @ [f]) = find (\<lambda>x. f_fd (files s1 x) = ?k) (xs @ [f])"
    using d(4) by (intro find_same_fd) blast
  moreover have "find (\<lambda>x. f_fd (files s1 x) = ?k) xs = find (\<lambda>x. f_fd (files s x) = ?k) xs"
    using c(4) by (intro find_same_fd) blast
  moreover have "find (\<lambda>x. f_fd (files s x) = ?k) xs = None" using l(2) by (auto simp: find_None_iff)
  ultimately have "find (\<lambda>x. f_fd (files s2 x) = ?k) (xs @ [f]) = Some f"
    using c(3) by (simp add: find_append_eq)
  then have "find (\<lambda>x. f_fd (files s2 x) = ?k) ((xs @ [f]) @ [g]) = Some f"
    by (subst find_append_eq) (simp only: option.case)
  then have "get_file_descriptor ?k s2 = Some f"
    using get_file_descriptor_find [OF d(2), of ?k] by (simp only: option.case)
  moreover have "f_fd (files s2 f) = ?k" using d(4) [of f] c(3) by auto
  ultimately show ?thesis using c(1) d(1,3) by auto
qed

theorem descriptor_collision_witness:
  "\<exists>s1 s2. create_file_descriptor 96 4 1 3 [] sample_io = Some (Inr (1, s1, [])) \<and>
    create_file_descriptor 112 3 (- 1) 3 [] s1 = Some (Inr (1, s2, [])) \<and>
    get_file_descriptor 1 s2 = Some 96"
  using descriptor_collision [OF sample_io_ok(1), of 96 112 4 3 "[]" 3 3] sample_io_ok(2) by auto

text \<open>Closing a number that is not open stops the kernel: the list is searched to its end and the
  missing structure is then read through \<open>NULL\<close>.\<close>

theorem close_unknown_traps:
  assumes "fd_list s xs" "xs \<noteq> []" "get_file_descriptor fd s = Some NULL"
  shows "close fd acts s = Some (Inl Null_Deref)"
proof -
  let ?s1 = "upd_table (descriptors_info s) (\<lambda>t. t\<lparr>d_lock := (d_lock t)\<lparr>ms := 1\<rparr>\<rparr>) s"
  have c: "chain (next_file s) (file_descriptors (table s)) xs NULL" using assms(1) by (simp add: fd_list_def)
  have "find (\<lambda>x. f_fd (files s x) = fd) xs = None"
  proof (rule ccontr)
    assume "find (\<lambda>x. f_fd (files s x) = fd) xs \<noteq> None"
    then obtain x where x: "find (\<lambda>x. f_fd (files s x) = fd) xs = Some x" by auto
    then have "x = NULL" using assms(3) get_file_descriptor_find [OF assms(1), of fd] by simp
    then show False using find_Some_in [OF x] chain_cells [OF c] by auto
  qed
  then have "seek_fd (files ?s1) fd NULL (file_descriptors (tables ?s1 (descriptors_info s))) =
      Some (last (NULL # xs), NULL)"
    using c by (intro seek_fd_chain) (auto simp: find_None_iff)
  moreover have "file_descriptors (table s) \<noteq> NULL" using c assms(2) by (cases xs) auto
  ultimately show ?thesis
    using assms(1) by (simp add: close_def Let_def fd_list_def table_wait_free)
qed

theorem close_unknown_traps_witness: "close 5 [] sample_io = Some (Inl Null_Deref)"
proof (rule close_unknown_traps)
  show l: "fd_list sample_io [80]" using sample_io_ok(1) by (simp add: fd_ok_def)
  show "get_file_descriptor 5 sample_io = Some NULL"
    using get_file_descriptor_find [OF l, of 5] by (simp add: sample_io_def)
qed simp

end
