(* ===== verification/Mkinitrd.thy ===== *)
theory Mkinitrd
  imports Vfs
begin

text \<open>
  The tool that builds the initial ram disk, \<open>tools/src/mkinitrd/mkinitrd.c\<close>.  Its node structure
  is that of the kernel, field by field.  Nodes live in one block of memory that \<open>malloc\<close> returned;
  the files of the host are an argument.  The image is the header, the nodes with their pointers
  turned into offsets, and the contents of the files.
\<close>

section \<open>State\<close>

definition sizeof_vfs_node :: nat where
  "sizeof_vfs_node = 256 + 11 * 4 + 12 + 32 + 9 * 4 + 3 * 4"

definition sizeof_initrd_header :: nat where
  "sizeof_initrd_header = 8"

record initrd_header_t =
  hd_magic :: u32
  hd_sz :: u32

text \<open>\<open>p_node\<close> is the number of nodes in use, \<open>mk_room\<close> the number of nodes the block has room for.\<close>

record mkinitrd =
  mk_nodes :: "addr \<Rightarrow> vfs_node_t"
  mk_root :: addr
  p_node :: nat
  mk_room :: nat

definition slot :: "addr \<Rightarrow> nat \<Rightarrow> addr" where
  "slot r i = r + of_nat (i * sizeof_vfs_node)"

text \<open>\<open>tmp = p_node++; *tmp = VFS_NODE_INITIALIZER(f);\<close>\<close>

definition new_node :: "u32 \<Rightarrow> mkinitrd \<Rightarrow> (addr \<times> mkinitrd) outcome" where
  "new_node f m =
     (if p_node m < mk_room m then
        let a = slot (mk_root m) (p_node m) in
        Inr (a, m\<lparr>mk_nodes := (mk_nodes m)(a := VFS_NODE_INITIALIZER f), p_node := p_node m + 1\<rparr>)
      else Inl Out_Of_Bounds)"

text \<open>\<open>ptmp = &node->ptr; while (*ptmp != NULL) ptmp = &(*ptmp)->next; *ptmp = tmp;\<close>\<close>

definition link_child :: "addr \<Rightarrow> addr \<Rightarrow> (addr \<Rightarrow> vfs_node_t) \<Rightarrow> (addr \<Rightarrow> vfs_node_t) option" where
  "link_child node tmp h =
     (if nd_ptr (h node) = NULL then Some (h(node := (h node)\<lparr>nd_ptr := tmp\<rparr>))
      else case walk_last (\<lambda>a. nd_next (h a)) (nd_ptr (h node)) of
          None \<Rightarrow> None
        | Some l \<Rightarrow> Some (h(l := (h l)\<lparr>nd_next := tmp\<rparr>)))"

text \<open>Name, parent and link of a new node; \<open>len\<close> and \<open>data\<close> are the fields of a file.\<close>

definition add_child :: "string \<Rightarrow> addr \<Rightarrow> addr \<Rightarrow> u32 \<Rightarrow> addr \<Rightarrow> mkinitrd \<Rightarrow> mkinitrd run" where
  "add_child name node tmp len data m =
     bindR (Some (strcpy (nd_name (mk_nodes m tmp)) name)) (\<lambda>(nm, _).
     let h = (mk_nodes m)(tmp := (mk_nodes m tmp)
           \<lparr>nd_name := nm, nd_length := len, nd_data := data, nd_parent := node\<rparr>) in
     case link_child node tmp h of
       None \<Rightarrow> None
     | Some h' \<Rightarrow> Some (Inr (m\<lparr>mk_nodes := h'\<rparr>)))"

section \<open>The parent of a path\<close>

text \<open>\<open>vfs_get_path_level\<close> is the same function as in the kernel.  The buffer is written before it
  is read.\<close>

definition get_path_level :: "string \<Rightarrow> nat \<Rightarrow> string \<Rightarrow> string option outcome" where
  "get_path_level path level p = vfs_get_path_level path (of_nat level) (Some p)"

text \<open>\<open>do p_path = vfs_get_path_level(path, levels++, p); while (p_path != NULL); levels--;\<close>\<close>

partial_function (option) count_levels :: "string \<Rightarrow> nat \<Rightarrow> string \<Rightarrow> (nat \<times> string) run" where
  "count_levels path levels p =
     (case get_path_level path levels p of
        Inl t \<Rightarrow> Some (Inl t)
      | Inr None \<Rightarrow> Some (Inr (levels, p))
      | Inr (Some p') \<Rightarrow> count_levels path (levels + 1) p')"

text \<open>One round of the walk: the child of that name, which is made if there is none.\<close>

definition enter_dir :: "string \<Rightarrow> addr \<Rightarrow> mkinitrd \<Rightarrow> (nat \<times> addr \<times> mkinitrd) run" where
  "enter_dir p_path node m =
     bindR (find_named (mk_nodes m) (Some p_path) (nd_ptr (mk_nodes m node))) (\<lambda>tmp.
     if tmp \<noteq> NULL then Some (Inr (0, tmp, m))
     else bindR (Some (new_node FS_DIRECTORY m)) (\<lambda>(tmp, m1).
       bindR (add_child p_path node tmp 0 0 m1) (\<lambda>m2. Some (Inr (1, tmp, m2)))))"

partial_function (option) parent_loop :: "string \<Rightarrow> nat \<Rightarrow> nat \<Rightarrow> string option \<Rightarrow> nat \<Rightarrow> addr \<Rightarrow>
    mkinitrd \<Rightarrow> (nat \<times> addr \<times> mkinitrd) run" where
  "parent_loop path levels i p_path c node m =
     (case p_path of
        None \<Rightarrow> Some (Inr (c, node, m))
      | Some p \<Rightarrow>
          if p = [] then Some (Inl Out_Of_Bounds)
          else if hd p = NUL \<or> \<not> i < levels then Some (Inr (c, node, m))
          else (case enter_dir p node m of
              None \<Rightarrow> None
            | Some (Inl t) \<Rightarrow> Some (Inl t)
            | Some (Inr (k, node', m')) \<Rightarrow>
                (case get_path_level path i p of
                   Inl t \<Rightarrow> Some (Inl t)
                 | Inr p_path' \<Rightarrow> parent_loop path levels (i + 1) p_path' (c + k) node' m')))"

declare count_levels.simps [code] parent_loop.simps [code]

text \<open>The number of nodes made, and the parent.\<close>

definition find_parent :: "string \<Rightarrow> mkinitrd \<Rightarrow> (nat \<times> addr \<times> mkinitrd) run" where
  "find_parent path m =
     bindR (count_levels path 0 (replicate (MAX_PATH + 1) NUL)) (\<lambda>(levels, p).
     bindR (Some (get_path_level path 0 p)) (\<lambda>p_path.
     parent_loop path levels 1 p_path 0 (mk_root m) m))"

text \<open>\<open>while (p > path && *(p - 1) != '/') p--;\<close>\<close>

fun back_to_slash :: "string \<Rightarrow> nat \<Rightarrow> nat" where
  "back_to_slash path 0 = 0"
| "back_to_slash path (Suc p) = (if path ! p \<noteq> CHR ''/'' then back_to_slash path p else Suc p)"

definition filename :: "string \<Rightarrow> string outcome" where
  "filename path = bindE (skip_text 0 path) (\<lambda>p. Inr (drop (back_to_slash path p) path))"

section \<open>The image\<close>

text \<open>One argument pair; the value \<open>None\<close> is the exit for a file that cannot be opened.\<close>

definition add_file :: "string \<Rightarrow> u8 list \<Rightarrow> addr \<Rightarrow> addr \<Rightarrow> mkinitrd \<Rightarrow> mkinitrd run" where
  "add_file initrd_path content offset node m =
     bindR (Some (new_node FS_FILE m)) (\<lambda>(new, m1).
     bindR (Some (filename initrd_path)) (\<lambda>name.
     add_child name node new (of_nat (length content)) offset m1))"

fun add_files :: "(string \<Rightarrow> u8 list option) \<Rightarrow> (string \<times> string) list \<Rightarrow> addr \<Rightarrow> nat \<Rightarrow> mkinitrd \<Rightarrow>
    (nat \<times> mkinitrd) option run" where
  "add_files files [] offset nodes_count m = Some (Inr (Some (nodes_count, m)))"
| "add_files files ((path, initrd_path) # args) offset nodes_count m =
     bindR (find_parent initrd_path m) (\<lambda>(c, node, m1).
     bindR (Some (assertE (node \<noteq> NULL))) (\<lambda>_.
     case files path of
       None \<Rightarrow> Some (Inr None)
     | Some content \<Rightarrow>
         bindR (add_file initrd_path content offset node m1) (\<lambda>m2.
         add_files files args (offset + of_nat (length content)) (nodes_count + c + 1) m2)))"

text \<open>Pointers become offsets from the start of the image.\<close>

definition link_offset :: "addr \<Rightarrow> addr \<Rightarrow> addr" where
  "link_offset r p = (if p \<noteq> NULL then p - r + of_nat sizeof_initrd_header else p)"

definition relocate_node :: "addr \<Rightarrow> addr \<Rightarrow> vfs_node_t \<Rightarrow> vfs_node_t" where
  "relocate_node r offset nd = nd
     \<lparr>nd_data := (if nd_length nd \<noteq> 0 then nd_data nd + offset else nd_data nd),
      nd_ptr := link_offset r (nd_ptr nd), nd_parent := link_offset r (nd_parent nd),
      nd_next := link_offset r (nd_next nd)\<rparr>"

text \<open>What is written to \<open>initrd.img\<close>: the header, the nodes, the contents of the files.\<close>

record image =
  im_header :: initrd_header_t
  im_nodes :: "vfs_node_t list"
  im_data :: "u8 list"

definition write_image :: "(string \<Rightarrow> u8 list option) \<Rightarrow> (string \<times> string) list \<Rightarrow> nat \<Rightarrow> mkinitrd \<Rightarrow> image" where
  "write_image files args nodes_count m =
     (let offset = of_nat (sizeof_initrd_header + sizeof_vfs_node * nodes_count) in
      \<lparr>im_header = \<lparr>hd_magic = 0x42424242, hd_sz = of_nat nodes_count\<rparr>,
       im_nodes = map (\<lambda>i. relocate_node (mk_root m) offset (mk_nodes m (slot (mk_root m) i)))
         [0 ..< nodes_count],
       im_data = concat (map (\<lambda>(path, _). the (files path)) args)\<rparr>)"

fun arg_pairs :: "string list \<Rightarrow> (string \<times> string) list" where
  "arg_pairs (path # initrd_path # args) = (path, initrd_path) # arg_pairs args"
| "arg_pairs args = []"

text \<open>\<open>argv\<close> without the program name; \<open>block\<close> is what \<open>malloc\<close> returned and \<open>h\<close> the memory there.\<close>

definition mkinitrd_main :: "(string \<Rightarrow> u8 list option) \<Rightarrow> addr \<Rightarrow> (addr \<Rightarrow> vfs_node_t) \<Rightarrow> string list \<Rightarrow>
    image option run" where
  "mkinitrd_main files block h argv =
     (let sz = length argv div 2; args = arg_pairs argv in
      if block = NULL then Some (Inr None)
      else bindR (Some (new_node FS_DIRECTORY
          \<lparr>mk_nodes = h, mk_root = block, p_node = 0, mk_room = sz * 5\<rparr>)) (\<lambda>(root, m).
        bindR (add_files files args 0 1 m) (\<lambda>r. case r of
          None \<Rightarrow> Some (Inr None)
        | Some (nodes_count, m') \<Rightarrow> Some (Inr (Some (write_image files args nodes_count m'))))))"

end
