(* ===== verification/Initrd.thy ===== *)
theory Initrd
  imports Mkinitrd "HOL-Library.Sublist"
begin

text \<open>
  The initial ram disk of \<open>kernel/initrd.c\<close>, and its use in \<open>kernel/main.c\<close>: the boot loader has put
  the image that \<open>mkinitrd\<close> wrote somewhere in memory, \<open>initrd_init\<close> turns the offsets in its nodes
  into pointers, and \<open>vfs_init\<close> mounts it.  The invariant \<open>mk_tree\<close> says what tree the tool has built
  so far; the last section carries it through the image into the tree the kernel walks.
\<close>

section \<open>The kernel\<close>

text \<open>\<open>mem\<close> are the bytes of memory; \<open>size < 0\<close> never holds for an unsigned size.\<close>

definition initrd_read :: "(addr \<Rightarrow> u8) \<Rightarrow> addr \<Rightarrow> u32 \<Rightarrow> u32 \<Rightarrow> vfs \<Rightarrow> (u32 \<times> u8 list) outcome" where
  "initrd_read mem node offset sz s =
     bindE (assertE (node \<noteq> NULL)) (\<lambda>_.
     let nd = nodes s node in
     if offset > nd_length nd then Inr (0, [])
     else
       let sz' = (if offset + sz > nd_length nd then nd_length nd - offset else sz) in
       Inr (sz', map (\<lambda>k. mem (nd_data nd + offset + of_nat k)) [0 ..< unat sz']))"

definition add_offset :: "addr \<Rightarrow> addr \<Rightarrow> addr" where
  "add_offset offset p = (if p \<noteq> NULL then p + offset else p)"

text \<open>\<open>rd\<close> is the address of \<open>initrd_read\<close>.\<close>

definition fix_node :: "addr \<Rightarrow> addr \<Rightarrow> vfs_node_t \<Rightarrow> vfs_node_t" where
  "fix_node rd offset nd =
     (let nd1 = nd\<lparr>nd_ptr := add_offset offset (nd_ptr nd), nd_next := add_offset offset (nd_next nd),
          nd_parent := add_offset offset (nd_parent nd)\<rparr> in
      if nd_length nd1 > 0 then nd1\<lparr>nd_data := nd_data nd1 + offset, nd_read := rd\<rparr> else nd1)"

fun fix_nodes :: "addr \<Rightarrow> addr \<Rightarrow> nat \<Rightarrow> addr \<Rightarrow> vfs \<Rightarrow> vfs" where
  "fix_nodes rd offset 0 p s = s"
| "fix_nodes rd offset (Suc n) p s =
     fix_nodes rd offset n (p + of_nat sizeof_vfs_node) (upd_node p (fix_node rd offset) s)"

definition initrd_init :: "addr \<Rightarrow> (addr \<Rightarrow> initrd_header_t) \<Rightarrow> addr \<Rightarrow> vfs \<Rightarrow> addr \<times> vfs" where
  "initrd_init rd headers offset s =
     (let root = offset + of_nat sizeof_initrd_header in
      (root, fix_nodes rd offset (unat (hd_sz (headers offset))) root s))"

text \<open>\<open>vfs_init(initrd_init(offset))\<close>; \<open>new\<close> is what \<open>malloc\<close> returns in \<open>vfs_init\<close>.\<close>

definition mount_initrd :: "addr \<Rightarrow> addr \<Rightarrow> (addr \<Rightarrow> initrd_header_t) \<Rightarrow> addr \<Rightarrow> vfs \<Rightarrow> vfs outcome" where
  "mount_initrd new rd headers offset s =
     (let (root, s1) = initrd_init rd headers offset s in vfs_init new root s1)"

section \<open>Slots\<close>

text \<open>The block of the tool does not wrap around the end of memory.\<close>

definition block_ok :: "addr \<Rightarrow> nat \<Rightarrow> bool" where
  "block_ok r n = (r \<noteq> NULL \<and> unat r + n * sizeof_vfs_node < 2 ^ 32)"

lemma unat_node_slot:
  assumes "block_ok r n" "i \<le> n"
  shows "unat (slot r i) = unat r + i * sizeof_vfs_node"
proof -
  have "i * sizeof_vfs_node \<le> n * sizeof_vfs_node" using assms(2) by simp
  then have "unat r + i * sizeof_vfs_node < 2 ^ 32" using assms(1) unfolding block_ok_def by linarith
  moreover from this have "unat (of_nat (i * sizeof_vfs_node) :: u32) = i * sizeof_vfs_node"
    by (intro unat_of_nat_u32) simp
  ultimately show ?thesis by (simp add: slot_def unat_word_ariths del: of_nat_mult)
qed

lemma slot_inj:
  assumes "block_ok r n" "i \<le> n" "j \<le> n" "slot r i = slot r j"
  shows "i = j"
proof -
  have "unat r + i * sizeof_vfs_node = unat r + j * sizeof_vfs_node"
    using unat_node_slot [OF assms(1,2)] unat_node_slot [OF assms(1,3)] assms(4) by metis
  then show ?thesis by (simp add: sizeof_vfs_node_def)
qed

lemma slot_not_NULL:
  assumes "block_ok r n" "i \<le> n"
  shows "slot r i \<noteq> NULL"
proof
  assume "slot r i = NULL"
  then have "unat r = 0" using unat_node_slot [OF assms] by simp
  then show False using assms(1) by (simp add: block_ok_def unat_eq_0)
qed

lemma slot_0 [simp]: "slot r 0 = r"
  by (simp add: slot_def)

section \<open>The tree of the tool\<close>

abbreviation name_at :: "(addr \<Rightarrow> vfs_node_t) \<Rightarrow> addr \<Rightarrow> string" where
  "name_at h a \<equiv> text_of (nd_name (h a))"

text \<open>A node nobody has locked and no driver has attached a function to.\<close>

definition plain_node :: "vfs_node_t \<Rightarrow> bool" where
  "plain_node nd = (length (nd_name nd) = 256 \<and> NUL \<in> set (nd_name nd) \<and> nd_lock nd = MUTEX_INITIALIZER \<and>
     nd_open nd = NULL \<and> nd_finddir nd = NULL \<and> nd_read nd = NULL)"

text \<open>
  \<open>loc\<close> gives the node of every path in the tree and \<open>kids\<close> the children of every node; \<open>n\<close> nodes
  are in use.  \<open>fs\<close> are the files: their length and the offset of their contents.
\<close>

definition mk_tree :: "addr \<Rightarrow> nat \<Rightarrow> (addr \<Rightarrow> vfs_node_t) \<Rightarrow> (string list \<rightharpoonup> addr) \<Rightarrow> (addr \<Rightarrow> addr list) \<Rightarrow>
    (string list \<rightharpoonup> u32 \<times> addr) \<Rightarrow> bool" where
  "mk_tree r n h loc kids fs = (loc [] = Some r \<and> dom fs \<subseteq> dom loc \<and>
     (\<forall>ps c. loc (ps @ [c]) \<noteq> None \<longrightarrow> loc ps \<noteq> None) \<and>
     (\<forall>ps qs a. loc ps = Some a \<longrightarrow> loc qs = Some a \<longrightarrow> ps = qs) \<and>
     (\<forall>ps a. loc ps = Some a \<longrightarrow> (\<exists>i < n. a = slot r i) \<and> plain_node (h a) \<and>
        chain (\<lambda>b. nd_next (h b)) (nd_ptr (h a)) (kids a) NULL \<and>
        (\<forall>c. find (\<lambda>b. name_at h b = c) (kids a) = loc (ps @ [c])) \<and>
        (\<forall>b \<in> set (kids a). loc (ps @ [name_at h b]) = Some b) \<and>
        nd_parent (h a) = (if ps = [] then NULL else the (loc (butlast ps))) \<and>
        (case fs ps of
           None \<Rightarrow> nd_flags (h a) = FS_DIRECTORY \<and> nd_length (h a) = 0
         | Some (len, data) \<Rightarrow> nd_flags (h a) = FS_FILE \<and> nd_length (h a) = len \<and> nd_data (h a) = data)))"

lemma link_child_run:
  assumes "chain (\<lambda>b. nd_next (h b)) (nd_ptr (h p)) xs NULL" "new \<noteq> NULL" "new \<notin> set xs" "nd_next (h new) = NULL"
  obtains h' where "link_child p new h = Some h'"
    "chain (\<lambda>b. nd_next (h' b)) (nd_ptr (h' p)) (xs @ [new]) NULL"
    "h' = (if xs = [] then h(p := (h p)\<lparr>nd_ptr := new\<rparr>) else h(last xs := (h (last xs))\<lparr>nd_next := new\<rparr>))"
proof (cases xs rule: rev_cases)
  case Nil
  with assms show ?thesis by (intro that) (auto simp: link_child_def)
next
  case (snoc ys y)
  let ?n = "\<lambda>b. nd_next (h b)" and ?h = "h(y := (h y)\<lparr>nd_next := new\<rparr>)"
  have "nd_ptr (h p) \<noteq> NULL" "walk_last ?n (nd_ptr (h p)) = Some y"
    using assms(1) snoc walk_last_chain [of ?n _ ys y] by auto
  then have "link_child p new h = Some ?h" by (simp add: link_child_def)
  moreover have n: "(\<lambda>b. nd_next (?h b)) = ?n(new := NULL, y := new)" using assms(4) by auto
  have q: "nd_ptr (?h p) = nd_ptr (h p)" by simp
  have "chain (\<lambda>b. nd_next (?h b)) (nd_ptr (?h p)) (ys @ [y, new]) NULL"
    unfolding n q using assms(1-3) snoc by (intro chain_link_last) simp_all
  ultimately show ?thesis using snoc by (intro that [of ?h]) simp_all
qed

lemma mk_treeD:
  assumes "mk_tree r n h loc kids fs" "loc ps = Some a"
  shows "\<exists>i < n. a = slot r i" "plain_node (h a)"
    "chain (\<lambda>b. nd_next (h b)) (nd_ptr (h a)) (kids a) NULL"
    "find (\<lambda>b. name_at h b = c) (kids a) = loc (ps @ [c])"
    "b \<in> set (kids a) \<Longrightarrow> loc (ps @ [name_at h b]) = Some b"
    "nd_parent (h a) = (if ps = [] then NULL else the (loc (butlast ps)))"
    "fs ps = None \<Longrightarrow> nd_flags (h a) = FS_DIRECTORY \<and> nd_length (h a) = 0"
    "fs ps = Some (len, data) \<Longrightarrow> nd_flags (h a) = FS_FILE \<and> nd_length (h a) = len \<and> nd_data (h a) = data"
    "loc qs = Some a \<Longrightarrow> qs = ps"
  using assms unfolding mk_tree_def by (blast, blast, blast, blast, blast, blast, fastforce, fastforce, blast)

lemma mk_tree_root: "mk_tree r n h loc kids fs \<Longrightarrow> loc [] = Some r"
  by (simp add: mk_tree_def)

lemma mk_tree_prefix: "mk_tree r n h loc kids fs \<Longrightarrow> loc (ps @ [c]) = Some a \<Longrightarrow> \<exists>b. loc ps = Some b"
  unfolding mk_tree_def by (metis not_None_eq)

text \<open>The fields that linking leaves alone.\<close>

definition same_but_links :: "vfs_node_t \<Rightarrow> vfs_node_t \<Rightarrow> bool" where
  "same_but_links nd nd' = (nd' = nd\<lparr>nd_ptr := nd_ptr nd', nd_next := nd_next nd'\<rparr>)"

lemma same_but_links_fields:
  assumes "same_but_links nd nd'"
  shows "nd_name nd' = nd_name nd" "plain_node nd' = plain_node nd" "nd_parent nd' = nd_parent nd"
    "nd_flags nd' = nd_flags nd" "nd_length nd' = nd_length nd" "nd_data nd' = nd_data nd"
  using assms unfolding same_but_links_def plain_node_def by (cases nd, cases nd', simp)+

lemma mk_tree_kid:
  assumes "mk_tree r n h loc kids fs" "block_ok r n"
  shows "loc qs \<noteq> Some (slot r n)"
    and "loc qs = Some a \<Longrightarrow> x \<in> set (kids a) \<Longrightarrow> loc (qs @ [name_at h x]) = Some x \<and> x \<noteq> slot r n"
proof -
  show fresh: "loc qs \<noteq> Some (slot r n)" for qs
  proof
    assume "loc qs = Some (slot r n)"
    from mk_treeD(1) [OF assms(1) this] obtain i where "i < n" "slot r n = slot r i" by blast
    then show False using slot_inj [OF assms(2), of n i] by simp
  qed
  show "loc (qs @ [name_at h x]) = Some x \<and> x \<noteq> slot r n" if "loc qs = Some a" "x \<in> set (kids a)"
    using mk_treeD(5) [OF assms(1) that] fresh by auto
qed

text \<open>Linking a fresh node changes only the links of its parent's children.\<close>

lemma mk_tree_link:
  assumes t: "mk_tree r n h loc kids fs" and b: "block_ok r n"
    and p: "loc ps = Some p" and nd: "nd_next nd = NULL"
  obtains h' where "link_child p (slot r n) (h(slot r n := nd)) = Some h'" "h' (slot r n) = nd"
    "\<forall>a. a \<noteq> slot r n \<longrightarrow> same_but_links (h a) (h' a)"
    "chain (\<lambda>b. nd_next (h' b)) (nd_ptr (h' p)) (kids p @ [slot r n]) NULL"
    "\<forall>qs a. loc qs = Some a \<longrightarrow> a \<noteq> p \<longrightarrow> chain (\<lambda>b. nd_next (h' b)) (nd_ptr (h' a)) (kids a) NULL"
proof -
  let ?new = "slot r n" and ?h = "h(slot r n := nd)"
  note fresh = mk_tree_kid(1) [OF t b] and kid = mk_tree_kid(2) [OF t b]
  have pn: "p \<noteq> ?new" using p fresh by auto
  have "chain (\<lambda>b. nd_next (?h b)) (nd_ptr (?h p)) (kids p) NULL"
    using mk_treeD(3) [OF t p] kid [OF p] pn chain_cong [of "kids p" "\<lambda>b. nd_next (h b)" "\<lambda>b. nd_next (?h b)"]
    by auto
  moreover have "?new \<notin> set (kids p)" using kid [OF p] by blast
  moreover have "nd_next (?h ?new) = NULL" using nd by simp
  ultimately obtain h' where h': "link_child p ?new ?h = Some h'"
      "chain (\<lambda>b. nd_next (h' b)) (nd_ptr (h' p)) (kids p @ [?new]) NULL"
      "h' = (if kids p = [] then ?h(p := (?h p)\<lparr>nd_ptr := ?new\<rparr>)
        else ?h(last (kids p) := (?h (last (kids p)))\<lparr>nd_next := ?new\<rparr>))"
    by (rule link_child_run [OF _ slot_not_NULL [OF b order_refl]])
  have last: "kids p \<noteq> [] \<Longrightarrow> last (kids p) \<in> set (kids p)" by simp
  have other: "chain (\<lambda>b. nd_next (h' b)) (nd_ptr (h' a)) (kids a) NULL" if a: "loc qs = Some a" "a \<noteq> p" for qs a
  proof -
    have "a \<noteq> ?new" using a(1) fresh by auto
    have "x \<noteq> last (kids p)" if x: "x \<in> set (kids a)" and ne: "kids p \<noteq> []" for x
    proof
      assume "x = last (kids p)"
      then have "loc (ps @ [name_at h x]) = Some x" using kid [OF p] last [OF ne] by auto
      moreover have "loc (qs @ [name_at h x]) = Some x" using kid [OF a(1) x] by simp
      ultimately have "ps = qs" using mk_treeD(9) [OF t] by fastforce
      then show False using a p by simp
    qed
    then have "nd_next (h' x) = nd_next (h x)" if "x \<in> set (kids a)" for x
      using that kid [OF a(1) that] by (auto simp: h'(3))
    moreover have "nd_ptr (h' a) = nd_ptr (h a)" using a \<open>a \<noteq> ?new\<close> by (auto simp: h'(3))
    ultimately show ?thesis
      using mk_treeD(3) [OF t a(1)] chain_cong [of "kids a" "\<lambda>b. nd_next (h b)" "\<lambda>b. nd_next (h' b)"] by auto
  qed
  moreover have "h' ?new = nd" using pn kid [OF p last] by (auto simp: h'(3))
  moreover have "\<forall>a. a \<noteq> ?new \<longrightarrow> same_but_links (h a) (h' a)" by (auto simp: h'(3) same_but_links_def)
  ultimately show ?thesis using that [OF h'(1) _ _ h'(2)] by blast
qed

text \<open>Linking a fresh node below a node of the tree adds one path.\<close>

lemma mk_tree_insert:
  assumes t: "mk_tree r n h loc kids fs" and b: "block_ok r n"
    and p: "loc ps = Some p" and c: "loc (ps @ [c]) = None"
    and nd: "plain_node nd" "text_of (nd_name nd) = c" "nd_ptr nd = NULL" "nd_next nd = NULL" "nd_parent nd = p"
    and fs': "fs' = fs \<and> nd_flags nd = FS_DIRECTORY \<and> nd_length nd = 0 \<or>
      fs' = fs(ps @ [c] \<mapsto> (nd_length nd, nd_data nd)) \<and> nd_flags nd = FS_FILE"
  obtains h' where "link_child p (slot r n) (h(slot r n := nd)) = Some h'"
    "mk_tree r (Suc n) h' (loc(ps @ [c] \<mapsto> slot r n)) (kids(p := kids p @ [slot r n], slot r n := [])) fs'"
proof -
  let ?new = "slot r n" and ?loc = "loc(ps @ [c] \<mapsto> slot r n)"
  let ?kids = "kids(p := kids p @ [?new], ?new := [])"
  note fresh = mk_tree_kid(1) [OF t b] and kid = mk_tree_kid(2) [OF t b]
  obtain h' where h': "link_child p ?new (h(?new := nd)) = Some h'" "h' ?new = nd"
    "\<forall>a. a \<noteq> ?new \<longrightarrow> same_but_links (h a) (h' a)"
    "chain (\<lambda>b. nd_next (h' b)) (nd_ptr (h' p)) (kids p @ [?new]) NULL"
    "\<forall>qs a. loc qs = Some a \<longrightarrow> a \<noteq> p \<longrightarrow> chain (\<lambda>b. nd_next (h' b)) (nd_ptr (h' a)) (kids a) NULL"
    by (rule mk_tree_link [OF t b p nd(4)])
  note f = same_but_links_fields [OF h'(3) [rule_format]]
  have pn: "p \<noteq> ?new" using p fresh by auto
  have names: "name_at h' x = name_at h x" if "loc qs = Some a" "x \<in> set (kids a)" for qs a x
    using f(1) [of x] kid [OF that] by simp
  have finds: "find (\<lambda>b. name_at h' b = d) (kids a) = loc (qs @ [d])" if "loc qs = Some a" for qs a d
    using find_cong [OF refl, of "kids a" "\<lambda>b. name_at h' b = d" "\<lambda>b. name_at h b = d"]
      names [OF that] mk_treeD(4) [OF t that] by simp
  have leaf: "loc (ps @ [c, d]) = None" "fs (ps @ [c]) = None" for d
    using mk_tree_prefix [OF t, of "ps @ [c]" d] c t by (fastforce, auto simp: mk_tree_def)
  have dom: "fs qs \<noteq> None \<Longrightarrow> loc qs \<noteq> None" for qs using t by (auto simp: mk_tree_def)
  have node: "(\<exists>i < Suc n. a = slot r i) \<and> plain_node (h' a) \<and>
      chain (\<lambda>b. nd_next (h' b)) (nd_ptr (h' a)) (?kids a) NULL \<and>
      (\<forall>d. find (\<lambda>b. name_at h' b = d) (?kids a) = ?loc (qs @ [d])) \<and>
      (\<forall>b \<in> set (?kids a). ?loc (qs @ [name_at h' b]) = Some b) \<and>
      nd_parent (h' a) = (if qs = [] then NULL else the (?loc (butlast qs))) \<and>
      (case fs' qs of
         None \<Rightarrow> nd_flags (h' a) = FS_DIRECTORY \<and> nd_length (h' a) = 0
       | Some (len, data) \<Rightarrow> nd_flags (h' a) = FS_FILE \<and> nd_length (h' a) = len \<and> nd_data (h' a) = data)"
    if "?loc qs = Some a" for qs a
  proof (cases "qs = ps @ [c]")
    case True
    then have "a = ?new" using that by simp
    then show ?thesis using nd h'(2) leaf fs' p True pn by auto
  next
    case False
    then have a: "loc qs = Some a" "a \<noteq> ?new" using that fresh by auto
    have same: "\<exists>i < Suc n. a = slot r i" "plain_node (h' a)" "nd_parent (h' a) = nd_parent (h a)"
      "nd_flags (h' a) = nd_flags (h a)" "nd_length (h' a) = nd_length (h a)" "nd_data (h' a) = nd_data (h a)"
      using mk_treeD(1,2) [OF t a(1)] f(2-6) [OF a(2)] less_SucI by blast+
    have ps: "a = p \<longleftrightarrow> qs = ps" using mk_treeD(9) [OF t p, of qs] a(1) p by auto
    have "chain (\<lambda>b. nd_next (h' b)) (nd_ptr (h' a)) (?kids a) NULL" using h'(4,5) a by auto
    moreover have "\<forall>d. find (\<lambda>b. name_at h' b = d) (?kids a) = ?loc (qs @ [d])"
      using finds [OF a(1)] a(2) ps h'(2) nd(2) c p by (auto simp: find_append_eq split: option.split)
    moreover have "\<forall>b \<in> set (?kids a). ?loc (qs @ [name_at h' b]) = Some b"
    proof
      fix b assume b: "b \<in> set (?kids a)"
      show "?loc (qs @ [name_at h' b]) = Some b"
      proof (cases "b \<in> set (kids a)")
        case True
        with kid [OF a(1) True] names [OF a(1) True] c show ?thesis by auto
      qed (use b ps h'(2) nd(2) in \<open>auto split: if_splits\<close>)
    qed
    moreover have "butlast qs \<noteq> ps @ [c]" if "qs \<noteq> []"
      using leaf(1) [of "last qs"] a(1) append_butlast_last_id [OF that] by fastforce
    then have "nd_parent (h' a) = (if qs = [] then NULL else the (?loc (butlast qs)))"
      using mk_treeD(6) [OF t a(1)] same(3) by simp
    moreover have "fs' qs = fs qs" using fs' False by auto
    then have "case fs' qs of
         None \<Rightarrow> nd_flags (h' a) = FS_DIRECTORY \<and> nd_length (h' a) = 0
       | Some (len, data) \<Rightarrow> nd_flags (h' a) = FS_FILE \<and> nd_length (h' a) = len \<and> nd_data (h' a) = data"
      using mk_treeD(7,8) [OF t a(1)] same(4-6) by (auto split: option.split)
    ultimately show ?thesis using same(1,2) by blast
  qed
  have w1: "?loc [] = Some r" using mk_tree_root [OF t] by simp
  have w2: "dom fs' \<subseteq> dom ?loc" using fs' dom by (auto simp: dom_def)
  have w3: "\<forall>qs d. ?loc (qs @ [d]) \<noteq> None \<longrightarrow> ?loc qs \<noteq> None"
    using mk_tree_prefix [OF t] p by auto
  have w4: "\<forall>qs qs' a. ?loc qs = Some a \<longrightarrow> ?loc qs' = Some a \<longrightarrow> qs = qs'"
    using mk_treeD(9) [OF t] fresh by (auto split: if_splits)
  have "mk_tree r (Suc n) h' ?loc ?kids fs'"
    unfolding mk_tree_def by (intro conjI w1 w2 w3 w4) (intro allI impI, rule node)
  with h'(1) show ?thesis by (rule that)
qed

section \<open>Running the tool\<close>

definition mk_ok :: "mkinitrd \<Rightarrow> (string list \<rightharpoonup> addr) \<Rightarrow> (addr \<Rightarrow> addr list) \<Rightarrow> (string list \<rightharpoonup> u32 \<times> addr) \<Rightarrow> bool" where
  "mk_ok m loc kids fs = (mk_tree (mk_root m) (p_node m) (mk_nodes m) loc kids fs \<and>
     block_ok (mk_root m) (mk_room m) \<and> p_node m \<le> mk_room m)"

lemma strcpy_at_text: "is_text s \<Longrightarrow> strcpy_at dest d (s @ NUL # r) = strcpy_at dest d (cstr s)"
proof (induction s arbitrary: dest d)
  case (Cons c s)
  then show ?case by (cases "writeE dest d c") simp_all
qed simp

lemma strcpy_text:
  "is_text s \<Longrightarrow> length s < length dest \<Longrightarrow>
    strcpy dest (s @ NUL # r) = Inr (s @ NUL # drop (Suc (length s)) dest, Suc (length s))"
  by (simp add: strcpy_def strcpy_at_text strcpy_at_eq) (simp add: cstr_def)

lemma new_name_length: "length (nd_name (VFS_NODE_INITIALIZER f)) = 256"
  by (simp add: VFS_NODE_INITIALIZER_def)

lemma block_ok_mono: "block_ok r n \<Longrightarrow> k \<le> n \<Longrightarrow> block_ok r k"
proof -
  assume "block_ok r n" "k \<le> n"
  moreover from this(2) have "k * sizeof_vfs_node \<le> n * sizeof_vfs_node" by simp
  ultimately show ?thesis unfolding block_ok_def by linarith
qed

text \<open>A new child, directory or file.\<close>

lemma add_child_run:
  assumes m: "mk_ok m loc kids fs" and p: "loc ps = Some p" and c: "loc (ps @ [c]) = None"
    and room: "p_node m < mk_room m" and nm: "nm = c @ NUL # z" "is_text c" "length c \<le> MAX_PATH"
    and fs': "fs' = fs \<and> f = FS_DIRECTORY \<and> len = 0 \<or> fs' = fs(ps @ [c] \<mapsto> (len, data)) \<and> f = FS_FILE"
  obtains m1 m' kids' where "new_node f m = Inr (slot (mk_root m) (p_node m), m1)"
    "add_child nm p (slot (mk_root m) (p_node m)) len data m1 = Some (Inr m')"
    "mk_ok m' (loc(ps @ [c] \<mapsto> slot (mk_root m) (p_node m))) kids' fs'"
    "mk_root m' = mk_root m" "mk_room m' = mk_room m" "p_node m' = p_node m + 1"
proof -
  let ?r = "mk_root m" and ?n = "p_node m" and ?h = "mk_nodes m"
  let ?new = "slot ?r ?n" and ?i = "VFS_NODE_INITIALIZER f"
  let ?m1 = "m\<lparr>mk_nodes := ?h(?new := ?i), p_node := ?n + 1\<rparr>"
  let ?nm = "c @ NUL # drop (Suc (length c)) (nd_name ?i)"
  let ?nd = "?i\<lparr>nd_name := ?nm, nd_length := len, nd_data := data, nd_parent := p\<rparr>"
  have t: "mk_tree ?r ?n ?h loc kids fs" "block_ok ?r ?n"
    using m block_ok_mono by (auto simp: mk_ok_def)
  have len: "length c < 256" using nm(3) by (simp add: MAX_PATH_def)
  have cp: "strcpy (nd_name (mk_nodes ?m1 ?new)) nm = Inr (?nm, Suc (length c))"
    using strcpy_text [OF nm(2), of "nd_name ?i" z] len unfolding nm(1) new_name_length by simp
  have nd: "plain_node ?nd" "text_of (nd_name ?nd) = c" "nd_ptr ?nd = NULL" "nd_next ?nd = NULL"
      "nd_parent ?nd = p" "nd_length ?nd = len" "nd_data ?nd = data" "nd_flags ?nd = f"
    using len nm(2) by (simp_all add: plain_node_def text_of_append new_name_length)
      (simp_all add: VFS_NODE_INITIALIZER_def)
  have "fs' = fs \<and> nd_flags ?nd = FS_DIRECTORY \<and> nd_length ?nd = 0 \<or>
      fs' = fs(ps @ [c] \<mapsto> (nd_length ?nd, nd_data ?nd)) \<and> nd_flags ?nd = FS_FILE"
    using fs' unfolding nd(6-8) .
  from mk_tree_insert [OF t p c nd(1-5) this] obtain h' where
    h': "link_child p ?new (?h(?new := ?nd)) = Some h'"
      "mk_tree ?r (Suc ?n) h' (loc(ps @ [c] \<mapsto> ?new)) (kids(p := kids p @ [?new], ?new := [])) fs'" .
  have "new_node f m = Inr (?new, ?m1)" using room by (simp add: new_node_def Let_def)
  moreover have "add_child nm p ?new len data ?m1 = Some (Inr (?m1\<lparr>mk_nodes := h'\<rparr>))"
    using cp h'(1) by (simp add: add_child_def Let_def)
  moreover have "mk_ok (?m1\<lparr>mk_nodes := h'\<rparr>) (loc(ps @ [c] \<mapsto> ?new)) (kids(p := kids p @ [?new], ?new := [])) fs'"
    using h'(2) m room by (simp add: mk_ok_def)
  ultimately show ?thesis by (rule that) simp_all
qed

lemma enter_dir_run:
  assumes m: "mk_ok m loc kids fs" and p: "loc ps = Some p" and room: "p_node m < mk_room m"
    and nm: "nm = c @ NUL # z" "is_text c" "length c \<le> MAX_PATH"
  obtains k a m' loc' kids' where "enter_dir nm p m = Some (Inr (k, a, m'))" "mk_ok m' loc' kids' fs"
    "loc' (ps @ [c]) = Some a" "loc \<subseteq>\<^sub>m loc'" "dom loc' = insert (ps @ [c]) (dom loc)"
    "mk_root m' = mk_root m" "mk_room m' = mk_room m" "p_node m' = p_node m + k" "k \<le> 1"
proof -
  have t: "mk_tree (mk_root m) (p_node m) (mk_nodes m) loc kids fs" using m by (simp add: mk_ok_def)
  have "find_named (mk_nodes m) (Some nm) (nd_ptr (mk_nodes m p)) =
      Some (Inr (case loc (ps @ [c]) of None \<Rightarrow> NULL | Some a \<Rightarrow> a))"
    using find_named_cells [OF mk_treeD(3) [OF t p], of nm] mk_treeD(4) [OF t p, of c]
      mk_treeD(2) [OF t mk_treeD(5) [OF t p]] nm
    by (simp add: text_of_append plain_node_def)
  note found = this
  show ?thesis
  proof (cases "loc (ps @ [c])")
    case None
    obtain m1 m' kids' where "new_node FS_DIRECTORY m = Inr (slot (mk_root m) (p_node m), m1)"
      "add_child nm p (slot (mk_root m) (p_node m)) 0 0 m1 = Some (Inr m')"
      "mk_ok m' (loc(ps @ [c] \<mapsto> slot (mk_root m) (p_node m))) kids' fs"
      "mk_root m' = mk_root m" "mk_room m' = mk_room m" "p_node m' = p_node m + 1"
      by (rule add_child_run [OF m p None room nm, of fs FS_DIRECTORY 0 0]) simp_all
    moreover have "loc \<subseteq>\<^sub>m loc(ps @ [c] \<mapsto> slot (mk_root m) (p_node m))" using None by (auto simp: map_le_def)
    ultimately show ?thesis
      using found None by (intro that [of 1 _ m' "loc(ps @ [c] \<mapsto> slot (mk_root m) (p_node m))"])
        (auto simp: enter_dir_def)
  next
    case (Some a)
    have "a \<noteq> NULL"
      using mk_treeD(1) [OF t Some] slot_not_NULL [of "mk_root m" "mk_room m"] m by (auto simp: mk_ok_def)
    then show ?thesis
      using found Some m by (intro that [of 0 a m loc kids]) (auto simp: enter_dir_def)
  qed
qed

text \<open>A path with or without the leading slash, and the names on it.\<close>

definition names_path :: "string \<Rightarrow> string list \<Rightarrow> bool" where
  "names_path p ns = (ns \<noteq> [] \<and> list_all plain_name ns \<and> length (path_of ns) \<le> MAX_PATH \<and>
     (p = path_of ns \<or> p = tl (path_of ns)))"

lemma names_path_simps:
  assumes "names_path p ns"
  shows "components p = ns" "is_text p" "length p \<le> MAX_PATH"
proof -
  obtain n ms where ns: "ns = n # ms" using assms by (cases ns) (auto simp: names_path_def)
  have plain: "list_all plain_name ns" using assms by (simp add: names_path_def)
  have "strip_slash p = tl (path_of ns)"
    using assms ns by (cases n) (auto simp: names_path_def path_of_def strip_slash_def plain_name_def)
  moreover have "strip_slash (path_of ns) = tl (path_of ns)" by (simp add: ns path_of_def strip_slash_def)
  ultimately show "components p = ns"
    using components_path_of [OF plain] ns by (simp add: components_def)
  have "is_text (path_of ns)" using plain by (auto simp: path_of_def list_all_iff plain_name_def is_text_def)
  moreover have "path_of ns = CHR ''/'' # tl (path_of ns)" by (simp add: ns path_of_def)
  ultimately have "is_text (tl (path_of ns))" by (metis is_text_simps(2))
  then show "is_text p" "length p \<le> MAX_PATH"
    using assms \<open>is_text (path_of ns)\<close> by (auto simp: names_path_def)
qed

lemma back_to_slash_eq:
  assumes "CHR ''/'' \<notin> set v" "u = [] \<or> last u = CHR ''/''"
  shows "back_to_slash (u @ v @ w) (length u + length v) = length u"
  using assms
proof (induction v arbitrary: w rule: rev_induct)
  case Nil
  then show ?case by (cases u rule: rev_cases) auto
next
  case (snoc c v)
  then show ?case using snoc.IH [of "c # w"] by (auto simp: nth_append)
qed

lemma filename_run:
  assumes "names_path p ns"
  shows "filename (cstr p) = Inr (cstr (last ns))"
proof -
  have ns: "ns = butlast ns @ [last ns]" "list_all plain_name ns"
    using assms by (simp_all add: names_path_def)
  then have "last ns \<in> set ns" by (metis last_in_set snoc_eq_iff_butlast)
  then have v: "CHR ''/'' \<notin> set (last ns)" using ns(2) by (simp add: list_all_iff plain_name_def)
  have po: "path_of ns = (path_of (butlast ns) @ ''/'') @ last ns"
    by (subst ns(1)) (simp add: path_of_def)
  have "\<exists>u. p = u @ last ns \<and> (u = [] \<or> last u = CHR ''/'')"
  proof (cases "p = path_of ns")
    case True
    with po show ?thesis by (intro exI [of _ "path_of (butlast ns) @ ''/''"]) simp
  next
    case False
    then have "p = tl ((path_of (butlast ns) @ ''/'') @ last ns)"
      using assms unfolding po [symmetric] by (simp add: names_path_def)
    also have "\<dots> = tl (path_of (butlast ns) @ ''/'') @ last ns" by (rule tl_append2) simp
    finally have "p = tl (path_of (butlast ns) @ ''/'') @ last ns" .
    moreover have "tl (path_of (butlast ns) @ ''/'') = [] \<or> last (tl (path_of (butlast ns) @ ''/'')) = CHR ''/''"
      by (cases "path_of (butlast ns)") auto
    ultimately show ?thesis by blast
  qed
  then obtain u where u: "p = u @ last ns" "u = [] \<or> last u = CHR ''/''" by blast
  have "skip_text 0 (cstr p) = Inr (length p)"
    using skip_text_cstr [OF names_path_simps(2) [OF assms], of 0 "[]"] by (simp add: cstr_def)
  then show ?thesis
    using back_to_slash_eq [OF v u(2), of "[NUL]"] u(1) by (simp add: filename_def cstr_def)
qed

lemma count_levels_run:
  assumes "names_path p ns" "length buf = MAX_PATH + 1" "l \<le> length ns"
  obtains buf' where "count_levels (cstr p) l buf = Some (Inr (length ns, buf'))" "length buf' = MAX_PATH + 1"
proof -
  have "\<exists>buf'. count_levels (cstr p) l buf = Some (Inr (length ns, buf')) \<and> length buf' = MAX_PATH + 1"
    using assms(2,3)
  proof (induction "length ns - l" arbitrary: l buf)
    case 0
    then have "get_path_level (cstr p) l buf = Inr None"
      using level_component(2) [of p buf "of_nat l"] names_path_simps [OF assms(1)] length_components [of p]
      by (simp add: get_path_level_def unat_of_nat_u32 MAX_PATH_def)
    then show ?case using 0 by (subst count_levels.simps) simp
  next
    case (Suc k)
    let ?c = "ns ! l"
    have l: "l < length ns" "unat (of_nat l :: u32) = l"
      using Suc names_path_simps [OF assms(1)] length_components [of p] by (auto simp: MAX_PATH_def unat_of_nat_u32)
    have "length ?c \<le> MAX_PATH"
      using l(1) components_length [of ?c p] names_path_simps [OF assms(1)] by auto
    moreover have "get_path_level (cstr p) l buf = Inr (Some (?c @ NUL # drop (length ?c + 1) buf))"
      using level_component(1) [of p buf "of_nat l"] names_path_simps [OF assms(1)] Suc.prems(1) l
      by (simp add: get_path_level_def)
    ultimately show ?case
      using Suc.hyps(1) [of "l + 1" "?c @ NUL # drop (length ?c + 1) buf"] Suc.hyps(2) Suc.prems l(1)
      by (subst count_levels.simps) simp
  qed
  then show ?thesis using that by blast
qed

end
