(* ===== verification/Initrd_Image.thy ===== *)
theory Initrd_Image
  imports Initrd
begin

text \<open>
  From the arguments of \<open>mkinitrd\<close> to the files the kernel reads: the run of the tool over all its
  arguments, the image, and the tree that \<open>initrd_init\<close> makes of it.
\<close>

section \<open>Running the tool\<close>

text \<open>The directories of a path have been added: \<open>j\<close> new nodes, none elsewhere.\<close>

definition grown :: "string list \<Rightarrow> mkinitrd \<Rightarrow> (string list \<rightharpoonup> addr) \<Rightarrow> nat \<Rightarrow> mkinitrd \<Rightarrow>
    (string list \<rightharpoonup> addr) \<Rightarrow> bool" where
  "grown ns m loc j m' loc' = (loc \<subseteq>\<^sub>m loc' \<and> dom loc' \<subseteq> dom loc \<union> {qs. prefix qs (butlast ns)} \<and>
     mk_root m' = mk_root m \<and> mk_room m' = mk_room m \<and> p_node m' = p_node m + j)"

lemma grown_refl: "grown ns m loc 0 m loc"
  by (simp add: grown_def)

lemma grown_trans: "grown ns m loc i m1 loc1 \<Longrightarrow> grown ns m1 loc1 j m' loc' \<Longrightarrow> grown ns m loc (i + j) m' loc'"
  unfolding grown_def by (elim conjE, intro conjI) (erule (1) map_le_trans, blast, simp_all)

lemma prefix_take_butlast: "Suc k < length ns \<Longrightarrow> prefix (take (Suc k) ns) (butlast ns)"
  by (metis Suc_leI butlast_conv_take diff_Suc_1 le_diff_conv2 min.absorb1 take_is_prefix take_take
      Suc_eq_plus1 le_add2 less_imp_le_nat order.trans)

lemma parent_loop_run:
  assumes "names_path p ns" "mk_ok m loc kids fs" "loc (take k ns) = Some node" "k < length ns"
    and "length (ns ! k @ NUL # z) = MAX_PATH + 1" "p_node m + (length ns - Suc k) \<le> mk_room m"
  shows "\<exists>j node' m' loc' kids'.
    parent_loop (cstr p) (length ns) (Suc k) (Some (ns ! k @ NUL # z)) c node m = Some (Inr (c + j, node', m')) \<and>
    mk_ok m' loc' kids' fs \<and> loc' (butlast ns) = Some node' \<and> grown ns m loc j m' loc' \<and> j \<le> length ns - Suc k"
  using assms(2-6)
proof (induction "length ns - Suc k" arbitrary: k z c node m loc kids)
  case 0
  have "plain_name (ns ! k)" using assms(1) "0.prems"(3) by (auto simp: names_path_def list_all_length)
  then have "parent_loop (cstr p) (length ns) (Suc k) (Some (ns ! k @ NUL # z)) c node m = Some (Inr (c + 0, node, m))"
    using 0 by (subst parent_loop.simps) simp
  moreover have "k = length ns - 1" using 0 by simp
  then have "take k ns = butlast ns" by (simp only: butlast_conv_take)
  ultimately show ?case using "0.prems"(1,2) grown_refl by fastforce
next
  case (Suc d)
  let ?nm = "ns ! k @ NUL # z" and ?c' = "ns ! Suc k"
  have k: "Suc k < length ns" "take (Suc k) ns = take k ns @ [ns ! k]"
    using Suc.hyps(2) Suc.prems(3) by (simp_all add: take_Suc_conv_app_nth)
  have plain: "plain_name (ns ! k)" "plain_name ?c'"
    using assms(1) k(1) by (auto simp: names_path_def list_all_length)
  have hd: "hd (ns ! k) \<noteq> NUL" using plain(1) by (cases "ns ! k") (auto simp: plain_name_def)
  have short: "length x \<le> MAX_PATH" if "x \<in> set ns" for x
    using that components_length [of x p] names_path_simps [OF assms(1)] by auto
  have c: "p_node m < mk_room m" "is_text (ns ! k)" "length (ns ! k) \<le> MAX_PATH"
    using Suc plain short k(1) by (auto simp: plain_name_def)
  obtain i a m1 loc1 kids1 where e: "enter_dir ?nm node m = Some (Inr (i, a, m1))" "mk_ok m1 loc1 kids1 fs"
      "loc1 (take (Suc k) ns) = Some a" "loc \<subseteq>\<^sub>m loc1" "dom loc1 = insert (take (Suc k) ns) (dom loc)"
      "mk_root m1 = mk_root m" "mk_room m1 = mk_room m" "p_node m1 = p_node m + i" "i \<le> 1"
    unfolding k(2) by (rule enter_dir_run [OF Suc.prems(1,2) c(1) refl c(2,3)])
  then have g: "grown ns m loc i m1 loc1"
    using prefix_take_butlast [OF k(1)] by (auto simp: grown_def)
  define z' where "z' = drop (Suc (length ?c')) ?nm"
  let ?nm' = "?c' @ NUL # z'"
  have nxt: "get_path_level (cstr p) (Suc k) ?nm = Inr (Some ?nm')"
    using next_component [of p ?nm k] names_path_simps [OF assms(1)] Suc.prems(4) k(1)
    by (simp add: get_path_level_def z'_def del: of_nat_Suc)
  have len: "length ?nm' = MAX_PATH + 1" using short [of ?c'] k(1) Suc.prems(4) by (simp add: z'_def)
  have room: "p_node m1 + (length ns - Suc (Suc k)) \<le> mk_room m1" using e Suc.prems(5) k(1) by simp
  have "d = length ns - Suc (Suc k)" using Suc.hyps(2) by simp
  from Suc.hyps(1) [OF this e(2,3) k(1) len room, of "c + i"] obtain j node' m' loc' kids' where r:
    "parent_loop (cstr p) (length ns) (Suc (Suc k)) (Some ?nm') (c + i) a m1 = Some (Inr (c + i + j, node', m'))"
    "mk_ok m' loc' kids' fs" "loc' (butlast ns) = Some node'" "grown ns m1 loc1 j m' loc'"
    "j \<le> length ns - Suc (Suc k)"
    by blast
  have "parent_loop (cstr p) (length ns) (Suc k) (Some ?nm) c node m =
      parent_loop (cstr p) (length ns) (Suc (Suc k)) (Some ?nm') (c + i) a m1"
    using e(1) nxt k(1) plain(1) hd by (subst parent_loop.simps) (auto simp: plain_name_def)
  moreover have "i + j \<le> length ns - Suc k" using r(5) e(9) Suc.hyps(2) by simp
  ultimately show ?case
    using r(1-3) grown_trans [OF g r(4)]
    by (intro exI [of _ "i + j"] exI [of _ node'] exI [of _ m'] exI [of _ loc'] exI [of _ kids'])
      (simp only: add.assoc simp_thms)
qed

lemma find_parent_run:
  assumes "names_path p ns" "mk_ok m loc kids fs" "p_node m + (length ns - 1) \<le> mk_room m"
  obtains j node m' loc' kids' where "find_parent (cstr p) m = Some (Inr (j, node, m'))" "mk_ok m' loc' kids' fs"
    "loc' (butlast ns) = Some node" "grown ns m loc j m' loc'" "j \<le> length ns - 1"
proof -
  have ns: "0 < length ns" using assms(1) by (simp add: names_path_def)
  have root: "loc (take 0 ns) = Some (mk_root m)" using assms(2) mk_tree_root by (auto simp: mk_ok_def)
  obtain buf where buf: "count_levels (cstr p) 0 (replicate (MAX_PATH + 1) NUL) = Some (Inr (length ns, buf))"
      "length buf = MAX_PATH + 1"
    by (rule count_levels_run [OF assms(1) length_replicate le0])
  define z where "z = drop (Suc (length (ns ! 0))) buf"
  have "length (ns ! 0) \<le> MAX_PATH"
    using components_length [of "ns ! 0" p] names_path_simps [OF assms(1)] ns by auto
  then have len: "length (ns ! 0 @ NUL # z) = MAX_PATH + 1" using buf(2) by (simp add: z_def)
  have "get_path_level (cstr p) 0 buf = Inr (Some (ns ! 0 @ NUL # z))"
    using level_component(1) [of p buf 0] names_path_simps [OF assms(1)] buf(2) ns
    by (simp add: get_path_level_def z_def)
  then have "find_parent (cstr p) m =
      parent_loop (cstr p) (length ns) (Suc 0) (Some (ns ! 0 @ NUL # z)) 0 (mk_root m) m"
    using buf(1) by (simp add: find_parent_def)
  then show ?thesis
    using parent_loop_run [OF assms(1,2) root ns len, of 0] assms(3) that by fastforce
qed

text \<open>Two paths such that neither leads through the other.\<close>

definition apart :: "string list \<Rightarrow> string list \<Rightarrow> bool" where
  "apart ns qs = (\<not> prefix ns qs \<and> \<not> prefix qs ns)"

text \<open>Every path of the tree leads to a file.\<close>

definition covers :: "(string list \<rightharpoonup> addr) \<Rightarrow> (string list \<rightharpoonup> u32 \<times> addr) \<Rightarrow> bool" where
  "covers loc fs = (dom loc \<subseteq> insert [] {qs. \<exists>ns \<in> dom fs. prefix qs ns})"

text \<open>What one argument pair stands for: the file, its path, the names on it and its contents.\<close>

type_synonym entry = "string \<times> string \<times> string list \<times> u8 list"

definition entry_ok :: "(string \<Rightarrow> u8 list option) \<Rightarrow> entry \<Rightarrow> bool" where
  "entry_ok files e = (case e of (path, p, ns, content) \<Rightarrow> names_path p ns \<and> files path = Some content \<and>
     length content < 2 ^ 32)"

fun layout :: "addr \<Rightarrow> entry list \<Rightarrow> (string list \<rightharpoonup> u32 \<times> addr) \<Rightarrow> (string list \<rightharpoonup> u32 \<times> addr)" where
  "layout offset [] fs = fs"
| "layout offset ((path, p, ns, content) # es) fs =
     layout (offset + of_nat (length content)) es (fs(ns \<mapsto> (of_nat (length content), offset)))"

lemma add_file_run:
  assumes "entry_ok files (path, p, ns, content)" "mk_ok m loc kids fs" "covers loc fs"
    and "\<And>qs. qs \<in> dom fs \<Longrightarrow> apart ns qs" "p_node m + length ns \<le> mk_room m"
  obtains c node m1 m' loc' kids' where "find_parent (cstr p) m = Some (Inr (c, node, m1))" "node \<noteq> NULL"
    "add_file (cstr p) content offset node m1 = Some (Inr m')"
    "mk_ok m' loc' kids' (fs(ns \<mapsto> (of_nat (length content), offset)))"
    "covers loc' (fs(ns \<mapsto> (of_nat (length content), offset)))"
    "mk_root m' = mk_root m" "mk_room m' = mk_room m" "p_node m' = p_node m + c + 1" "c + 1 \<le> length ns"
proof -
  let ?fs = "fs(ns \<mapsto> (of_nat (length content), offset))"
  have np: "names_path p ns" using assms(1) by (simp add: entry_ok_def)
  then have ns: "ns = butlast ns @ [last ns]" "plain_name (last ns)" "ns \<noteq> []"
    by (auto simp: names_path_def list_all_iff)
  obtain c node m1 loc1 kids1 where f: "find_parent (cstr p) m = Some (Inr (c, node, m1))" "mk_ok m1 loc1 kids1 fs"
      "loc1 (butlast ns) = Some node" "grown ns m loc c m1 loc1" "c \<le> length ns - 1"
    by (rule find_parent_run [OF np assms(2)]) (use assms(5) in simp)
  have "ns \<notin> dom loc1"
  proof
    assume "ns \<in> dom loc1"
    then have "ns \<in> dom loc \<or> prefix ns (butlast ns)" using f(4) by (auto simp: grown_def)
    moreover have "\<not> prefix ns (butlast ns)" using ns(3) prefix_length_le [of ns "butlast ns"] by (cases ns) auto
    ultimately show False using assms(3,4) ns(3) by (fastforce simp: covers_def apart_def)
  qed
  then have none: "loc1 (butlast ns @ [last ns]) = None" using ns(1) by auto
  have short: "length (last ns) \<le> MAX_PATH" "is_text (last ns)" "cstr (last ns) = last ns @ NUL # []"
    using components_length [of "last ns" p] names_path_simps [OF np] ns by (auto simp: plain_name_def cstr_def)
  have lt: "0 < length ns" using ns(3) by simp
  have room: "p_node m1 < mk_room m1" using f(4,5) assms(5) lt unfolding grown_def by linarith
  have fs: "?fs = fs \<and> FS_FILE = FS_DIRECTORY \<and> (of_nat (length content) :: u32) = 0 \<or>
      ?fs = fs(butlast ns @ [last ns] \<mapsto> (of_nat (length content), offset)) \<and> FS_FILE = FS_FILE"
    using ns(1) by simp
  obtain m2 m' kids' where a: "new_node FS_FILE m1 = Inr (slot (mk_root m1) (p_node m1), m2)"
      "add_child (cstr (last ns)) node (slot (mk_root m1) (p_node m1)) (of_nat (length content)) offset m2 = Some (Inr m')"
      "mk_ok m' (loc1(butlast ns @ [last ns] \<mapsto> slot (mk_root m1) (p_node m1))) kids' ?fs"
      "mk_root m' = mk_root m1" "mk_room m' = mk_room m1" "p_node m' = p_node m1 + 1"
    by (rule add_child_run [OF f(2,3) none room short(3,2,1) fs])
  have t1: "mk_tree (mk_root m1) (p_node m1) (mk_nodes m1) loc1 kids1 fs" "block_ok (mk_root m1) (p_node m1)"
    using f(2) block_ok_mono by (auto simp: mk_ok_def)
  from mk_treeD(1) [OF t1(1) f(3)] obtain i where "i < p_node m1" "node = slot (mk_root m1) i" by blast
  then have "node \<noteq> NULL" using slot_not_NULL [OF t1(2), of i] by simp
  moreover have "add_file (cstr p) content offset node m1 = Some (Inr m')"
    using a(1,2) filename_run [OF np] by (simp add: add_file_def)
  moreover have "covers (loc1(butlast ns @ [last ns] \<mapsto> slot (mk_root m1) (p_node m1))) ?fs"
  proof -
    have pre: "prefix qs ns" if "prefix qs (butlast ns)" for qs
      using that prefixI [OF ns(1)] by (rule prefix_order.trans)
    have "qs = [] \<or> (\<exists>vs \<in> dom ?fs. prefix qs vs)"
      if "qs \<in> dom (loc1(butlast ns @ [last ns] \<mapsto> slot (mk_root m1) (p_node m1)))" for qs
    proof -
      have "qs = ns \<or> qs \<in> dom loc1" using that ns(1) by (auto split: if_splits)
      then have "prefix qs ns \<or> qs \<in> dom loc" using f(4) pre by (auto simp: grown_def)
      then show ?thesis
      proof
        assume "qs \<in> dom loc"
        then have "qs = [] \<or> (\<exists>vs \<in> dom fs. prefix qs vs)" using assms(3) by (auto simp: covers_def)
        then show ?thesis by auto
      qed (simp add: bexI [of _ ns])
    qed
    then show ?thesis unfolding covers_def by blast
  qed
  moreover have "c + 1 \<le> length ns" using f(5) lt by linarith
  ultimately show ?thesis
    using that [OF f(1) _ _ a(3)] a(4-6) f(4) by (simp add: grown_def)
qed

abbreviation entry_names :: "entry \<Rightarrow> string list" where
  "entry_names e \<equiv> fst (snd (snd e))"

abbreviation entry_content :: "entry \<Rightarrow> u8 list" where
  "entry_content e \<equiv> snd (snd (snd e))"

definition entry_args :: "entry list \<Rightarrow> (string \<times> string) list" where
  "entry_args es = map (\<lambda>(path, p, _). (path, cstr p)) es"

definition entries_apart :: "entry list \<Rightarrow> bool" where
  "entries_apart es = sorted_wrt (\<lambda>e e'. apart (entry_names e) (entry_names e')) es"

lemma apart_sym: "apart ns qs \<Longrightarrow> apart qs ns"
  by (simp add: apart_def)

lemma add_files_run:
  assumes "\<And>e. e \<in> set es \<Longrightarrow> entry_ok files e" "entries_apart es" "mk_ok m loc kids fs" "covers loc fs"
    and "\<And>e qs. e \<in> set es \<Longrightarrow> qs \<in> dom fs \<Longrightarrow> apart (entry_names e) qs"
    and "p_node m + sum_list (map (\<lambda>e. length (entry_names e)) es) \<le> mk_room m"
  shows "\<exists>m' loc' kids'. add_files files (entry_args es) offset (p_node m) m = Some (Inr (Some (p_node m', m'))) \<and>
    mk_ok m' loc' kids' (layout offset es fs) \<and> covers loc' (layout offset es fs) \<and>
    mk_root m' = mk_root m \<and> mk_room m' = mk_room m"
  using assms
proof (induction es arbitrary: offset m loc kids fs)
  case Nil
  then show ?case by (auto simp: entry_args_def)
next
  case (Cons e es)
  obtain path p ns content where e: "e = (path, p, ns, content)" by (metis prod.exhaust)
  have ok: "entry_ok files (path, p, ns, content)" using Cons.prems(1) e by simp
  then have fl: "files path = Some content" by (simp add: entry_ok_def)
  let ?fs = "fs(ns \<mapsto> (of_nat (length content), offset))"
  have apart: "\<And>qs. qs \<in> dom fs \<Longrightarrow> apart ns qs" using Cons.prems(5) [of e] e by simp
  have "p_node m + length ns \<le> mk_room m" using Cons.prems(6) e by simp
  from add_file_run [OF ok Cons.prems(3,4) apart this, of offset]
  obtain c node m1 m2 loc2 kids2 where a: "find_parent (cstr p) m = Some (Inr (c, node, m1))" "node \<noteq> NULL"
      "add_file (cstr p) content offset node m1 = Some (Inr m2)" "mk_ok m2 loc2 kids2 ?fs" "covers loc2 ?fs"
      "mk_root m2 = mk_root m" "mk_room m2 = mk_room m" "p_node m2 = p_node m + c + 1" "c + 1 \<le> length ns"
    by metis
  have ap: "apart (entry_names e') ns" if "e' \<in> set es" for e'
    using Cons.prems(2) that e apart_sym by (auto simp: entries_apart_def)
  have es: "entries_apart es" using Cons.prems(2) by (simp add: entries_apart_def)
  have oks: "\<And>e'. e' \<in> set es \<Longrightarrow> entry_ok files e'" using Cons.prems(1) by (meson list.set_intros(2))
  have aps: "apart (entry_names e') qs" if "e' \<in> set es" "qs \<in> dom ?fs" for e' qs
    using that(2) ap [OF that(1)] Cons.prems(5) [of e' qs] that(1) by (cases "qs = ns") auto
  have "p_node m2 + sum_list (map (\<lambda>e. length (entry_names e)) es) \<le> mk_room m2"
    using Cons.prems(6) a(7-9) e by simp
  from Cons.IH [OF oks es a(4,5) aps this, of "offset + of_nat (length content)"]
  obtain m' loc' kids' where r:
    "add_files files (entry_args es) (offset + of_nat (length content)) (p_node m2) m2 = Some (Inr (Some (p_node m', m')))"
    "mk_ok m' loc' kids' (layout (offset + of_nat (length content)) es ?fs)"
    "covers loc' (layout (offset + of_nat (length content)) es ?fs)" "mk_root m' = mk_root m2" "mk_room m' = mk_room m2"
    by blast
  have "add_files files (entry_args (e # es)) offset (p_node m) m =
      add_files files (entry_args es) (offset + of_nat (length content)) (p_node m2) m2"
    using a(1-3,8) fl e by (simp add: entry_args_def)
  then show ?case using r a(6,7) e by auto
qed

text \<open>Where the layout puts a file, and where its contents are in the data of the image.\<close>

lemma layout_other: "ns \<notin> set (map entry_names es) \<Longrightarrow> layout offset es fs ns = fs ns"
  by (induction offset es fs rule: layout.induct) auto

lemma dom_layout: "dom (layout offset es fs) = dom fs \<union> set (map entry_names es)"
proof (induction offset es fs rule: layout.induct)
  case (2 offset path p ns content es fs)
  then show ?case by (simp only: layout.simps dom_fun_upd) auto
qed simp

lemma layout_entry:
  assumes "entries_apart (us @ e # vs)"
  shows "layout offset (us @ e # vs) fs (entry_names e) =
    Some (of_nat (length (entry_content e)), offset + of_nat (length (concat (map entry_content us))))"
  using assms
proof (induction us arbitrary: offset fs)
  case Nil
  obtain path p ns content where e: "e = (path, p, ns, content)" by (metis prod.exhaust)
  have "ns \<notin> set (map entry_names vs)" using Nil e by (auto simp: entries_apart_def apart_def)
  then show ?case by (simp add: e layout_other)
next
  case (Cons u us)
  obtain path p ns content where u: "u = (path, p, ns, content)" by (metis prod.exhaust)
  have "entries_apart (us @ e # vs)" using Cons.prems by (simp add: entries_apart_def)
  then show ?case using Cons.IH by (simp add: u ac_simps)
qed

end
