(* ===== verification/Initrd_Mount.thy ===== *)
theory Initrd_Mount
  imports Initrd_Image
begin

text \<open>
  The initial ram disk from end to end: the image that the tool writes, put anywhere in memory and
  mounted by the kernel, shows every file under its path with its contents.  Both sides move the
  links between nodes, the tool from its block to offsets and the kernel from offsets to pointers;
  \<open>moved\<close> is the composition.
\<close>

section \<open>Moving links\<close>

definition moved :: "addr \<Rightarrow> addr \<Rightarrow> addr \<Rightarrow> addr" where
  "moved r R p = (if p = NULL then NULL else p - r + R)"

lemma moved_NULL [simp]: "moved r R NULL = NULL"
  by (simp add: moved_def)

lemma moved_slot: "block_ok r n \<Longrightarrow> i \<le> n \<Longrightarrow> moved r R (slot r i) = slot R i"
  using slot_not_NULL [of r n i] by (simp add: moved_def) (simp add: slot_def)

lemma moved_back: "p \<noteq> NULL \<Longrightarrow> moved r R p \<noteq> NULL \<Longrightarrow> moved R r (moved r R p) = p"
  by (auto simp: moved_def)

lemma link_NULL [simp]: "add_offset offset (link_offset r NULL) = NULL"
  by (simp add: add_offset_def link_offset_def)

lemma mk_tree_prefixes:
  assumes "mk_tree r n h loc kids fs" "loc (us @ vs) = Some x"
  shows "\<exists>e. loc us = Some e"
  using assms(2)
proof (induction vs arbitrary: x rule: rev_induct)
  case (snoc v vs)
  then show ?case using mk_tree_prefix [OF assms(1), of "us @ vs" v x] by auto
qed simp

lemma link_moved:
  assumes "block_ok r n" "block_ok (offset + of_nat sizeof_initrd_header) n" "p = NULL \<or> (\<exists>i < n. p = slot r i)"
  shows "add_offset offset (link_offset r p) = moved r (offset + of_nat sizeof_initrd_header) p"
proof (cases "p = NULL")
  case False
  then obtain i where i: "i < n" "p = slot r i" using assms(3) by blast
  have "i * sizeof_vfs_node + sizeof_vfs_node \<le> n * sizeof_vfs_node"
    using mult_le_mono1 [of "Suc i" n sizeof_vfs_node] i(1) by simp
  then have "i * sizeof_vfs_node + sizeof_initrd_header < 2 ^ 32"
    using assms(1) by (simp add: block_ok_def sizeof_vfs_node_def sizeof_initrd_header_def)
  then have "unat (of_nat (i * sizeof_vfs_node + sizeof_initrd_header) :: u32) =
      i * sizeof_vfs_node + sizeof_initrd_header" by (rule unat_of_nat_u32)
  then have "(of_nat (i * sizeof_vfs_node + sizeof_initrd_header) :: u32) \<noteq> 0"
    by (metis add_is_0 sizeof_initrd_header_def unsigned_0 zero_neq_numeral)
  moreover have "p - r + of_nat sizeof_initrd_header = of_nat (i * sizeof_vfs_node + sizeof_initrd_header)"
    by (simp add: i(2) slot_def)
  ultimately show ?thesis using False by (simp add: add_offset_def link_offset_def moved_def)
qed (simp add: add_offset_def link_offset_def)

lemma chain_map:
  assumes "chain nxt p xs NULL" "\<And>x. x \<in> set xs \<Longrightarrow> nxt' (f x) = f (nxt x) \<and> f x \<noteq> NULL" "f NULL = NULL"
  shows "chain nxt' (f p) (map f xs) NULL"
  using assms by (induction xs arbitrary: p) auto

lemma chain_links:
  "chain nxt p xs NULL \<Longrightarrow> p \<in> insert NULL (set xs) \<and> (\<forall>x \<in> set xs. nxt x \<in> insert NULL (set xs))"
  by (induction xs arbitrary: p) auto

text \<open>The fields of a node that both sides have worked on.\<close>

lemma fixed_fields [simp]:
  "nd_ptr (fix_node rd ofs (relocate_node r d nd)) = add_offset ofs (link_offset r (nd_ptr nd))"
  "nd_next (fix_node rd ofs (relocate_node r d nd)) = add_offset ofs (link_offset r (nd_next nd))"
  "nd_parent (fix_node rd ofs (relocate_node r d nd)) = add_offset ofs (link_offset r (nd_parent nd))"
  "nd_name (fix_node rd ofs (relocate_node r d nd)) = nd_name nd"
  "nd_flags (fix_node rd ofs (relocate_node r d nd)) = nd_flags nd"
  "nd_length (fix_node rd ofs (relocate_node r d nd)) = nd_length nd"
  "nd_lock (fix_node rd ofs (relocate_node r d nd)) = nd_lock nd"
  "nd_open (fix_node rd ofs (relocate_node r d nd)) = nd_open nd"
  "nd_finddir (fix_node rd ofs (relocate_node r d nd)) = nd_finddir nd"
  "nd_length nd \<noteq> 0 \<Longrightarrow> nd_data (fix_node rd ofs (relocate_node r d nd)) = nd_data nd + d + ofs"
  "nd_length nd \<noteq> 0 \<Longrightarrow> nd_read (fix_node rd ofs (relocate_node r d nd)) = rd"
  by (simp_all add: fix_node_def relocate_node_def Let_def word_gt_0)

lemma fix_nodes_run:
  assumes "block_ok R (k + n)"
  shows "nodes (fix_nodes rd ofs n (slot R k) s) a =
    (if \<exists>i. k \<le> i \<and> i < k + n \<and> a = slot R i then fix_node rd ofs (nodes s a) else nodes s a)"
  using assms
proof (induction n arbitrary: k s)
  case (Suc n)
  have next_slot: "slot R k + of_nat sizeof_vfs_node = slot R (Suc k)"
    by (simp add: slot_def algebra_simps)
  have once: "i = k" if "slot R i = slot R k" "i < k + Suc n" for i
    using slot_inj [OF Suc.prems, of i k] that by simp
  have split: "(\<exists>i. k \<le> i \<and> i < k + Suc n \<and> a = slot R i) \<longleftrightarrow>
      a = slot R k \<or> (\<exists>i. Suc k \<le> i \<and> i < Suc k + n \<and> a = slot R i)"
    by (metis Suc_leD Suc_le_eq add_Suc_right add_Suc order_le_less order_refl less_add_Suc1)
  have "\<not> (\<exists>i. Suc k \<le> i \<and> i < Suc k + n \<and> slot R k = slot R i)" using once by fastforce
  then show ?case
    using Suc.IH [of "Suc k" "upd_node (slot R k) (fix_node rd ofs) s"] Suc.prems
    unfolding split by (auto simp: next_slot)
qed auto

section \<open>The mounted tree\<close>

text \<open>The boot loader has put the image at \<open>offset\<close>; the nodes and the data are read there.\<close>

definition loaded :: "image \<Rightarrow> addr \<Rightarrow> (addr \<Rightarrow> initrd_header_t) \<Rightarrow> (addr \<Rightarrow> u8) \<Rightarrow> vfs \<Rightarrow> bool" where
  "loaded img offset headers mem s =
     (let R = offset + of_nat sizeof_initrd_header; n = length (im_nodes img) in
      headers offset = im_header img \<and> block_ok R n \<and>
      (\<forall>i < n. nodes s (slot R i) = im_nodes img ! i) \<and>
      (\<forall>k < length (im_data img). mem (slot R n + of_nat k) = im_data img ! k))"

text \<open>Memory for the root node of the kernel, outside the image.\<close>

definition fresh_node :: "image \<Rightarrow> addr \<Rightarrow> addr \<Rightarrow> vfs \<Rightarrow> bool" where
  "fresh_node img offset new s = (new \<noteq> NULL \<and> length (nd_name (nodes s new)) = 256 \<and>
     (\<forall>i < length (im_nodes img). new \<noteq> slot (offset + of_nat sizeof_initrd_header) i))"

text \<open>\<open>s'\<close> shows the tree of the tool at \<open>R\<close>, with \<open>d\<close> and \<open>ofs\<close> added to the places of the data.\<close>

definition mounted :: "mkinitrd \<Rightarrow> addr \<Rightarrow> addr \<Rightarrow> addr \<Rightarrow> addr \<Rightarrow> vfs \<Rightarrow> bool" where
  "mounted m rd offset d new s' = (vfs_root s' = new \<and>
     vfs_root_mount s' = offset + of_nat sizeof_initrd_header \<and>
     nodes s' new = VFS_NODE_INITIALIZER FS_DIRECTORY \<and> new \<noteq> NULL \<and>
     block_ok (offset + of_nat sizeof_initrd_header) (p_node m) \<and>
     (\<forall>i < p_node m. new \<noteq> slot (offset + of_nat sizeof_initrd_header) i \<and>
        nodes s' (slot (offset + of_nat sizeof_initrd_header) i) =
          fix_node rd offset (relocate_node (mk_root m) d (mk_nodes m (slot (mk_root m) i)))))"

lemma mount_run:
  assumes "loaded (write_image files args (p_node m) m) offset headers mem s"
    "fresh_node (write_image files args (p_node m) m) offset new s"
  shows "\<exists>s'. mount_initrd new rd headers offset s = Inr s' \<and>
    mounted m rd offset (of_nat (sizeof_initrd_header + sizeof_vfs_node * p_node m)) new s'"
proof -
  let ?img = "write_image files args (p_node m) m" and ?R = "offset + of_nat sizeof_initrd_header"
  let ?n = "p_node m"
  let ?d = "of_nat (sizeof_initrd_header + sizeof_vfs_node * p_node m) :: addr"
  have len: "length (im_nodes ?img) = ?n" "hd_sz (im_header ?img) = of_nat ?n"
    by (simp_all add: write_image_def Let_def)
  have nth: "im_nodes ?img ! i = relocate_node (mk_root m) ?d (mk_nodes m (slot (mk_root m) i))" if "i < ?n" for i
    using that by (simp add: write_image_def Let_def)
  have R: "block_ok ?R ?n" "headers offset = im_header ?img"
      "\<And>i. i < ?n \<Longrightarrow> nodes s (slot ?R i) = im_nodes ?img ! i"
    using assms(1) by (simp_all add: loaded_def Let_def len)
  have new: "new \<noteq> NULL" "length (nd_name (nodes s new)) = 256" "\<And>i. i < ?n \<Longrightarrow> new \<noteq> slot ?R i"
    using assms(2) by (simp_all add: fresh_node_def len)
  have "?n < 2 ^ 32"
    using R(1) mult_le_mono2 [of 1 sizeof_vfs_node ?n] by (simp add: block_ok_def sizeof_vfs_node_def)
  then have cnt: "unat (hd_sz (headers offset)) = ?n" using R(2) len(2) unat_of_nat_u32 by simp
  define s1 where "s1 = fix_nodes rd offset ?n (slot ?R 0) s"
  have s1: "nodes s1 a = (if \<exists>i < ?n. a = slot ?R i then fix_node rd offset (nodes s a) else nodes s a)" for a
    using fix_nodes_run [of ?R 0 ?n rd offset s a] R(1) by (simp add: s1_def)
  have "nodes s1 new = nodes s new" using new(3) by (auto simp: s1)
  then obtain x where "strcpy (nd_name (nodes s1 new)) (cstr ''root'') = Inr x"
    using strcpy_text [of "''root''" "nd_name (nodes s new)" "[]"] new(2) by (auto simp: cstr_def)
  moreover have "?R \<noteq> NULL" using R(1) by (simp add: block_ok_def)
  ultimately have "mount_initrd new rd headers offset s = Inr (vfs_switch_root ?R
      (upd_node new (\<lambda>_. VFS_NODE_INITIALIZER FS_DIRECTORY) (s1\<lparr>vfs_root := new\<rparr>)))"
    using new(1) cnt by (simp add: mount_initrd_def initrd_init_def Let_def vfs_init_def s1_def)
  moreover have "nodes s1 (slot ?R i) = fix_node rd offset (relocate_node (mk_root m) ?d (mk_nodes m (slot (mk_root m) i)))"
    if "i < ?n" for i
    using that R(3) nth by (auto simp: s1)
  ultimately show ?thesis
    using new(1,3) R(1) by (intro exI conjI) (assumption, auto simp: mounted_def vfs_switch_root_def)
qed

definition mounted_kids :: "mkinitrd \<Rightarrow> (addr \<Rightarrow> addr list) \<Rightarrow> addr \<Rightarrow> addr \<Rightarrow> addr \<Rightarrow> addr list" where
  "mounted_kids m kids new R a =
     (if a = new then [] else map (moved (mk_root m) R) (kids (moved R (mk_root m) a)))"

text \<open>What the mounted tree shows at the place of a node of the tool.\<close>

lemma mounted_node:
  assumes m: "mk_ok m loc kids fs" and s: "mounted m rd offset d new s'" and a: "loc ps = Some a"
    and R: "R = offset + of_nat sizeof_initrd_header"
  defines "f \<equiv> moved (mk_root m) R"
  shows "f a \<noteq> NULL" "f a \<noteq> new" "moved R (mk_root m) (f a) = a"
    "nodes s' (f a) = fix_node rd offset (relocate_node (mk_root m) d (mk_nodes m a))"
    "add_offset offset (link_offset (mk_root m) a) = f a"
proof -
  have t: "mk_tree (mk_root m) (p_node m) (mk_nodes m) loc kids fs" "block_ok (mk_root m) (p_node m)"
    using m block_ok_mono by (auto simp: mk_ok_def)
  from mk_treeD(1) [OF t(1) a] obtain i where i: "i < p_node m" "a = slot (mk_root m) i" by blast
  have b: "block_ok R (p_node m)" using s by (simp add: mounted_def R)
  have fa: "f a = slot R i" using moved_slot [OF t(2), of i R] i by (simp add: f_def)
  show nn: "f a \<noteq> NULL" using slot_not_NULL [OF b, of i] i(1) fa by simp
  show "f a \<noteq> new" "nodes s' (f a) = fix_node rd offset (relocate_node (mk_root m) d (mk_nodes m a))"
    using s i fa by (auto simp: mounted_def R)
  have "a \<noteq> NULL" using slot_not_NULL [OF t(2), of i] i by simp
  then show "moved R (mk_root m) (f a) = a" using nn moved_back by (simp add: f_def)
  show "add_offset offset (link_offset (mk_root m) a) = f a"
    using link_moved [OF t(2), of offset a] b i by (auto simp: R f_def)
qed

lemma mounted_children:
  assumes m: "mk_ok m loc kids fs" and s: "mounted m rd offset d new s'" and a: "loc ps = Some a"
    and R: "R = offset + of_nat sizeof_initrd_header"
  defines "f \<equiv> moved (mk_root m) R"
  shows "mounted_kids m kids new R (f a) = map f (kids a)" "children s' (f a) (map f (kids a))"
    "b \<in> set (kids a) \<Longrightarrow> \<exists>qs. loc qs = Some b"
proof -
  have t: "mk_tree (mk_root m) (p_node m) (mk_nodes m) loc kids fs" using m by (simp add: mk_ok_def)
  note nd = mounted_node [OF m s _ R, folded f_def]
  show "mounted_kids m kids new R (f a) = map f (kids a)"
    using nd(2,3) [OF a] by (simp add: mounted_kids_def f_def)
  have kid: "\<exists>qs. loc qs = Some b" if "b \<in> set (kids a)" for b using mk_treeD(5) [OF t a that] by blast
  then show "b \<in> set (kids a) \<Longrightarrow> \<exists>qs. loc qs = Some b" .
  have link: "add_offset offset (link_offset (mk_root m) p) = f p" if p: "p \<in> insert NULL (set (kids a))" for p
  proof (cases "p = NULL")
    case False
    then obtain qs where "loc qs = Some p" using p kid [of p] by auto
    then show ?thesis by (rule nd(5))
  qed (simp add: f_def)
  note c = mk_treeD(3) [OF t a] and l = chain_links [OF mk_treeD(3) [OF t a]]
  have "chain (next_node s') (f (nd_ptr (mk_nodes m a))) (map f (kids a)) NULL"
  proof (rule chain_map [OF c])
    show "nd_next (nodes s' (f x)) = f (nd_next (mk_nodes m x)) \<and> f x \<noteq> NULL" if x: "x \<in> set (kids a)" for x
    proof -
      from kid [OF x] obtain qs where "loc qs = Some x" by blast
      from nd(1,4) [OF this] link [of "nd_next (mk_nodes m x)"] l x show ?thesis by simp
    qed
  qed (simp add: f_def)
  moreover have "nd_ptr (nodes s' (f a)) = f (nd_ptr (mk_nodes m a))" using nd(4) [OF a] link l by simp
  ultimately show "children s' (f a) (map f (kids a))" by (simp add: children_def)
qed

lemma mounted_tree_ok:
  assumes m: "mk_ok m loc kids fs" and s: "mounted m rd offset d new s'"
    and R: "R = offset + of_nat sizeof_initrd_header"
  shows "tree_ok s' (mounted_kids m kids new R) (insert new (moved (mk_root m) R ` ran loc))"
proof -
  let ?f = "moved (mk_root m) R" and ?K = "mounted_kids m kids new R"
  let ?N = "insert new (?f ` ran loc)"
  have t: "mk_tree (mk_root m) (p_node m) (mk_nodes m) loc kids fs" using m by (simp add: mk_ok_def)
  note nd = mounted_node [OF m s _ R] and ch = mounted_children [OF m s _ R]
  have root: "loc [] = Some (mk_root m)" by (rule mk_tree_root [OF t])
  have "block_ok (mk_root m) 0" using m block_ok_mono by (auto simp: mk_ok_def)
  then have fr: "?f (mk_root m) = R" using moved_slot [of "mk_root m" 0 0 R] by simp
  have new: "nodes s' new = VFS_NODE_INITIALIZER FS_DIRECTORY" "new \<noteq> NULL" "vfs_root s' = new" "vfs_root_mount s' = R"
    using s by (simp_all add: mounted_def R)
  have sub: "set (map ?f (kids a)) \<subseteq> ?N" if "loc ps = Some a" for ps a using ch(3) [OF that] by (auto simp: ran_def)
  have inner: "?f a \<noteq> NULL \<and> nd_open (nodes s' (?f a)) = NULL \<and> nd_finddir (nodes s' (?f a)) = NULL \<and>
      NUL \<in> set (nd_name (nodes s' (?f a))) \<and>
      (nd_parent (nodes s' (?f a)) = NULL \<or> nd_parent (nodes s' (?f a)) \<in> ?N) \<and>
      children s' (?f a) (?K (?f a)) \<and> set (?K (?f a)) \<subseteq> ?N" if a: "loc ps = Some a" for ps a
  proof -
    have "nd_parent (nodes s' (?f a)) = NULL \<or> nd_parent (nodes s' (?f a)) \<in> ?N"
    proof (cases "ps = []")
      case True
      then show ?thesis using nd(4) [OF a] mk_treeD(6) [OF t a] by simp
    next
      case False
      then obtain b where b: "loc (butlast ps) = Some b"
        using mk_tree_prefix [OF t, of "butlast ps" "last ps" a] a by auto
      then show ?thesis using False nd(4) [OF a] mk_treeD(6) [OF t a] nd(5) [OF b] by (auto simp: ran_def)
    qed
    then show ?thesis
      using nd(1,4) [OF a] mk_treeD(2) [OF t a] ch(1,2) [OF a] sub [OF a] by (simp add: plain_node_def)
  qed
  have at_new: "NUL \<in> set (nd_name (nodes s' new))" "nd_open (nodes s' new) = NULL"
      "nd_finddir (nodes s' new) = NULL" "children s' new (?K new)" "?K new = []"
    by (simp_all add: new(1) VFS_NODE_INITIALIZER_def children_def mounted_kids_def)
  have "?f (mk_root m) \<noteq> NULL" using nd(1) [OF root] .
  then show ?thesis
    using inner [OF root] inner at_new new(2-4) unfolding tree_ok_def fr by (auto simp: ran_def)
qed

text \<open>Paths of the tree resolve to the nodes in their place.\<close>

lemma mounted_resolve:
  assumes m: "mk_ok m loc kids fs" and s: "mounted m rd offset d new s'"
    and R: "R = offset + of_nat sizeof_initrd_header"
    and a: "loc ps = Some a" "loc (ps @ cs) = Some b" "list_all plain_name cs"
    and dirs: "\<And>us c vs. cs = us @ c # vs \<Longrightarrow> fs (ps @ us) = None"
  shows "resolve s' (mounted_kids m kids new R) (moved (mk_root m) R a) cs =
    Inr (Reached (moved (mk_root m) R b))"
  using a dirs
proof (induction cs arbitrary: ps a)
  case (Cons c cs)
  let ?f = "moved (mk_root m) R"
  have t: "mk_tree (mk_root m) (p_node m) (mk_nodes m) loc kids fs" using m by (simp add: mk_ok_def)
  note nd = mounted_node [OF m s _ R] and ch = mounted_children [OF m s _ R]
  have pl: "plain_name c" "list_all plain_name cs" using Cons.prems(3) by simp_all
  obtain e where e: "loc (ps @ [c]) = Some e"
    using mk_tree_prefixes [OF t, of "ps @ [c]" cs b] Cons.prems(2) by auto
  have names: "node_name s' (?f x) = name_at (mk_nodes m) x" if "x \<in> set (kids a)" for x
    using ch(3) [OF Cons.prems(1) that] nd(4) by (auto simp: node_name_def)
  have "find (\<lambda>x. node_name s' x = c) (map ?f (kids a)) = Some (?f e)"
    using find_cong [OF refl, of "kids a" "\<lambda>x. node_name s' (?f x) = c" "\<lambda>x. name_at (mk_nodes m) x = c"]
      names mk_treeD(4) [OF t Cons.prems(1), of c] e by (simp add: find_map_eq)
  moreover have "entries s' (mounted_kids m kids new R) (?f a) = map ?f (kids a)"
    using nd(2) [OF Cons.prems(1)] ch(1) [OF Cons.prems(1)] s by (simp add: entries_def mounted_def)
  moreover have "is_dir s' (?f a)"
    using mk_treeD(7) [OF t Cons.prems(1)] Cons.prems(4) [of "[]" c cs] nd(4) [OF Cons.prems(1)]
    by (simp add: is_dir_def FS_defs)
  moreover have "resolve s' (mounted_kids m kids new R) (?f e) cs = Inr (Reached (?f b))"
  proof (rule Cons.IH [OF e _ pl(2)])
    show "fs ((ps @ [c]) @ us) = None" if "cs = us @ x # vs" for us x vs
      using Cons.prems(4) [of "c # us" x vs] that by simp
  qed (use Cons.prems(2) in simp)
  ultimately show ?case using pl(1) by (simp add: plain_name_def)
qed simp

section \<open>The whole run of the tool\<close>

definition entry_argv :: "entry list \<Rightarrow> string list" where
  "entry_argv es = concat (map (\<lambda>(path, p, _). [path, cstr p]) es)"

lemma entry_argv_pairs: "arg_pairs (entry_argv es) = entry_args es" "length (entry_argv es) = 2 * length es"
  by (induction es) (auto simp: entry_argv_def entry_args_def)

lemma mk_tree_initial:
  "mk_tree r 1 (h(r := VFS_NODE_INITIALIZER FS_DIRECTORY)) [[] \<mapsto> r] (\<lambda>_. []) Map.empty"
  by (simp add: mk_tree_def plain_node_def VFS_NODE_INITIALIZER_def)

lemma mkinitrd_run:
  assumes "\<And>e. e \<in> set es \<Longrightarrow> entry_ok files e" "entries_apart es" "block_ok block (length es * 5)"
    and "1 + sum_list (map (\<lambda>e. length (entry_names e)) es) \<le> length es * 5"
  obtains m loc kids where
    "mkinitrd_main files block h (entry_argv es) = Some (Inr (Some (write_image files (entry_args es) (p_node m) m)))"
    "mk_ok m loc kids (layout 0 es Map.empty)" "mk_root m = block" "mk_room m = length es * 5"
proof -
  let ?m = "\<lparr>mk_nodes = h(block := VFS_NODE_INITIALIZER FS_DIRECTORY), mk_root = block, p_node = 1, mk_room = length es * 5\<rparr>"
  have room: "0 < length es * 5" "block \<noteq> NULL" using assms(3,4) by (linarith, simp add: block_ok_def)
  have new: "new_node FS_DIRECTORY \<lparr>mk_nodes = h, mk_root = block, p_node = 0, mk_room = length es * 5\<rparr> = Inr (block, ?m)"
    using room by (simp add: new_node_def Let_def)
  have m: "mk_ok ?m [[] \<mapsto> block] (\<lambda>_. []) Map.empty"
    using mk_tree_initial [of block h] assms(3) room by (cases es) (simp_all add: mk_ok_def)
  have c: "covers [[] \<mapsto> block] Map.empty" by (simp add: covers_def)
  from add_files_run [OF assms(1,2) m c, of 0] assms(4) obtain m' loc' kids' where r:
    "add_files files (entry_args es) 0 1 ?m = Some (Inr (Some (p_node m', m')))"
    "mk_ok m' loc' kids' (layout 0 es Map.empty)" "mk_root m' = block" "mk_room m' = length es * 5" by auto
  have "mkinitrd_main files block h (entry_argv es) = Some (Inr (Some (write_image files (entry_args es) (p_node m') m')))"
    using new r(1) room by (simp add: mkinitrd_main_def entry_argv_pairs Let_def)
  with r(2-4) show ?thesis by (intro that)
qed

lemma image_data:
  "(\<And>e. e \<in> set es \<Longrightarrow> entry_ok files e) \<Longrightarrow>
    im_data (write_image files (entry_args es) n m) = concat (map entry_content es)"
  by (auto simp: write_image_def entry_args_def entry_ok_def Let_def intro!: arg_cong [where f = concat] map_cong)

section \<open>Reading a file\<close>

lemma initrd_read_run:
  assumes "node \<noteq> NULL" "nd_length (nodes s node) = of_nat (length content)" "length content < 2 ^ 32"
    and mem: "\<And>k. k < length content \<Longrightarrow> mem (nd_data (nodes s node) + of_nat k) = content ! k"
    and "unat off + unat sz < 2 ^ 32"
  shows "initrd_read mem node off sz s =
    Inr (of_nat (length (take (unat sz) (drop (unat off) content))), take (unat sz) (drop (unat off) content))"
proof -
  let ?n = "length content"
  have n: "unat (nd_length (nodes s node)) = ?n" using assms(2,3) unat_of_nat_u32 by simp
  have sum: "unat (off + sz) = unat off + unat sz" using assms(5) by (simp add: unat_word_ariths)
  show ?thesis
  proof (cases "?n < unat off")
    case True
    then have "off > nd_length (nodes s node)" using n by (simp add: word_less_nat_alt)
    then show ?thesis using True assms(1) by (simp add: initrd_read_def Let_def)
  next
    case False
    let ?sz = "if off + sz > nd_length (nodes s node) then nd_length (nodes s node) - off else sz"
    have "off \<le> nd_length (nodes s node)" using False n by (simp add: word_le_nat_alt)
    then have sz: "unat ?sz = min (unat sz) (?n - unat off)"
      using n sum False by (simp add: word_less_nat_alt unat_sub)
    have "map (\<lambda>k. mem (nd_data (nodes s node) + off + of_nat k)) [0 ..< unat ?sz] =
        take (unat sz) (drop (unat off) content)"
    proof (rule nth_equalityI)
      show "length (map (\<lambda>k. mem (nd_data (nodes s node) + off + of_nat k)) [0 ..< unat ?sz]) =
          length (take (unat sz) (drop (unat off) content))" using sz by simp
      fix k assume "k < length (map (\<lambda>k. mem (nd_data (nodes s node) + off + of_nat k)) [0 ..< unat ?sz])"
      then have k: "k < unat ?sz" by (metis length_map length_upt minus_nat.diff_0)
      then have "unat off + k < ?n" "k < unat sz" using sz False by (auto simp del: if_split)
      moreover have "off + of_nat k = of_nat (unat off + k)" by simp
      ultimately show "map (\<lambda>k. mem (nd_data (nodes s node) + off + of_nat k)) [0 ..< unat ?sz] ! k =
          take (unat sz) (drop (unat off) content) ! k"
        using mem [of "unat off + k"] k by (simp add: add.assoc del: if_split)
    qed
    moreover have "length (take (unat sz) (drop (unat off) content)) = unat ?sz"
      using sz by (simp only: length_take length_drop min.commute)
    then have "of_nat (length (take (unat sz) (drop (unat off) content))) = ?sz"
      by (simp only: of_nat_unat ucast_id)
    moreover have "\<not> nd_length (nodes s node) < off" using \<open>off \<le> nd_length (nodes s node)\<close> by simp
    then have "initrd_read mem node off sz s =
        Inr (?sz, map (\<lambda>k. mem (nd_data (nodes s node) + off + of_nat k)) [0 ..< unat ?sz])"
      using assms(1) unfolding initrd_read_def Let_def by (simp only: assertE_True bindE_simps if_False simp_thms)
    ultimately show ?thesis by (simp only:)
  qed
qed

text \<open>The place of a file in the data, and its bytes in memory.\<close>

lemma loaded_content:
  assumes "loaded (write_image files (entry_args (us @ e # vs)) n m) offset headers mem s"
    "\<And>x. x \<in> set (us @ e # vs) \<Longrightarrow> entry_ok files x" "k < length (entry_content e)"
  shows "mem (of_nat (length (concat (map entry_content us))) + of_nat (sizeof_initrd_header + sizeof_vfs_node * n) +
    offset + of_nat k) = entry_content e ! k"
proof -
  let ?img = "write_image files (entry_args (us @ e # vs)) n m" and ?l = "length (concat (map entry_content us))"
  have d: "im_data ?img = concat (map entry_content us) @ entry_content e @ concat (map entry_content vs)"
  proof -
    have "im_data ?img = concat (map entry_content (us @ e # vs))" by (rule image_data) (rule assms(2))
    then show ?thesis by simp
  qed
  have n: "length (im_nodes ?img) = n" by (simp add: write_image_def Let_def)
  have "?l + k < length (im_data ?img)" using assms(3) by (simp add: d)
  then have "mem (slot (offset + of_nat sizeof_initrd_header) n + of_nat (?l + k)) = im_data ?img ! (?l + k)"
    using assms(1) by (simp only: loaded_def Let_def n)
  moreover have "im_data ?img ! (?l + k) = entry_content e ! k" using assms(3) by (simp add: d nth_append)
  moreover have "slot (offset + of_nat sizeof_initrd_header) n + of_nat (?l + k) =
      of_nat ?l + of_nat (sizeof_initrd_header + sizeof_vfs_node * n) + offset + of_nat k"
    by (simp add: slot_def algebra_simps)
  ultimately show ?thesis by (simp only:)
qed

lemma resolve_entries_cong:
  "cs = c # ds \<Longrightarrow> is_dir s a \<Longrightarrow> is_dir s b \<Longrightarrow> entries s kids a = entries s kids b \<Longrightarrow> plain_name c \<Longrightarrow>
    resolve s kids b cs = Inr (Reached x) \<Longrightarrow> resolve s kids a cs = Inr (Reached x)"
  by (simp add: plain_name_def split: option.splits)

text \<open>The kernel shows a file under its path: opening it returns a node, whose reads return the bytes
  of the file, cut off at its end.\<close>

definition shows_file :: "vfs_ops \<Rightarrow> string \<Rightarrow> (vfs \<Rightarrow> vfs) list \<Rightarrow> addr \<Rightarrow> (addr \<Rightarrow> u8) \<Rightarrow> vfs \<Rightarrow>
    string \<Rightarrow> u8 list \<Rightarrow> bool" where
  "shows_file dops buf acts rd mem s path content = (\<exists>node.
     vfs_open dops (Some buf) acts (Some (cstr path)) s =
       Some (Inr (node, upd_node node (\<lambda>n. n\<lparr>nd_refs := nd_refs n + 1\<rparr>) s, acts)) \<and>
     (content \<noteq> [] \<longrightarrow> nd_read (nodes s node) = rd) \<and>
     (\<forall>off sz. unat off + unat sz < 2 ^ 32 \<longrightarrow> initrd_read mem node off sz s =
        Inr (of_nat (length (take (unat sz) (drop (unat off) content))), take (unat sz) (drop (unat off) content))))"

lemma mounted_file:
  assumes m: "mk_ok m loc kids (layout 0 es Map.empty)" and es: "es = us @ e # vs" "entries_apart es"
    and ok: "\<And>x. x \<in> set es \<Longrightarrow> entry_ok files x"
    and l: "loaded (write_image files (entry_args es) (p_node m) m) offset headers mem s"
    and s': "mounted m rd offset (of_nat (sizeof_initrd_header + sizeof_vfs_node * p_node m)) new s'"
    and buf: "length buf = MAX_PATH + 1"
  shows "shows_file dops buf acts rd mem s' (path_of (entry_names e)) (entry_content e)"
proof -
  let ?ns = "entry_names e" and ?c = "entry_content e" and ?fs = "layout 0 es Map.empty"
  define R where "R = offset + of_nat sizeof_initrd_header"
  let ?f = "moved (mk_root m) R" and ?K = "mounted_kids m kids new R"
  let ?N = "insert new (?f ` ran loc)"
  have t: "mk_tree (mk_root m) (p_node m) (mk_nodes m) loc kids ?fs" using m by (simp add: mk_ok_def)
  note nd = mounted_node [OF m s' _ R_def]
  obtain p where e: "names_path p ?ns" "length ?c < 2 ^ 32"
    using ok [of e] es(1) by (auto simp: entry_ok_def)
  have ns: "?ns \<noteq> []" "list_all plain_name ?ns" "length (path_of ?ns) \<le> MAX_PATH"
    using e(1) by (simp_all add: names_path_def)
  have abs: "names_path (path_of ?ns) ?ns" using ns by (simp add: names_path_def)
  have f: "?fs ?ns = Some (of_nat (length ?c), of_nat (length (concat (map entry_content us))))"
    using layout_entry [of us e vs 0 Map.empty] es by simp
  then obtain a where a: "loc ?ns = Some a" using t by (fastforce simp: mk_tree_def)
  note fl = mk_treeD(8) [OF t a f]
  have root: "loc [] = Some (mk_root m)" by (rule mk_tree_root [OF t])
  have dirs: "?fs ([] @ ps) = None" if "?ns = ps @ c # qs" for ps c qs
  proof -
    have "prefix ps ?ns" "ps \<noteq> ?ns" using that by auto
    moreover have "ps \<notin> set (map entry_names es)" if "prefix ps ?ns" "ps \<noteq> ?ns"
      using es that by (auto simp: entries_apart_def apart_def sorted_wrt_append)
    ultimately show ?thesis using layout_other [of ps es 0 Map.empty] by simp
  qed
  have "block_ok (mk_root m) 0" using m block_ok_mono by (auto simp: mk_ok_def)
  then have fr: "?f (mk_root m) = R" using moved_slot [of "mk_root m" 0 0 R] by simp
  have new: "vfs_root s' = new" "vfs_root_mount s' = R" "nodes s' new = VFS_NODE_INITIALIZER FS_DIRECTORY"
    using s' by (simp_all add: mounted_def R_def)
  obtain c cs where cs: "?ns = c # cs" using ns(1) by (cases ?ns) auto
  have res: "resolve s' ?K (vfs_root s') ?ns = Inr (Reached (?f a))"
  proof (rule resolve_entries_cong [OF cs])
    show "is_dir s' (vfs_root s')" by (simp add: new is_dir_def VFS_NODE_INITIALIZER_def FS_defs)
    show "is_dir s' R"
      using nd(4) [OF root] mk_treeD(7) [OF t root] dirs [of "[]" c cs] cs fr by (simp add: is_dir_def FS_defs)
    show "entries s' ?K (vfs_root s') = entries s' ?K R"
      using nd(2) [OF root] by (simp add: entries_def new fr mounted_kids_def)
    show "plain_name c" using ns(2) cs by simp
    show "resolve s' ?K R ?ns = Inr (Reached (?f a))"
      using mounted_resolve [OF m s' R_def root _ ns(2) dirs, of a] a by (simp add: fr)
  qed
  have free: "ms (nd_lock (nodes s' x)) = 0" if "x \<in> ?N" for x
    using that nd(4) mk_treeD(2) [OF t]
    by (auto simp: new ran_def plain_node_def VFS_NODE_INITIALIZER_def MUTEX_INITIALIZER_def)
  have "start_node s' (path_of ?ns) = vfs_root s'" by (simp add: start_node_def cs path_of_def)
  then have opened: "vfs_open dops (Some buf) acts (Some (cstr (path_of ?ns))) s' =
      Some (Inr (?f a, upd_node (?f a) (\<lambda>n. n\<lparr>nd_refs := nd_refs n + 1\<rparr>) s', acts))"
    using vfs_open_walk [OF mounted_tree_ok [OF m s' R_def], of "path_of ?ns" buf dops acts] free buf
      names_path_simps [OF abs] res ns(1,3) new(1) by (simp add: open_result_def)
  have len: "nd_length (nodes s' (?f a)) = of_nat (length ?c)" using nd(4) [OF a] fl by simp
  have data: "nd_data (nodes s' (?f a)) = of_nat (length (concat (map entry_content us))) +
      of_nat (sizeof_initrd_header + sizeof_vfs_node * p_node m) + offset \<and> nd_read (nodes s' (?f a)) = rd"
    if "?c \<noteq> []"
  proof -
    have "unat (nd_length (mk_nodes m a)) \<noteq> 0" using e(2) fl that unat_of_nat_u32 [of "length ?c"] by simp
    then have "nd_length (mk_nodes m a) \<noteq> 0" by auto
    then show ?thesis using nd(4) [OF a] fl by simp
  qed
  have "mem (nd_data (nodes s' (?f a)) + of_nat k) = ?c ! k" if k: "k < length ?c" for k
  proof -
    have "mem (of_nat (length (concat (map entry_content us))) +
        of_nat (sizeof_initrd_header + sizeof_vfs_node * p_node m) + offset + of_nat k) = ?c ! k"
      by (rule loaded_content [OF l [unfolded es(1)] _ k]) (rule ok [unfolded es(1)])
    moreover from k have "?c \<noteq> []" by auto
    note data [OF this]
    ultimately show ?thesis by (simp only:)
  qed
  then show ?thesis
    unfolding shows_file_def using opened data initrd_read_run [OF nd(1) [OF a] len e(2)] by blast
qed

text \<open>A memory that holds an image.\<close>

definition image_nodes :: "image \<Rightarrow> addr \<Rightarrow> addr \<Rightarrow> vfs_node_t" where
  "image_nodes img offset a = (let R = offset + of_nat sizeof_initrd_header in
     if R \<le> a then im_nodes img ! ((unat a - unat R) div sizeof_vfs_node) else VFS_NODE_INITIALIZER 0)"

definition image_bytes :: "image \<Rightarrow> addr \<Rightarrow> addr \<Rightarrow> u8" where
  "image_bytes img offset a =
     im_data img ! unat (a - slot (offset + of_nat sizeof_initrd_header) (length (im_nodes img)))"

lemma image_loaded:
  assumes "block_ok (offset + of_nat sizeof_initrd_header) (length (im_nodes img))" "length (im_data img) < 2 ^ 32"
    "nodes s = image_nodes img offset" "new \<noteq> NULL" "new < offset + of_nat sizeof_initrd_header"
  shows "loaded img offset (\<lambda>_. im_header img) (image_bytes img offset) s \<and> fresh_node img offset new s"
proof -
  let ?R = "offset + of_nat sizeof_initrd_header" and ?n = "length (im_nodes img)"
  have u: "unat (slot ?R i) = unat ?R + i * sizeof_vfs_node" if "i < ?n" for i
    using unat_node_slot [OF assms(1), of i] that by simp
  have "nodes s (slot ?R i) = im_nodes img ! i" if "i < ?n" for i
    using u [OF that] by (simp add: assms(3) image_nodes_def Let_def word_le_nat_alt sizeof_vfs_node_def)
  moreover have "image_bytes img offset (slot ?R ?n + of_nat k) = im_data img ! k" if "k < length (im_data img)" for k
    using that assms(2) unat_of_nat_u32 [of k] by (simp add: image_bytes_def)
  moreover have "new \<noteq> slot ?R i" if "i < ?n" for i
    using u [OF that] assms(5) by (metis le_add1 not_less word_less_nat_alt)
  moreover have "length (nd_name (nodes s new)) = 256"
    using assms(5) leD by (auto simp: assms(3) image_nodes_def Let_def VFS_NODE_INITIALIZER_def)
  ultimately show ?thesis using assms(1,4) by (simp add: loaded_def fresh_node_def Let_def)
qed

end
