(* ===== verification/Video.thy ===== *)
theory Video
  imports CString
begin

text \<open>
  The text display of \<open>kernel/arch/x86/video.c\<close>: the video memory of 25 rows of 80 cells, the cursor
  and the cursor position in the display controller.  The specification is a terminal as a list of
  rows; the driver refines it, and never writes outside the visible memory.
\<close>

section \<open>Driver\<close>

record video =
  vmem :: "u16 list"
  cur_x :: u8
  cur_y :: u8
  crt_cursor :: u16

definition attributeByte :: u8 where "attributeByte = 7"

text \<open>\<open>c | (attributeByte << 8)\<close> as an \<open>int\<close>, stored in 16 bits; \<open>char\<close> is signed.\<close>

definition MEM_CHAR :: "u8 \<Rightarrow> u16" where
  "MEM_CHAR c = ucast ((scast c :: i32) OR push_bit 8 (ucast attributeByte))"

definition move_cursor :: "video \<Rightarrow> video" where
  "move_cursor v =
     (let pos = ucast (cur_y v) * 80 + ucast (cur_x v) :: u16 in
      v\<lparr>crt_cursor := push_bit 8 (drop_bit 8 pos) OR (pos AND 0xFF)\<rparr>)"

definition put_cell :: "nat \<Rightarrow> u16 \<Rightarrow> video \<Rightarrow> video outcome" where
  "put_cell i w v = bindE (writeE (vmem v) i w) (\<lambda>m. Inr (v\<lparr>vmem := m\<rparr>))"

definition scroll :: "video \<Rightarrow> video outcome" where
  "scroll v =
     (if cur_y v \<ge> 25 then
        bindE (foldE (\<lambda>m i. bindE (readE m (i + 80)) (writeE m i)) (vmem v) [0 * 80 ..< 24 * 80]) (\<lambda>m1.
        bindE (foldE (\<lambda>m i. writeE m i (MEM_CHAR 32)) m1 [24 * 80 ..< 25 * 80]) (\<lambda>m2.
        Inr (v\<lparr>vmem := m2, cur_y := 24\<rparr>)))
      else Inr v)"

definition put_char :: "u8 \<Rightarrow> video \<Rightarrow> video outcome" where
  "put_char c v =
     (if c = 8 then
        (if cur_x v \<noteq> 0 then
           let v1 = v\<lparr>cur_x := cur_x v - 1\<rparr> in
           put_cell (unat (cur_y v1) * 80 + unat (cur_x v1)) (MEM_CHAR 32) v1
         else Inr v)
      else if c = 9 then Inr (v\<lparr>cur_x := (cur_x v + 8) AND NOT (8 - 1)\<rparr>)
      else if c = 13 then Inr (v\<lparr>cur_x := 0\<rparr>)
      else if c = 10 then Inr (v\<lparr>cur_y := cur_y v + 1, cur_x := 0\<rparr>)
      else bindE (put_cell (unat (cur_y v) * 80 + unat (cur_x v)) (MEM_CHAR c) v)
        (\<lambda>v1. Inr (v1\<lparr>cur_x := cur_x v1 + 1\<rparr>)))"

definition wrap_line :: "video \<Rightarrow> video" where
  "wrap_line v = (if cur_x v \<ge> 80 then v\<lparr>cur_x := 0, cur_y := cur_y v + 1\<rparr> else v)"

definition arch_video_put :: "u8 \<Rightarrow> video \<Rightarrow> video outcome" where
  "arch_video_put c v =
     bindE (put_char c v) (\<lambda>v1. bindE (scroll (wrap_line v1)) (\<lambda>v2. Inr (move_cursor v2)))"

definition arch_video_clear :: "video \<Rightarrow> video outcome" where
  "arch_video_clear v =
     bindE (foldE (\<lambda>m i. writeE m i (MEM_CHAR 32)) (vmem v) [0 ..< 80 * 25]) (\<lambda>m.
     Inr (move_cursor (v\<lparr>vmem := m, cur_x := 0, cur_y := 0\<rparr>)))"

text \<open>The node that \<open>arch_video_init\<close> fills in is never used.\<close>

definition arch_video_init :: "video \<Rightarrow> video outcome" where
  "arch_video_init v = arch_video_clear v"

fun arch_video_put_s :: "string \<Rightarrow> video \<Rightarrow> video outcome" where
  "arch_video_put_s [] v = Inl Out_Of_Bounds"
| "arch_video_put_s (c # s) v =
     (if c = NUL then Inr v else bindE (arch_video_put (of_char c) v) (arch_video_put_s s))"

section \<open>Terminal\<close>

text \<open>A terminal: 25 rows of 80 cells and a cursor.  A line feed in the last row scrolls.\<close>

record terminal =
  rows :: "u16 list list"
  tx :: nat
  ty :: nat

definition blank_row :: "u16 list" where
  "blank_row = replicate 80 (MEM_CHAR 32)"

definition line_feed :: "terminal \<Rightarrow> terminal" where
  "line_feed t = (if ty t = 24 then t\<lparr>rows := tl (rows t) @ [blank_row], tx := 0\<rparr>
     else t\<lparr>ty := ty t + 1, tx := 0\<rparr>)"

definition set_cell :: "nat \<Rightarrow> u16 \<Rightarrow> terminal \<Rightarrow> terminal" where
  "set_cell x w t = t\<lparr>rows := (rows t)[ty t := (rows t ! ty t)[x := w]]\<rparr>"

definition advance :: "nat \<Rightarrow> terminal \<Rightarrow> terminal" where
  "advance x t = (if x \<ge> 80 then line_feed t else t\<lparr>tx := x\<rparr>)"

definition terminal_put :: "u8 \<Rightarrow> terminal \<Rightarrow> terminal" where
  "terminal_put c t =
     (if c = 8 then (if tx t = 0 then t else set_cell (tx t - 1) (MEM_CHAR 32) (t\<lparr>tx := tx t - 1\<rparr>))
      else if c = 9 then advance (8 * (tx t div 8 + 1)) t
      else if c = 13 then t\<lparr>tx := 0\<rparr>
      else if c = 10 then line_feed t
      else advance (tx t + 1) (set_cell (tx t) (MEM_CHAR c) t))"

definition terminal_ok :: "terminal \<Rightarrow> bool" where
  "terminal_ok t = (length (rows t) = 25 \<and> (\<forall>r \<in> set (rows t). length r = 80) \<and> tx t < 80 \<and> ty t < 25)"

definition blank_screen :: terminal where
  "blank_screen = \<lparr>rows = replicate 25 blank_row, tx = 0, ty = 0\<rparr>"

text \<open>The driver shows the terminal.\<close>

definition displays :: "video \<Rightarrow> terminal \<Rightarrow> bool" where
  "displays v t = (terminal_ok t \<and> vmem v = concat (rows t) \<and> unat (cur_x v) = tx t \<and> unat (cur_y v) = ty t \<and>
     unat (crt_cursor v) = ty t * 80 + tx t)"

section \<open>Lemmas\<close>

lemma copy_up_loop:
  "n + k \<le> length m \<Longrightarrow> foldE (\<lambda>m i. bindE (readE m (i + k)) (writeE m i)) m [0 ..< n] =
    Inr (take n (drop k m) @ drop n m)"
proof (induction n)
  case (Suc n)
  have n: "n < length m" "n + k < length m" using Suc.prems by simp_all
  have d: "drop n m = m ! n # drop (Suc n) m" using n(1) by (rule Cons_nth_drop_Suc [symmetric])
  have "(take n (drop k m) @ drop n m) ! (n + k) = m ! (n + k)" using n by (simp add: nth_append)
  moreover have "(take n (drop k m) @ drop n m)[n := m ! (n + k)] = take (Suc n) (drop k m) @ drop (Suc n) m"
    using n d by (simp add: list_update_append take_Suc_conv_app_nth ac_simps)
  ultimately show ?case using Suc n by (simp add: foldE_append)
qed simp

lemma fill_loop:
  "a \<le> b \<Longrightarrow> b \<le> length m \<Longrightarrow> foldE (\<lambda>m i. writeE m i w) m [a ..< b] =
    Inr (take a m @ replicate (b - a) w @ drop b m)"
proof (induction b)
  case (Suc b)
  show ?case
  proof (cases "a \<le> b")
    case True
    have d: "drop b m = m ! b # drop (Suc b) m" using Suc.prems(2) by (intro Cons_nth_drop_Suc [symmetric]) simp
    have "(take a m @ replicate (b - a) w @ drop b m)[b := w] = take a m @ replicate (b - a) w @ w # drop (Suc b) m"
      using True Suc.prems unfolding d by (simp add: list_update_append)
    also have "\<dots> = take a m @ replicate (Suc b - a) w @ drop (Suc b) m"
      using True by (simp add: Suc_diff_le replicate_app_Cons_same)
    finally have "(take a m @ replicate (b - a) w @ drop b m)[b := w] = take a m @ replicate (Suc b - a) w @ drop (Suc b) m" .
    then show ?thesis using True Suc by (simp add: foldE_append)
  qed (use Suc.prems in \<open>simp add: le_Suc_eq\<close>)
qed simp

lemma length_rows: "(\<forall>r \<in> set rs. length r = n) \<Longrightarrow> length (concat rs) = n * length rs"
  by (induction rs) auto

lemma update_rows:
  "(\<forall>r \<in> set rs. length r = n) \<Longrightarrow> y < length rs \<Longrightarrow> x < n \<Longrightarrow>
    (concat rs)[y * n + x := w] = concat (rs[y := (rs ! y)[x := w]])"
proof (induction rs arbitrary: y)
  case (Cons r rs)
  then show ?case by (cases y) (auto simp: list_update_append)
qed simp

lemma cell_range: "y < 25 \<Longrightarrow> x < 80 \<Longrightarrow> y * 80 + x < (2000 :: nat)"
  by simp

lemma displays_cell:
  assumes "terminal_ok t" "vmem v = concat (rows t)" "x < 80" "unat (cur_y v) = ty t"
  shows "put_cell (unat (cur_y v) * 80 + x) w v = Inr (v\<lparr>vmem := concat (rows (set_cell x w t))\<rparr>)"
proof -
  have t: "length (rows t) = 25" "\<forall>r \<in> set (rows t). length r = 80" "ty t < 25"
    using assms(1) by (auto simp: terminal_ok_def)
  have "ty t * 80 + x < length (concat (rows t))" using t assms(3) length_rows [OF t(2)] by simp
  then show ?thesis using assms t update_rows [OF t(2) _ assms(3)] by (simp add: put_cell_def set_cell_def)
qed

lemma set_cell_ok: "terminal_ok t \<Longrightarrow> x < 80 \<Longrightarrow> terminal_ok (set_cell x w t)"
  by (auto simp: terminal_ok_def set_cell_def dest!: set_update_subset_insert [THEN subsetD])

lemma set_cell_fields [simp]: "tx (set_cell x w t) = tx t" "ty (set_cell x w t) = ty t"
  by (simp_all add: set_cell_def)

lemma move_cursor_displays:
  assumes "terminal_ok t" "vmem v = concat (rows t)" "unat (cur_x v) = tx t" "unat (cur_y v) = ty t"
  shows "displays (move_cursor v) t"
proof -
  let ?pos = "ucast (cur_y v) * 80 + ucast (cur_x v) :: u16"
  have b: "unat (cur_y v) < 25" "unat (cur_x v) < 80" using assms by (simp_all add: terminal_ok_def)
  then have "unat ?pos = unat (cur_y v) * 80 + unat (cur_x v)"
    by (simp add: unat_word_ariths unsigned_ucast_eq take_bit_nat_eq_self)
  moreover have "push_bit 8 (drop_bit 8 ?pos) OR (?pos AND 0xFF) = ?pos"
  proof (rule bit_eqI)
    fix n assume "possible_bit TYPE(u16) n"
    then have n: "n < 16" by simp
    have "(0xFF :: u16) = mask 8" by (simp add: mask_eq_exp_minus_1)
    then have "bit (0xFF :: u16) n \<longleftrightarrow> n < 8" using n by (simp only: bit_mask_iff) simp
    then show "bit (push_bit 8 (drop_bit 8 ?pos) OR (?pos AND 0xFF)) n \<longleftrightarrow> bit ?pos n"
      using n by (auto simp: bit_or_iff bit_and_iff bit_push_bit_iff bit_drop_bit_eq)
  qed
  ultimately show ?thesis using assms by (simp add: displays_def move_cursor_def Let_def)
qed

text \<open>The rest of \<open>arch_video_put\<close>, from a cursor that may have left the screen.\<close>

definition land :: "nat \<Rightarrow> nat \<Rightarrow> terminal \<Rightarrow> terminal" where
  "land x y t = (if y = 25 then t\<lparr>rows := tl (rows t) @ [blank_row], tx := x, ty := 24\<rparr> else t\<lparr>tx := x, ty := y\<rparr>)"

lemma finish_put:
  assumes "terminal_ok t" "vmem v = concat (rows t)" "unat (cur_x v) = x" "unat (cur_y v) = y" "x < 80" "y \<le> 25"
  shows "\<exists>v'. bindE (scroll v) (\<lambda>v2. Inr (move_cursor v2)) = Inr v' \<and> displays v' (land x y t)"
proof (cases "y = 25")
  case True
  let ?m = "drop 80 (vmem v) @ replicate 80 (MEM_CHAR 32)"
  obtain r rs where rs: "rows t = r # rs" using assms(1) by (cases "rows t") (auto simp: terminal_ok_def)
  have len: "length (vmem v) = 2000" using assms(1,2) length_rows [of "rows t" 80] by (simp add: terminal_ok_def)
  have "cur_y v \<ge> 25" using True assms(4) by (simp add: word_le_nat_alt)
  then have "scroll v = Inr (v\<lparr>vmem := ?m, cur_y := 24\<rparr>)"
    using copy_up_loop [of 1920 80 "vmem v"] fill_loop [of 1920 2000 "take 1920 (drop 80 (vmem v)) @ drop 1920 (vmem v)" "MEM_CHAR 32"] len
    by (simp add: scroll_def)
  moreover have "?m = concat (rows (land x y t))"
    using True assms(1,2) rs by (simp add: land_def blank_row_def terminal_ok_def)
  moreover have "terminal_ok (land x y t)" using assms(1,5) True rs by (auto simp: land_def terminal_ok_def blank_row_def)
  ultimately show ?thesis using move_cursor_displays [of "land x y t" "v\<lparr>vmem := ?m, cur_y := 24\<rparr>"] assms(3) True
    by (simp add: land_def)
next
  case False
  then have "\<not> cur_y v \<ge> 25" using assms(4,6) by (simp add: word_le_nat_alt)
  moreover have "displays (move_cursor v) (land x y t)"
    using assms False by (intro move_cursor_displays) (auto simp: land_def terminal_ok_def)
  ultimately show ?thesis by (simp add: scroll_def)
qed

lemma land_advance:
  "terminal_ok t \<Longrightarrow> x \<le> 80 \<Longrightarrow>
    land (if x \<ge> 80 then 0 else x) (if x \<ge> 80 then ty t + 1 else ty t) t = advance x t"
  by (cases t) (auto simp: land_def advance_def line_feed_def terminal_ok_def)

lemma wrap_line_fields:
  assumes "unat (cur_x v) \<le> 80" "unat (cur_y v) < 25"
  shows "vmem (wrap_line v) = vmem v" "unat (cur_x (wrap_line v)) = (if unat (cur_x v) \<ge> 80 then 0 else unat (cur_x v))"
    "unat (cur_y (wrap_line v)) = (if unat (cur_x v) \<ge> 80 then unat (cur_y v) + 1 else unat (cur_y v))"
  using assms by (auto simp: wrap_line_def word_le_nat_alt unat_word_ariths)

lemma tab_stop: "unat (w AND NOT (8 - 1)) = 8 * (unat w div 8)" for w :: u8
proof -
  have m: "(8 - 1 :: u8) = mask 3" by (simp add: mask_eq_exp_minus_1)
  have "w AND NOT (mask 3) = push_bit 3 (drop_bit 3 w)"
    by (rule bit_eqI) (auto simp: bit_and_iff bit_not_iff bit_mask_iff bit_push_bit_iff bit_drop_bit_eq)
  moreover have "unat w div 8 * 8 < 256"
  proof -
    have "unat w < 2 ^ 8" using unsigned_less [of w, where ?'a = nat] by simp
    then show ?thesis using div_mult_mod_eq [of "unat w" 8] by simp
  qed
  ultimately show ?thesis
    unfolding m by (simp add: push_bit_eq_mult drop_bit_eq_div unat_word_ariths unat_div_distrib)
qed

lemma put_displays:
  assumes "displays v t"
  shows "\<exists>v'. arch_video_put c v = Inr v' \<and> displays v' (terminal_put c t)"
proof -
  have d: "terminal_ok t" "vmem v = concat (rows t)" "unat (cur_x v) = tx t" "unat (cur_y v) = ty t"
    "tx t < 80" "ty t < 25" using assms by (simp_all add: displays_def terminal_ok_def)
  have step: "\<exists>v'. bindE (scroll (wrap_line v1)) (\<lambda>v2. Inr (move_cursor v2)) = Inr v' \<and> displays v' (advance x t1)"
    if "terminal_ok t1" "vmem v1 = concat (rows t1)" "unat (cur_x v1) = x" "unat (cur_y v1) = ty t1" "x \<le> 80" for v1 x t1
  proof -
    have "ty t1 < 25" using that(1) by (simp add: terminal_ok_def)
    note w = wrap_line_fields [of v1, unfolded that(3,4), OF that(5) this]
    show ?thesis
      using finish_put [OF that(1) w(1) [unfolded that(2)] w(2,3)] land_advance [OF that(1,5)] that(5) \<open>ty t1 < 25\<close> by simp
  qed
  consider "c = 8" "tx t = 0" | "c = 8" "tx t \<noteq> 0" | "c = 9" | "c = 13" | "c = 10" | "c \<notin> {8, 9, 10, 13}" by blast
  then show ?thesis
  proof cases
    case 1
    then have "cur_x v = 0" using d(3) by (simp add: unat_eq_0)
    moreover have "advance (tx t) t = t" using 1 by (cases t) (simp add: advance_def)
    ultimately show ?thesis using step [OF d(1-4)] 1 d(5) by (simp add: arch_video_put_def put_char_def terminal_put_def)
  next
    case 2
    let ?t = "set_cell (tx t - 1) (MEM_CHAR 32) t"
    have x: "unat (cur_x v - 1) = tx t - 1" using 2 d(3) by (metis unat_eq_0 unat_minus_one)
    have c: "put_char c v = Inr (v\<lparr>cur_x := cur_x v - 1, vmem := concat (rows ?t)\<rparr>)"
      using 2 d displays_cell [of t "v\<lparr>cur_x := cur_x v - 1\<rparr>" "tx t - 1" "MEM_CHAR 32"] x
      by (auto simp: put_char_def)
    have "advance (tx t - 1) ?t = set_cell (tx t - 1) (MEM_CHAR 32) (t\<lparr>tx := tx t - 1\<rparr>)"
      using d(5) by (simp add: advance_def set_cell_def)
    then show ?thesis
      using step [of ?t "v\<lparr>cur_x := cur_x v - 1, vmem := concat (rows ?t)\<rparr>" "tx t - 1"] c 2 d x set_cell_ok
      by (simp add: arch_video_put_def terminal_put_def)
  next
    case 3
    have "unat (cur_x v + 8) = tx t + 8" using d(3,5) by (simp add: unat_word_ariths)
    then have "unat ((cur_x v + 8) AND NOT (8 - 1)) = 8 * (tx t div 8 + 1)"
      using tab_stop [of "cur_x v + 8"] div_add_self2 [of 8 "tx t"] by simp
    then show ?thesis
      using step [of t "v\<lparr>cur_x := (cur_x v + 8) AND NOT (8 - 1)\<rparr>"] 3 d
      by (simp add: arch_video_put_def put_char_def terminal_put_def)
  next
    case 4
    then show ?thesis
      using step [of t "v\<lparr>cur_x := 0\<rparr>" 0] d by (simp add: arch_video_put_def put_char_def terminal_put_def advance_def)
  next
    case 5
    have "land 0 (ty t + 1) t = line_feed t" by (cases t) (simp add: land_def line_feed_def)
    with 5 show ?thesis
      using finish_put [of t "v\<lparr>cur_y := cur_y v + 1, cur_x := 0\<rparr>" 0 "ty t + 1"] d
      by (auto simp: arch_video_put_def put_char_def terminal_put_def wrap_line_def unat_word_ariths)
  next
    case 6
    let ?t = "set_cell (tx t) (MEM_CHAR c) t"
    have "unat (cur_x v + 1) = tx t + 1" using d(3,5) by (simp add: unat_word_ariths)
    then show ?thesis
      using step [of ?t "v\<lparr>vmem := concat (rows ?t), cur_x := cur_x v + 1\<rparr>" "tx t + 1"] 6 d set_cell_ok
        displays_cell [of t v "tx t" "MEM_CHAR c"]
      by (simp add: arch_video_put_def put_char_def terminal_put_def)
  qed
qed

lemma clear_displays:
  assumes "length (vmem v) = 2000"
  shows "\<exists>v'. arch_video_clear v = Inr v' \<and> displays v' \<lparr>rows = replicate 25 blank_row, tx = 0, ty = 0\<rparr>"
proof -
  let ?t = "\<lparr>rows = replicate 25 blank_row, tx = 0, ty = 0\<rparr>" and ?w = "MEM_CHAR 32"
  have "concat (replicate n (replicate k ?w)) = replicate (n * k) ?w" for n k
    by (induction n) (simp_all add: replicate_add)
  then have b: "concat (rows ?t) = replicate 2000 ?w" by (simp only: blank_row_def terminal.simps) simp
  have "foldE (\<lambda>m i. writeE m i ?w) (vmem v) [0 ..< 80 * 25] = Inr (replicate 2000 ?w)"
    using fill_loop [of 0 2000 "vmem v" ?w] assms by simp
  moreover have "displays (move_cursor (v\<lparr>vmem := replicate 2000 ?w, cur_x := 0, cur_y := 0\<rparr>)) ?t"
    by (rule move_cursor_displays) (use b in \<open>simp_all add: terminal_ok_def blank_row_def\<close>)
  ultimately show ?thesis by (simp add: arch_video_clear_def)
qed

text \<open>A sequence of bytes.\<close>

lemma put_all_displays:
  "displays v t \<Longrightarrow> \<exists>v'. foldE (\<lambda>v c. arch_video_put c v) v cs = Inr v' \<and> displays v' (fold terminal_put cs t)"
proof (induction cs arbitrary: v t)
  case (Cons c cs)
  from put_displays [OF Cons.prems, of c] obtain v1 where "arch_video_put c v = Inr v1" "displays v1 (terminal_put c t)"
    by blast
  with Cons.IH [of v1 "terminal_put c t"] show ?case by simp
qed simp

lemma put_s_displays:
  "is_text s \<Longrightarrow> displays v t \<Longrightarrow>
    \<exists>v'. arch_video_put_s (s @ NUL # r) v = Inr v' \<and> displays v' (fold terminal_put (map of_char s) t)"
proof (induction s arbitrary: v t)
  case (Cons c s)
  from put_displays [OF Cons.prems(2), of "of_char c"] obtain v1 where
    "arch_video_put (of_char c) v = Inr v1" "displays v1 (terminal_put (of_char c) t)" by blast
  with Cons.IH [of v1 "terminal_put (of_char c) t"] Cons.prems(1) show ?case by simp
qed simp

section \<open>Properties\<close>

text \<open>C14. The display driver refines a terminal of 25 rows of 80 columns: after initialisation, printing
  any bytes never writes outside the video memory, and the memory, the cursor variables and the
  controller's cursor position show the terminal those bytes produce, with backspace, tab stops,
  carriage return, line feed, wrapping and scrolling.\<close>

theorem video_refines_terminal:
  assumes "length (vmem v) = 2000"
  shows "\<exists>v1 v2. arch_video_init v = Inr v1 \<and> foldE (\<lambda>v c. arch_video_put c v) v1 cs = Inr v2 \<and>
    displays v2 (fold terminal_put cs blank_screen)"
proof -
  from clear_displays [OF assms] obtain v1 where "arch_video_init v = Inr v1" "displays v1 blank_screen"
    by (auto simp: arch_video_init_def blank_screen_def)
  with put_all_displays [of v1 blank_screen cs] show ?thesis by blast
qed

theorem video_refines_terminal_witness:
  "\<exists>v1 v2. arch_video_init \<lparr>vmem = replicate 2000 0, cur_x = 3, cur_y = 9, crt_cursor = 7\<rparr> = Inr v1 \<and>
    foldE (\<lambda>v c. arch_video_put c v) v1 [72, 105, 10, 9, 33] = Inr v2 \<and>
    displays v2 (fold terminal_put [72, 105, 10, 9, 33] blank_screen) \<and> cur_y v2 = 1 \<and> cur_x v2 = 9"
proof -
  have "length (vmem \<lparr>vmem = replicate 2000 0, cur_x = 3, cur_y = 9, crt_cursor = 7\<rparr>) = 2000" by simp
  from video_refines_terminal [OF this, of "[72, 105, 10, 9, 33]"] obtain v1 v2 where
    v: "arch_video_init \<lparr>vmem = replicate 2000 0, cur_x = 3, cur_y = 9, crt_cursor = 7\<rparr> = Inr v1"
    "foldE (\<lambda>v c. arch_video_put c v) v1 [72, 105, 10, 9, 33] = Inr v2"
    "displays v2 (fold terminal_put [72, 105, 10, 9, 33] blank_screen)" by blast
  let ?t = "fold terminal_put [72, 105, 10, 9, 33] blank_screen"
  have "tx ?t = 9" "ty ?t = 1"
    by (simp_all add: terminal_put_def advance_def line_feed_def blank_screen_def)
  with v(3) have "unat (cur_x v2) = unat (9 :: u8)" "unat (cur_y v2) = unat (1 :: u8)" by (simp_all add: displays_def)
  then have "cur_y v2 = 1 \<and> cur_x v2 = 9" by (simp only: word_unat_eq_iff)
  with v show ?thesis by blast
qed

end
