(* ===== verification/Printk.thy ===== *)
theory Printk
  imports Video Mutex
begin

text \<open>
  Kernel messages: the console's write operation of \<open>kernel/console.c\<close> and the formatted output of
  \<open>kernel/printk.c\<close>.  Variable arguments are the words on the stack; a pointer among them is looked
  up in \<open>strings\<close>, the text found at an address.  Reading more arguments than were passed is an
  access outside them.  The loop that slows output down has no effect and is left out.
\<close>

section \<open>The console\<close>

text \<open>\<open>con_write\<close> says whether \<open>console.write\<close> is set.  \<open>numbuf\<close> is the buffer of \<open>itoa\<close> and \<open>itox\<close>,
  with the byte behind it.\<close>

record console =
  con_video :: video
  con_early_init :: bool
  con_write :: bool
  numbuf :: string
  printk_lock :: mutex_t
  ticks :: u32
  printk_delay_spin :: u32

fun console_write :: "u8 list \<Rightarrow> video \<Rightarrow> (nat \<times> video) outcome" where
  "console_write [] v = Inr (0, v)"
| "console_write (b # bs) v =
     bindE (arch_video_put b v) (\<lambda>v1. bindE (console_write bs v1) (\<lambda>(i, v2). Inr (i + 1, v2)))"

definition console_early_init :: "console \<Rightarrow> console outcome" where
  "console_early_init s =
     bindE (arch_video_init (con_video s)) (\<lambda>v.
     Inr (s\<lparr>con_video := v, con_early_init := True, con_write := True\<rparr>))"

text \<open>\<open>vfs_write(&console, 0, len, buf)\<close>.\<close>

definition write_console :: "u8 list \<Rightarrow> console \<Rightarrow> console outcome" where
  "write_console bs s =
     (if con_write s then bindE (console_write bs (con_video s)) (\<lambda>(_, v). Inr (s\<lparr>con_video := v\<rparr>))
      else Inr s)"

section \<open>Formatted output\<close>

definition bytes_of :: "string \<Rightarrow> u8 list" where
  "bytes_of s = map of_char s"

text \<open>\<open>vfs_write(&console, 0, strlen(s), s)\<close>.\<close>

definition write_string :: "string \<Rightarrow> console \<Rightarrow> console outcome" where
  "write_string str s = bindE (strlen str) (\<lambda>n. write_console (bytes_of (take (unat n) str)) s)"

definition print_hex :: "u32 \<Rightarrow> console \<Rightarrow> console outcome" where
  "print_hex u s =
     (if u \<noteq> 0 then bindE (itox (numbuf s) u) (\<lambda>b. write_string b (s\<lparr>numbuf := b\<rparr>))
      else write_console [48] s)"

definition print_int :: "i32 \<Rightarrow> console \<Rightarrow> console outcome" where
  "print_int i s =
     (if i \<noteq> 0 then bindE (itoa (numbuf s) i) (\<lambda>b. write_string b (s\<lparr>numbuf := b\<rparr>))
      else write_console [48] s)"

definition print_str :: "(addr \<Rightarrow> string option) \<Rightarrow> addr \<Rightarrow> console \<Rightarrow> console outcome" where
  "print_str strings p s =
     (case strings p of None \<Rightarrow> Inl Null_Deref | Some str \<Rightarrow> write_string str s)"

text \<open>The arguments left are part of the result, as the source passes the list by reference.\<close>

partial_function (option) kvprintf :: "(addr \<Rightarrow> string option) \<Rightarrow> string \<Rightarrow> u32 list \<Rightarrow> console \<Rightarrow>
    (u32 list \<times> console) run" where
  "kvprintf strings fmt args s =
     (if fmt = [] then Some (Inl Out_Of_Bounds)
      else if hd fmt = NUL then Some (Inr (args, s))
      else if hd fmt \<noteq> CHR ''%'' then
        (case write_console [of_char (hd fmt)] s of
           Inl t \<Rightarrow> Some (Inl t) | Inr s1 \<Rightarrow> kvprintf strings (tl fmt) args s1)
      else if tl fmt = [] then Some (Inl Out_Of_Bounds)
      else if fmt ! 1 = CHR ''x'' then
        (case args of [] \<Rightarrow> Some (Inl Out_Of_Bounds)
         | u # rest \<Rightarrow>
             (case print_hex u s of
                Inl t \<Rightarrow> Some (Inl t) | Inr s1 \<Rightarrow> kvprintf strings (drop 2 fmt) rest s1))
      else if fmt ! 1 = CHR ''c'' then
        (case args of [] \<Rightarrow> Some (Inl Out_Of_Bounds)
         | u # rest \<Rightarrow>
             (case write_console [ucast u] s of
                Inl t \<Rightarrow> Some (Inl t) | Inr s1 \<Rightarrow> kvprintf strings fmt rest s1))
      else if fmt ! 1 = CHR ''i'' then
        (case args of [] \<Rightarrow> Some (Inl Out_Of_Bounds)
         | u # rest \<Rightarrow>
             (case print_int u s of
                Inl t \<Rightarrow> Some (Inl t) | Inr s1 \<Rightarrow> kvprintf strings (drop 2 fmt) rest s1))
      else if fmt ! 1 = CHR ''s'' then
        (case args of [] \<Rightarrow> Some (Inl Out_Of_Bounds)
         | u # rest \<Rightarrow>
             (case print_str strings u s of
                Inl t \<Rightarrow> Some (Inl t) | Inr s1 \<Rightarrow> kvprintf strings (drop 2 fmt) rest s1))
      else
        (case write_console [of_char (hd fmt)] s of
           Inl t \<Rightarrow> Some (Inl t) | Inr s1 \<Rightarrow> kvprintf strings (tl fmt) args s1))"

declare kvprintf.simps [code]

definition kprintf :: "(addr \<Rightarrow> string option) \<Rightarrow> string \<Rightarrow> u32 list \<Rightarrow> console \<Rightarrow> console run" where
  "kprintf strings fmt args s = bindR (kvprintf strings fmt args s) (\<lambda>(_, s1). Some (Inr s1))"

definition printk :: "(addr \<Rightarrow> string option) \<Rightarrow> string \<Rightarrow> u32 list \<Rightarrow> (console, unit) proc" where
  "printk strings fmt args es s =
     bindR (mutex_busywait printk_lock (\<lambda>m s. s\<lparr>printk_lock := m\<rparr>) es s) (\<lambda>(s1, es1).
     bindR (kprintf strings (cstr [CHR 0x0D]) [] s1) (\<lambda>s2.
     bindR (kprintf strings (cstr ''[%i] '') [ticks s2] s2) (\<lambda>s3.
     bindR (kvprintf strings fmt args s3) (\<lambda>(_, s4).
     bindR (kprintf strings (cstr [CHR 0x0A]) [] s4) (\<lambda>s5.
     bindR (Some (mutex_release (printk_lock s5))) (\<lambda>m.
     Some (Inr ((), s5\<lparr>printk_lock := m\<rparr>, es1))))))))"

definition printk_int :: "(addr \<Rightarrow> string option) \<Rightarrow> string \<Rightarrow> i32 \<Rightarrow> console \<Rightarrow> console run" where
  "printk_int strings str arg s = kprintf strings str [arg] s"

definition printk_delay :: "u32 \<Rightarrow> console \<Rightarrow> console" where
  "printk_delay d s = s\<lparr>printk_delay_spin := d\<rparr>"

section \<open>Specification\<close>

text \<open>What a format prints; \<open>None\<close> where an argument is missing, a string is not there or \<open>%c\<close> occurs.\<close>

definition string_at :: "string \<Rightarrow> string option" where
  "string_at str = (if NUL \<in> set str \<and> length str < 2 ^ 32 then Some (text_of str) else None)"

definition conversion :: "(addr \<Rightarrow> string option) \<Rightarrow> char \<Rightarrow> u32 \<Rightarrow> string option" where
  "conversion strings d u =
     (if d = CHR ''x'' then Some (hexadecimal u)
      else if d = CHR ''i'' then Some (decimal (unat u))
      else if d = CHR ''s'' then Option.bind (strings u) string_at
      else None)"

fun rendered :: "(addr \<Rightarrow> string option) \<Rightarrow> string \<Rightarrow> u32 list \<Rightarrow> string option" where
  "rendered strings [] args = Some []"
| "rendered strings (c # fmt) args =
     (if c = CHR ''%'' \<and> fmt \<noteq> [] \<and> hd fmt \<in> set ''xcis'' then
        (case args of [] \<Rightarrow> None
         | u # rest \<Rightarrow>
             Option.bind (conversion strings (hd fmt) u) (\<lambda>out. map_option ((@) out) (rendered strings (tl fmt) rest)))
      else map_option ((#) c) (rendered strings fmt args))"

text \<open>The console shows a terminal and the number buffer has its size.\<close>

definition console_shows :: "console \<Rightarrow> terminal \<Rightarrow> bool" where
  "console_shows s t = (con_write s \<and> displays (con_video s) t \<and> length (numbuf s) = 12)"

definition print_text :: "string \<Rightarrow> terminal \<Rightarrow> terminal" where
  "print_text str t = fold terminal_put (bytes_of str) t"

section \<open>Lemmas\<close>

lemma print_text_simps [simp]:
  "print_text [] t = t" "print_text (c # str) t = print_text str (terminal_put (of_char c) t)"
  "print_text (str @ str') t = print_text str' (print_text str t)"
  by (simp_all add: print_text_def bytes_of_def)

lemma console_write_eq:
  "console_write bs v = bindE (foldE (\<lambda>v c. arch_video_put c v) v bs) (\<lambda>v'. Inr (length bs, v'))"
proof (induction bs arbitrary: v)
  case (Cons b bs)
  then show ?case by (cases "arch_video_put b v") (simp_all add: bindE_def split: sum.split)
qed simp

text \<open>Output changes the display and the number buffer only.\<close>

definition prints :: "string \<Rightarrow> console \<Rightarrow> terminal \<Rightarrow> console \<Rightarrow> bool" where
  "prints out s t s' = (console_shows s' (print_text out t) \<and>
     s' = s\<lparr>con_video := con_video s', numbuf := numbuf s'\<rparr>)"

lemma prints_trans: "prints a s t s1 \<Longrightarrow> prints b s1 (print_text a t) s2 \<Longrightarrow> prints (a @ b) s t s2"
  by (cases s; cases s1; cases s2) (auto simp: prints_def)

lemma write_console_shows:
  assumes "console_shows s t"
  shows "\<exists>v. write_console bs s = Inr (s\<lparr>con_video := v\<rparr>) \<and> displays v (fold terminal_put bs t)"
proof -
  from put_all_displays [of "con_video s" t bs] assms obtain v where
    "foldE (\<lambda>v c. arch_video_put c v) (con_video s) bs = Inr v" "displays v (fold terminal_put bs t)"
    by (auto simp: console_shows_def)
  then show ?thesis using assms by (auto simp: write_console_def console_shows_def console_write_eq)
qed

lemma write_console_prints:
  assumes "console_shows s t"
  shows "\<exists>s'. write_console (bytes_of out) s = Inr s' \<and> prints out s t s'"
  using write_console_shows [OF assms, of "bytes_of out"] assms
  by (auto simp: console_shows_def prints_def print_text_def)

lemma write_string_prints:
  assumes "console_shows s t" "string_at str = Some out"
  shows "\<exists>s'. write_string str s = Inr s' \<and> prints out s t s'"
proof -
  have n: "NUL \<in> set str" "length str < 2 ^ 32" "out = text_of str"
    using assms(2) by (simp_all add: string_at_def split: if_splits)
  have "length (text_of str) \<le> length str" by (simp add: text_of_def length_takeWhile_le)
  then have "unat (of_nat (length (text_of str)) :: u32) = length (text_of str)"
    using n(2) by (simp add: unat_of_nat_u32)
  moreover have "take (length (text_of str)) str = text_of str"
    by (metis text_of_def takeWhile_eq_take length_takeWhile_le min.absorb1 length_take)
  ultimately show ?thesis using write_console_prints [OF assms(1), of out] n
    by (simp add: write_string_def strlen_eq)
qed

lemma numbuf_prints:
  assumes "console_shows s t" "length b = 12" "NUL \<in> set b"
  shows "\<exists>s'. write_string b (s\<lparr>numbuf := b\<rparr>) = Inr s' \<and> prints (text_of b) s t s'"
proof -
  have "console_shows (s\<lparr>numbuf := b\<rparr>) t" using assms by (simp add: console_shows_def)
  moreover have "string_at b = Some (text_of b)" using assms by (simp add: string_at_def)
  ultimately obtain s' where "write_string b (s\<lparr>numbuf := b\<rparr>) = Inr s'" "prints (text_of b) (s\<lparr>numbuf := b\<rparr>) t s'"
    using write_string_prints by blast
  then show ?thesis by (auto simp: prints_def)
qed

lemma bytes_zero: "bytes_of ''0'' = [48]"
  by (simp add: bytes_of_def)

lemma print_hex_prints:
  assumes "console_shows s t"
  shows "\<exists>s'. print_hex u s = Inr s' \<and> prints (hexadecimal u) s t s'"
proof (cases "u = 0")
  case True
  then show ?thesis using write_console_prints [OF assms, of "''0''"] bytes_zero by (simp add: print_hex_def hexadecimal_def)
next
  case False
  from itox_run [of "numbuf s" u] assms obtain b where
    "itox (numbuf s) u = Inr b" "length b = 12" "NUL \<in> set b" "text_of b = hexadecimal u"
    by (auto simp: console_shows_def)
  with numbuf_prints [OF assms, of b] False show ?thesis by (simp add: print_hex_def)
qed

lemma print_int_prints:
  assumes "console_shows s t"
  shows "\<exists>s'. print_int u s = Inr s' \<and> prints (decimal (unat u)) s t s'"
proof (cases "u = 0")
  case True
  have "decimal 0 = ''0''" by code_simp
  with True show ?thesis using write_console_prints [OF assms, of "''0''"] bytes_zero by (simp add: print_int_def)
next
  case False
  from itoa_run [of "numbuf s" u] assms False obtain b where
    "itoa (numbuf s) u = Inr b" "length b = 12" "NUL \<in> set b" "text_of b = decimal (unat u)"
    by (auto simp: console_shows_def)
  with numbuf_prints [OF assms, of b] False show ?thesis by (simp add: print_int_def)
qed

lemma print_str_prints:
  assumes "console_shows s t" "Option.bind (strings p) string_at = Some out"
  shows "\<exists>s'. print_str strings p s = Inr s' \<and> prints out s t s'"
  using assms write_string_prints by (auto simp: print_str_def bind_eq_Some_conv)

lemma print_char_prints:
  assumes "console_shows s t"
  shows "\<exists>s'. write_console [of_char c] s = Inr s' \<and> prints [c] s t s'"
  using write_console_prints [OF assms, of "[c]"] by (simp add: bytes_of_def)

lemma prints_shows: "prints out s t s' \<Longrightarrow> console_shows s' (print_text out t)"
  by (simp add: prints_def)

text \<open>One round of the loop: a character, or a conversion with its argument.\<close>

lemma kvprintf_nul [simp]: "kvprintf strings (NUL # fmt) args s = Some (Inr (args, s))"
  by (simp add: kvprintf.simps)

lemma kvprintf_char:
  assumes "c \<noteq> NUL" "c = CHR ''%'' \<Longrightarrow> fmt \<noteq> [] \<and> hd fmt \<notin> set ''xcis''"
  shows "kvprintf strings (c # fmt) args s =
    bindR (Some (write_console [of_char c] s)) (kvprintf strings fmt args)"
  using assms by (subst kvprintf.simps) (cases fmt; auto simp: bindR_def split: sum.split)

definition convert :: "(addr \<Rightarrow> string option) \<Rightarrow> char \<Rightarrow> u32 \<Rightarrow> console \<Rightarrow> console outcome" where
  "convert strings d u s = (if d = CHR ''x'' then print_hex u s else if d = CHR ''i'' then print_int u s
     else print_str strings u s)"

lemma kvprintf_convert:
  assumes "d \<in> set ''xis''"
  shows "kvprintf strings (CHR ''%'' # d # fmt) (u # args) s =
    bindR (Some (convert strings d u s)) (kvprintf strings fmt args)"
  using assms by (subst kvprintf.simps) (auto simp: bindR_def convert_def split: sum.split)

lemma convert_prints:
  assumes "console_shows s t" "d \<in> set ''xis''" "conversion strings d u = Some out"
  shows "\<exists>s'. convert strings d u s = Inr s' \<and> prints out s t s'"
proof -
  from assms(2) consider "d = CHR ''x''" | "d = CHR ''i''" | "d = CHR ''s''" by auto
  then show ?thesis
    using assms(3) print_hex_prints [OF assms(1), of u] print_int_prints [OF assms(1), of u]
      print_str_prints [OF assms(1), of strings u out]
    by cases (simp_all add: convert_def conversion_def)
qed

lemma kvprintf_run:
  "is_text fmt \<Longrightarrow> console_shows s t \<Longrightarrow> rendered strings fmt args = Some out \<Longrightarrow>
    \<exists>rest s'. kvprintf strings (cstr fmt) args s = Some (Inr (rest, s')) \<and> prints out s t s'"
proof (induction strings fmt args arbitrary: s t out rule: rendered.induct)
  case (1 strings args)
  then show ?case by (auto simp: prints_def)
next
  case (2 strings c fmt args)
  show ?case
  proof (cases "c = CHR ''%'' \<and> fmt \<noteq> [] \<and> hd fmt \<in> set ''xcis''")
    case True
    then obtain d fmt' where d: "fmt = d # fmt'" by (cases fmt) auto
    obtain u args' where u: "args = u # args'" using 2(5) True by (cases args) auto
    obtain a b where ab: "conversion strings d u = Some a"
      "rendered strings fmt' args' = Some b" "out = a @ b"
      using 2(5) True d u by (auto simp: bind_eq_Some_conv)
    have x: "d \<in> set ''xis''" using True d ab(1) by (auto simp: conversion_def)
    from convert_prints [OF 2(4) x ab(1)] obtain s1 where s1: "convert strings d u s = Inr s1" "prints a s t s1" by blast
    have tx: "is_text fmt'" "conversion strings (hd fmt) u = Some a" using 2(3) d ab(1) by simp_all
    from 2(1) [OF True u tx(2), of s1 "print_text a t" b] tx(1) prints_shows [OF s1(2)] ab(2) d obtain rest s2 where
      "kvprintf strings (cstr fmt') args' s1 = Some (Inr (rest, s2))" "prints b s1 (print_text a t) s2" by auto
    then show ?thesis using True d u s1 ab(3) kvprintf_convert [OF x, of strings "cstr fmt'" u args' s] prints_trans
      by auto
  next
    case False
    then obtain b where b: "rendered strings fmt args = Some b" "out = c # b" using 2(5) by auto
    from print_char_prints [OF 2(4), of c] obtain s1 where
      s1: "write_console [of_char c] s = Inr s1" "prints [c] s t s1" by blast
    have tx: "is_text fmt" "c \<noteq> NUL" using 2(3) by simp_all
    from 2(2) [OF False tx(1) prints_shows [OF s1(2)] b(1)] obtain rest s2 where
      s2: "kvprintf strings (cstr fmt) args s1 = Some (Inr (rest, s2))" "prints b s1 (print_text [c] t) s2" by auto
    have "c = CHR ''%'' \<Longrightarrow> cstr fmt \<noteq> [] \<and> hd (cstr fmt) \<notin> set ''xcis''"
      using False by (cases fmt) auto
    from kvprintf_char [OF tx(2) this, of strings args s] s1 s2 prints_trans [OF s1(2) s2(2)] b(2) show ?thesis by simp
  qed
qed

lemma kprintf_run:
  assumes "is_text fmt" "console_shows s t" "rendered strings fmt args = Some out"
  shows "\<exists>s'. kprintf strings (cstr fmt) args s = Some (Inr s') \<and> prints out s t s'"
  using kvprintf_run [OF assms] by (auto simp: kprintf_def)

text \<open>\<open>%c\<close> prints its argument and stays where it is.\<close>

lemma kvprintf_percent_c:
  "console_shows s t \<Longrightarrow> kvprintf strings (CHR ''%'' # CHR ''c'' # fmt) args s = Some (Inl Out_Of_Bounds)"
proof (induction args arbitrary: s t)
  case Nil
  then show ?case by (simp add: kvprintf.simps)
next
  case (Cons u args)
  from write_console_shows [OF Cons.prems, of "[ucast u]"] Cons.prems obtain v where
    "write_console [ucast u] s = Inr (s\<lparr>con_video := v\<rparr>)"
    "console_shows (s\<lparr>con_video := v\<rparr>) (fold terminal_put [ucast u] t)"
    by (auto simp: console_shows_def)
  with Cons.IH show ?case by (subst kvprintf.simps) simp
qed

section \<open>Properties\<close>

lemma mutex_busywait_free:
  "ms (get s) = 0 \<Longrightarrow> mutex_busywait get put es s = Some (Inr (put ((get s)\<lparr>ms := 1\<rparr>) s, es))"
  by (subst mutex_busywait.simps) (simp add: mutex_try_free)

definition message :: "u32 \<Rightarrow> string \<Rightarrow> string" where
  "message tick out = [CHR 0x0D] @ ''['' @ decimal (unat tick) @ ''] '' @ out @ [CHR 0x0A]"

lemma rendered_prefix: "rendered strings ''[%i] '' [u] = Some (''['' @ decimal (unat u) @ ''] '')"
  by (simp add: conversion_def)

lemma rendered_char: "c \<noteq> CHR ''%'' \<Longrightarrow> rendered strings [c] args = Some [c]"
  by simp

text \<open>C15. \<open>printk\<close>, called when no one holds its lock, returns with the lock free again, having
  put on the display a carriage return, the tick count in brackets, the format with every \<open>%x\<close>, \<open>%i\<close> and
  \<open>%s\<close> replaced by its argument, and a line feed, and having changed nothing but the display
  and the number buffer.\<close>

theorem printk_prints:
  assumes "is_text fmt" "rendered strings fmt args = Some out" "console_shows s t" "ms (printk_lock s) = 0"
  shows "\<exists>s'. printk strings (cstr fmt) args es s = Some (Inr ((), s', es)) \<and> prints (message (ticks s) out) s t s'"
proof -
  let ?m = "(printk_lock s)\<lparr>ms := 1\<rparr>"
  let ?s = "s\<lparr>printk_lock := ?m\<rparr>" and ?p = "''['' @ decimal (unat (ticks s)) @ ''] ''"
  have s0: "console_shows ?s t" using assms(3) by (simp add: console_shows_def)
  from kprintf_run [OF _ s0 rendered_char, of "CHR 0x0D" strings "[]"] obtain s1 where
    s1: "kprintf strings (cstr [CHR 0x0D]) [] ?s = Some (Inr s1)" "prints [CHR 0x0D] ?s t s1" by auto
  have k: "ticks s1 = ticks s" using s1(2) by (cases s; cases s1) (simp add: prints_def)
  from kprintf_run [OF _ prints_shows [OF s1(2)] rendered_prefix, of strings "ticks s1"] obtain s2 where
    s2: "kprintf strings (cstr ''[%i] '') [ticks s1] s1 = Some (Inr s2)" "prints ?p s1 (print_text [CHR 0x0D] t) s2"
    unfolding k by auto
  note p2 = prints_trans [OF s1(2) s2(2)]
  from kvprintf_run [OF assms(1) prints_shows [OF p2] assms(2)] obtain rest s3 where
    s3: "kvprintf strings (cstr fmt) args s2 = Some (Inr (rest, s3))" "prints out s2 (print_text ([CHR 0x0D] @ ?p) t) s3" by blast
  note p3 = prints_trans [OF p2 s3(2)]
  from kprintf_run [OF _ prints_shows [OF p3] rendered_char, of "CHR 0x0A" strings "[]"] obtain s4 where
    s4: "kprintf strings (cstr [CHR 0x0A]) [] s3 = Some (Inr s4)"
      "prints [CHR 0x0A] s3 (print_text (([CHR 0x0D] @ ?p) @ out) t) s4" by auto
  have p4: "prints (message (ticks s) out) ?s t s4" using prints_trans [OF p3 s4(2)] by (simp add: message_def)
  have l: "printk_lock s4 = ?m" using p4 by (cases s; cases s4) (simp add: prints_def)
  let ?r = "s4\<lparr>printk_lock := ?m\<lparr>ms := 0\<rparr>\<rparr>"
  have "?m\<lparr>ms := 0\<rparr> = printk_lock s" using assms(4) by (cases "printk_lock s") simp
  then have "prints (message (ticks s) out) s t ?r"
    using p4 by (cases s; cases s4) (auto simp: prints_def console_shows_def)
  moreover have "printk strings (cstr fmt) args es s = Some (Inr ((), ?r, es))"
    using s1(1) s2(1) s3(1) s4(1) l mutex_release_held [of ?m]
    by (simp add: printk_def mutex_busywait_free [where get = printk_lock, OF assms(4)])
  ultimately show ?thesis by blast
qed

text \<open>A format with \<open>%c\<close> as its first conversion never returns normally: the loop prints one argument after
  the other without advancing, until it reads past the arguments that were passed.\<close>

theorem percent_c_overruns:
  assumes "is_text fmt" "CHR ''%'' \<notin> set fmt" "console_shows s t"
  shows "kprintf strings (cstr (fmt @ ''%c'' @ fmt')) args s = Some (Inl Out_Of_Bounds)"
  using assms
proof (induction fmt arbitrary: s t)
  case Nil
  then show ?case using kvprintf_percent_c by (simp add: kprintf_def)
next
  case (Cons c fmt)
  from print_char_prints [OF Cons.prems(3), of c] obtain s1 where
    s1: "write_console [of_char c] s = Inr s1" "console_shows s1 (print_text [c] t)" using prints_shows by blast
  then have "kprintf strings (cstr (fmt @ ''%c'' @ fmt')) args s1 = Some (Inl Out_Of_Bounds)"
    using Cons by simp
  moreover have "c \<noteq> NUL" "c \<noteq> CHR ''%''" using Cons.prems(1,2) by auto
  ultimately show ?case
    using s1(1) kvprintf_char [of c "cstr (fmt @ ''%c'' @ fmt')" strings args s] by (simp add: kprintf_def)
qed

definition boot_console :: console where
  "boot_console = \<lparr>con_video = \<lparr>vmem = replicate 2000 0, cur_x = 0, cur_y = 0, crt_cursor = 0\<rparr>,
     con_early_init = False, con_write = False, numbuf = replicate 12 NUL,
     printk_lock = MUTEX_INITIALIZER, ticks = 0, printk_delay_spin = 0\<rparr>"

lemma early_init_shows:
  assumes "length (vmem (con_video s)) = 2000" "length (numbuf s) = 12"
  shows "\<exists>v. console_early_init s = Inr (s\<lparr>con_video := v, con_early_init := True, con_write := True\<rparr>) \<and>
    displays v blank_screen"
  using clear_displays [OF assms(1)] by (auto simp: console_early_init_def arch_video_init_def blank_screen_def)

theorem printk_prints_witness:
  "\<exists>s s'. console_early_init boot_console = Inr s \<and>
    printk (\<lambda>_. None) (cstr ''cr2=%x'') [0x2A] [] s = Some (Inr ((), s', [])) \<and>
    prints (message 0 ''cr2=0000002A'') s blank_screen s'"
proof -
  from early_init_shows [of boot_console] obtain v where
    v: "console_early_init boot_console = Inr (boot_console\<lparr>con_video := v, con_early_init := True, con_write := True\<rparr>)"
    "displays v blank_screen" by (auto simp: boot_console_def)
  let ?s = "boot_console\<lparr>con_video := v, con_early_init := True, con_write := True\<rparr>"
  have "console_shows ?s blank_screen" "ms (printk_lock ?s) = 0" "ticks ?s = 0"
    using v(2) by (simp_all add: console_shows_def boot_console_def MUTEX_INITIALIZER_def)
  moreover have "rendered (\<lambda>_. None) ''cr2=%x'' [0x2A] = Some ''cr2=0000002A''" by code_simp
  moreover have "is_text ''cr2=%x''" by (simp add: is_text_def)
  ultimately show ?thesis using printk_prints [of "''cr2=%x''" "\<lambda>_. None" "[0x2A]" _ ?s blank_screen "[]"] v(1) by auto
qed

theorem percent_c_overruns_witness:
  "\<exists>s. console_early_init boot_console = Inr s \<and>
    kprintf (\<lambda>_. None) (cstr (''key '' @ ''%c'' @ ''.'')) [65, 66] s = Some (Inl Out_Of_Bounds)"
proof -
  from early_init_shows [of boot_console] obtain v where
    v: "console_early_init boot_console = Inr (boot_console\<lparr>con_video := v, con_early_init := True, con_write := True\<rparr>)"
    "displays v blank_screen" by (auto simp: boot_console_def)
  let ?s = "boot_console\<lparr>con_video := v, con_early_init := True, con_write := True\<rparr>"
  have "console_shows ?s blank_screen" using v(2) by (simp add: console_shows_def boot_console_def)
  then show ?thesis using percent_c_overruns [of "''key ''" ?s blank_screen "\<lambda>_. None" "''.''" "[65, 66]"] v(1)
    by (simp add: is_text_def)
qed

end
