(* ===== verification/Kbd.thy ===== *)
theory Kbd
  imports Semaphore Ring
begin

text \<open>
  The keyboard driver of \<open>kernel/arch/x86/kbd.c\<close>: the interrupt handler that turns scan codes into
  characters and stores them in the input buffer, and the read operation that blocks until a
  character is there.  The heads of the buffer are addresses, as in the source, and the memory is a
  map from addresses to bytes, undefined where no page is mapped: \<open>kbd_init\<close> does not point the
  heads at the buffer, so where the bytes go is part of what the code does.  A reader that finds no
  character sleeps inside \<open>semaphore_waitsleep\<close>, which runs on the state of the driver, and is woken
  by the interrupt handler through the waiter struct it has attached.
\<close>

section \<open>Driver\<close>

definition KBD_LEFT_SHIFT :: u8 where "KBD_LEFT_SHIFT = 128"
definition KBD_RIGHT_SHIFT :: u8 where "KBD_RIGHT_SHIFT = 129"
definition KBD_ALT :: u8 where "KBD_ALT = 130"
definition CONFIG_KBD_INPUT_BUFFER_SIZE :: nat where "CONFIG_KBD_INPUT_BUFFER_SIZE = 1024"

lemmas kbd_keys = KBD_LEFT_SHIFT_def KBD_RIGHT_SHIFT_def KBD_ALT_def

record keymask_t =
  left_shift :: bool
  right_shift :: bool
  alt :: bool

record keyboard =
  keymask :: keymask_t
  keymap :: "u8 list"
  kbd_input_buffer :: addr
  kbd_input_buffer_rhead :: addr
  kbd_input_buffer_whead :: addr
  kbd_input_buffer_len :: u32
  kbd_semaphore :: semaphore_t
  kbd_sleepers :: waiter_heap
  kbd_mem :: "addr \<Rightarrow> u8 option"

definition kbdus :: "u8 list" where
  "kbdus = map of_char
      ([CHR 0x00, CHR 0x1B] @ ''1234567890-='' @ [CHR 0x08, CHR 0x09] @ ''qwertyuiop[]'' @ [CHR 0x0A, CHR 0x00] @
       ''asdfghjkl;'' @ [CHR 0x27, CHR 0x60]) @
     [KBD_LEFT_SHIFT] @ map of_char ([CHR 0x5C] @ ''zxcvbnm,./'') @ [KBD_RIGHT_SHIFT] @ map of_char ''*'' @
     [KBD_ALT] @ map of_char '' '' @ replicate 16 0 @ map of_char ''-'' @ replicate 3 0 @ map of_char ''+'' @
     replicate 49 0"

text \<open>A head moves on; at the end of the buffer it goes back to its start.\<close>

definition kbd_next :: "addr \<Rightarrow> addr \<Rightarrow> addr" where
  "kbd_next buffer p =
     (if p + 1 \<ge> buffer + of_nat CONFIG_KBD_INPUT_BUFFER_SIZE then buffer else p + 1)"

text \<open>Where the semaphore and the waiter structs are in the state of the driver.\<close>

definition kbd_sem :: "keyboard \<Rightarrow> sem_state" where
  "kbd_sem s = (kbd_semaphore s, kbd_sleepers s)"

definition put_kbd_sem :: "sem_state \<Rightarrow> keyboard \<Rightarrow> keyboard" where
  "put_kbd_sem x s = s\<lparr>kbd_semaphore := fst x, kbd_sleepers := snd x\<rparr>"

text \<open>The character is stored if there is room.\<close>

definition kbd_store :: "u8 \<Rightarrow> keyboard \<Rightarrow> keyboard run" where
  "kbd_store c s =
     (if kbd_input_buffer_len s < of_nat CONFIG_KBD_INPUT_BUFFER_SIZE then
        (case kbd_mem s (kbd_input_buffer_whead s) of
           None \<Rightarrow> Some (Inl Out_Of_Bounds)
         | Some _ \<Rightarrow>
             let s1 = s\<lparr>kbd_mem := (kbd_mem s)(kbd_input_buffer_whead s \<mapsto> c),
                        kbd_input_buffer_whead := kbd_next (kbd_input_buffer s) (kbd_input_buffer_whead s),
                        kbd_input_buffer_len := kbd_input_buffer_len s + 1\<rparr> in
             bindR (semaphore_signal_sleep kbd_sem put_kbd_sem [] s1) (\<lambda>(s2, _, _). Some (Inr s2)))
      else Some (Inr s))"

definition shifted :: "keymask_t \<Rightarrow> u8 \<Rightarrow> u8" where
  "shifted m c = (if left_shift m \<or> right_shift m then if c \<ge> 97 \<and> c \<le> 122 then c - (97 - 65) else c else c)"

definition kbd_input_handler :: "u8 \<Rightarrow> keyboard \<Rightarrow> keyboard run" where
  "kbd_input_handler scan_code s =
     (if scan_code AND 0x80 \<noteq> 0 then
        bindR (Some (readE (keymap s) (unat (scan_code AND 0x7F)))) (\<lambda>c.
        if c = KBD_LEFT_SHIFT then Some (Inr (s\<lparr>keymask := (keymask s)\<lparr>left_shift := False\<rparr>\<rparr>))
        else if c = KBD_RIGHT_SHIFT then Some (Inr (s\<lparr>keymask := (keymask s)\<lparr>right_shift := False\<rparr>\<rparr>))
        else if c = KBD_ALT then Some (Inr (s\<lparr>keymask := (keymask s)\<lparr>alt := False\<rparr>\<rparr>))
        else Some (Inr s))
      else
        bindR (Some (readE (keymap s) (unat scan_code))) (\<lambda>c.
        if c = KBD_LEFT_SHIFT then Some (Inr (s\<lparr>keymask := (keymask s)\<lparr>left_shift := True\<rparr>\<rparr>))
        else if c = KBD_RIGHT_SHIFT then Some (Inr (s\<lparr>keymask := (keymask s)\<lparr>right_shift := True\<rparr>\<rparr>))
        else
          let s1 = (if c = KBD_ALT then s\<lparr>keymask := (keymask s)\<lparr>alt := True\<rparr>\<rparr> else s) in
          kbd_store (shifted (keymask s1) c) s1))"

text \<open>
  While the reader sleeps the actions \<open>acts\<close> take place, one at each \<open>pause()\<close>; with no action left
  it has not returned.  \<open>gap\<close> is what happens between its test of the count and the attachment of its
  waiter.
\<close>

type_synonym kbd_act = "keyboard \<Rightarrow> keyboard"

definition kbd_wait :: "kbd_act \<Rightarrow> i32 \<Rightarrow> addr \<Rightarrow> kbd_act list \<Rightarrow> keyboard \<Rightarrow> (keyboard \<times> kbd_act list) run" where
  "kbd_wait gap tid w acts s = semaphore_waitsleep kbd_sem put_kbd_sem gap tid w acts s"

fun kbd_read_loop :: "kbd_act \<Rightarrow> i32 \<Rightarrow> addr \<Rightarrow> nat \<Rightarrow> kbd_act list \<Rightarrow> keyboard \<Rightarrow>
    (u8 list \<times> keyboard \<times> kbd_act list) run" where
  "kbd_read_loop gap tid w 0 acts s = Some (Inr ([], s, acts))"
| "kbd_read_loop gap tid w (Suc len) acts s =
     bindR (kbd_wait gap tid w acts s) (\<lambda>(s1, es).
     case kbd_mem s1 (kbd_input_buffer_rhead s1) of
       None \<Rightarrow> Some (Inl Out_Of_Bounds)
     | Some b \<Rightarrow>
         bindR (kbd_read_loop gap tid w len es
             (s1\<lparr>kbd_input_buffer_rhead := kbd_next (kbd_input_buffer s1) (kbd_input_buffer_rhead s1),
                kbd_input_buffer_len := kbd_input_buffer_len s1 - 1\<rparr>))
           (\<lambda>(bs, s2, es2). Some (Inr (b # bs, s2, es2))))"

definition kbd_read :: "kbd_act \<Rightarrow> i32 \<Rightarrow> addr \<Rightarrow> u32 \<Rightarrow> kbd_act list \<Rightarrow> keyboard \<Rightarrow>
    (i32 \<times> u8 list \<times> keyboard \<times> kbd_act list) run" where
  "kbd_read gap tid w len acts s =
     bindR (kbd_read_loop gap tid w (unat len) acts s) (\<lambda>(bs, s1, es). Some (Inr (of_nat (length bs), bs, s1, es)))"

text \<open>
  A keyboard interrupt as an action of the rest of the system.  A handler that trapped or blocked
  would leave the state as it is; with the driver's invariant it does neither.
\<close>

definition key_interrupt :: "u8 \<Rightarrow> kbd_act" where
  "key_interrupt scan_code s = (case kbd_input_handler scan_code s of Some (Inr s') \<Rightarrow> s' | _ \<Rightarrow> s)"

definition kbd_setkeymap :: "u8 list \<Rightarrow> keyboard \<Rightarrow> keyboard" where
  "kbd_setkeymap m s = s\<lparr>keymap := m\<rparr>"

text \<open>The part of \<open>kbd_init\<close> behind the device node; \<open>buffer\<close> is what \<open>malloc\<close> returned.\<close>

definition kbd_init_buffer :: "addr \<Rightarrow> keyboard \<Rightarrow> keyboard outcome" where
  "kbd_init_buffer buffer s0 =
     (let s = s0\<lparr>keymap := kbdus, kbd_input_buffer := buffer\<rparr> in
      if buffer = NULL then Inl Kernel_Panic
      else Inr (s\<lparr>kbd_semaphore := SEMAPHORE_INITIALIZER
        (of_nat CONFIG_KBD_INPUT_BUFFER_SIZE) (of_nat CONFIG_KBD_INPUT_BUFFER_SIZE)\<rparr>))"

text \<open>The static variables before initialisation.\<close>

definition kbd_statics :: "(addr \<Rightarrow> u8 option) \<Rightarrow> waiter_heap \<Rightarrow> keyboard" where
  "kbd_statics m h = \<lparr>keymask = \<lparr>left_shift = False, right_shift = False, alt = False\<rparr>, keymap = [],
     kbd_input_buffer = NULL, kbd_input_buffer_rhead = NULL, kbd_input_buffer_whead = NULL,
     kbd_input_buffer_len = 0, kbd_semaphore = SEMAPHORE_INITIALIZER 0 0, kbd_sleepers = h, kbd_mem = m\<rparr>"

section \<open>Specification\<close>

text \<open>What a key does to the modifiers, and the character it types.\<close>

definition key_code :: "u8 list \<Rightarrow> u8 \<Rightarrow> u8" where
  "key_code kmap scan_code = kmap ! (unat scan_code mod 128)"

definition is_release :: "u8 \<Rightarrow> bool" where
  "is_release scan_code = (scan_code \<ge> 128)"

definition key_mask :: "u8 list \<Rightarrow> u8 \<Rightarrow> keymask_t \<Rightarrow> keymask_t" where
  "key_mask kmap k m = (let c = key_code kmap k; v = \<not> is_release k in
     if c = KBD_LEFT_SHIFT then m\<lparr>left_shift := v\<rparr>
     else if c = KBD_RIGHT_SHIFT then m\<lparr>right_shift := v\<rparr>
     else if c = KBD_ALT then m\<lparr>alt := v\<rparr> else m)"

definition key_chars :: "u8 list \<Rightarrow> u8 \<Rightarrow> keymask_t \<Rightarrow> u8 list" where
  "key_chars kmap k m =
     (if is_release k \<or> key_code kmap k \<in> {KBD_LEFT_SHIFT, KBD_RIGHT_SHIFT} then []
      else [shifted m (key_code kmap k)])"

fun typed :: "u8 list \<Rightarrow> keymask_t \<Rightarrow> u8 list \<Rightarrow> u8 list" where
  "typed kmap m [] = []"
| "typed kmap m (k # keys) = key_chars kmap k m @ typed kmap (key_mask kmap k m) keys"

text \<open>The address of the \<open>i\<close>-th character behind a head.\<close>

definition kbd_slot :: "nat \<Rightarrow> nat \<Rightarrow> nat \<Rightarrow> nat" where
  "kbd_slot buffer r i =
     (if r + i < buffer + CONFIG_KBD_INPUT_BUFFER_SIZE then r + i else r + i - CONFIG_KBD_INPUT_BUFFER_SIZE)"

definition kbd_cell :: "keyboard \<Rightarrow> nat \<Rightarrow> addr" where
  "kbd_cell s i = of_nat (kbd_slot (unat (kbd_input_buffer s)) (unat (kbd_input_buffer_rhead s)) i)"

definition kbd_content :: "keyboard \<Rightarrow> u8 list" where
  "kbd_content s = map (\<lambda>i. the (kbd_mem s (kbd_cell s i))) [0 ..< unat (kbd_input_buffer_len s)]"

definition kbd_core :: "keyboard \<Rightarrow> bool" where
  "kbd_core s = (let b = unat (kbd_input_buffer s); r = unat (kbd_input_buffer_rhead s); sz = CONFIG_KBD_INPUT_BUFFER_SIZE;
       sem = kbd_semaphore s in
     b + sz < 2 ^ 32 \<and> r < b + sz \<and> unat (kbd_input_buffer_len s) \<le> sz \<and>
     kbd_input_buffer_whead s = kbd_cell s (unat (kbd_input_buffer_len s)) \<and>
     (\<forall>a. (r \<le> unat a \<or> b \<le> unat a) \<and> unat a < b + sz \<longrightarrow> kbd_mem s a \<noteq> None) \<and>
     unat (cnt sem) + unat (kbd_input_buffer_len s) = sz \<and> max_cnt sem = of_nat sz \<and>
     ms (enter sem) = 0 \<and> length (keymap s) = 128)"

text \<open>No reader is inside \<open>kbd_read\<close>: only the holder of \<open>exclusive\<close> attaches a waiter.\<close>

definition kbd_ok :: "keyboard \<Rightarrow> bool" where
  "kbd_ok s = (let sem = kbd_semaphore s in kbd_core s \<and>
     ms (exclusive sem) = 0 \<and> ms (s_waiters_lock sem) = 0 \<and> s_waiters sem = NULL)"

text \<open>One reader sleeps: it holds \<open>exclusive\<close> and its struct at \<open>w\<close> is the only waiter.\<close>

definition reader_asleep :: "addr \<Rightarrow> keyboard \<Rightarrow> bool" where
  "reader_asleep w s = (let sem = kbd_semaphore s; h = kbd_sleepers s in kbd_core s \<and>
     ms (exclusive sem) = 1 \<and> ms (s_waiters_lock sem) = 0 \<and> s_waiters sem = w \<and>
     w_waiting (h w) \<and> w_next (h w) = NULL)"

text \<open>
  \<open>s'\<close> is \<open>s\<close> after the characters \<open>bs\<close> came in: those that fit are stored, and if there is one the
  waiter at the head of the list has been woken.
\<close>

definition stored :: "u8 list \<Rightarrow> keyboard \<Rightarrow> keyboard \<Rightarrow> bool" where
  "stored bs s s' = (kbd_core s' \<and>
     kbd_content s' = take CONFIG_KBD_INPUT_BUFFER_SIZE (kbd_content s @ bs) \<and>
     keymap s' = keymap s \<and> kbd_input_buffer s' = kbd_input_buffer s \<and>
     kbd_input_buffer_rhead s' = kbd_input_buffer_rhead s \<and>
     (\<exists>c. kbd_semaphore s' = (kbd_semaphore s)\<lparr>cnt := c\<rparr>) \<and>
     kbd_sleepers s' = (if kbd_content s' = kbd_content s then kbd_sleepers s
       else wake_waiter (s_waiters (kbd_semaphore s)) (kbd_sleepers s)))"

section \<open>Lemmas\<close>

lemma unat_kbd_size [simp]: "unat (of_nat CONFIG_KBD_INPUT_BUFFER_SIZE :: u32) = CONFIG_KBD_INPUT_BUFFER_SIZE"
  by (simp add: CONFIG_KBD_INPUT_BUFFER_SIZE_def)

lemma kbd_size_pos: "0 < CONFIG_KBD_INPUT_BUFFER_SIZE"
  by (simp add: CONFIG_KBD_INPUT_BUFFER_SIZE_def)

lemma unat_kbd_next:
  assumes "unat b + CONFIG_KBD_INPUT_BUFFER_SIZE < 2 ^ 32" "unat p < unat b + CONFIG_KBD_INPUT_BUFFER_SIZE"
  shows "unat (kbd_next b p) = kbd_slot (unat b) (unat p) 1"
proof -
  have "unat (p + 1) = unat p + 1" using assms by (simp add: unat_word_ariths)
  moreover have "unat (b + of_nat CONFIG_KBD_INPUT_BUFFER_SIZE) = unat b + CONFIG_KBD_INPUT_BUFFER_SIZE"
    using assms by (simp add: unat_word_ariths)
  ultimately show ?thesis using assms kbd_size_pos
    by (auto simp: kbd_next_def kbd_slot_def word_le_nat_alt)
qed

lemma kbd_slot_less:
  "r < b + CONFIG_KBD_INPUT_BUFFER_SIZE \<Longrightarrow> i \<le> CONFIG_KBD_INPUT_BUFFER_SIZE \<Longrightarrow>
    kbd_slot b r i < b + CONFIG_KBD_INPUT_BUFFER_SIZE \<and> (r \<le> kbd_slot b r i \<or> b \<le> kbd_slot b r i)"
  by (auto simp: kbd_slot_def CONFIG_KBD_INPUT_BUFFER_SIZE_def)

lemma kbd_slot_add:
  "r < b + CONFIG_KBD_INPUT_BUFFER_SIZE \<Longrightarrow> i + j \<le> CONFIG_KBD_INPUT_BUFFER_SIZE \<Longrightarrow>
    kbd_slot b (kbd_slot b r i) j = kbd_slot b r (i + j)"
  by (auto simp: kbd_slot_def CONFIG_KBD_INPUT_BUFFER_SIZE_def)

lemma kbd_slot_inj:
  "i < n \<Longrightarrow> n < CONFIG_KBD_INPUT_BUFFER_SIZE \<Longrightarrow> kbd_slot b r i \<noteq> kbd_slot b r n"
  by (auto simp: kbd_slot_def CONFIG_KBD_INPUT_BUFFER_SIZE_def)

lemma unat_kbd_cell:
  assumes "kbd_core s" "i \<le> CONFIG_KBD_INPUT_BUFFER_SIZE"
  shows "unat (kbd_cell s i) = kbd_slot (unat (kbd_input_buffer s)) (unat (kbd_input_buffer_rhead s)) i"
proof -
  have "kbd_slot (unat (kbd_input_buffer s)) (unat (kbd_input_buffer_rhead s)) i < 2 ^ 32"
    using assms kbd_slot_less [OF _ assms(2)] by (fastforce simp: kbd_core_def Let_def)
  then show ?thesis by (simp add: kbd_cell_def unat_of_nat_u32)
qed

lemma kbd_cell_mapped:
  assumes "kbd_core s" "i \<le> CONFIG_KBD_INPUT_BUFFER_SIZE"
  shows "\<exists>b. kbd_mem s (kbd_cell s i) = Some b"
  using assms kbd_slot_less [OF _ assms(2)] unat_kbd_cell [OF assms] by (fastforce simp: kbd_core_def Let_def)

lemma length_kbd_content [simp]: "length (kbd_content s) = unat (kbd_input_buffer_len s)"
  by (simp add: kbd_content_def)

interpretation kbd_place: semaphore_place kbd_sem put_kbd_sem
  by unfold_locales (auto simp: kbd_sem_def put_kbd_sem_def)

lemma kbd_store_room:
  assumes ok: "kbd_core s" and room: "unat (kbd_input_buffer_len s) < CONFIG_KBD_INPUT_BUFFER_SIZE"
  shows "\<exists>s'. kbd_store c s = Some (Inr s') \<and> stored [c] s s' \<and> kbd_content s' = kbd_content s @ [c] \<and>
    keymask s' = keymask s"
proof -
  let ?n = "unat (kbd_input_buffer_len s)" and ?sz = CONFIG_KBD_INPUT_BUFFER_SIZE and ?sem = "kbd_semaphore s"
  let ?w = "kbd_cell s ?n" and ?h = "wake_waiter (s_waiters (kbd_semaphore s)) (kbd_sleepers s)"
  note ok' = ok [unfolded kbd_core_def Let_def]
  have lt: "kbd_input_buffer_len s < of_nat ?sz" using room by (simp add: word_less_nat_alt)
  have cnt: "unat (cnt ?sem) = ?sz - ?n" "ms (enter ?sem) = 0" using ok' by auto
  then have c: "cnt ?sem > 0" using room by (auto simp: word_gt_0 simp flip: unat_eq_zero)
  obtain old where old: "kbd_mem s ?w = Some old" using kbd_cell_mapped [OF ok] ok' by blast
  define s1 where "s1 = s\<lparr>kbd_mem := (kbd_mem s)(?w \<mapsto> c), kbd_input_buffer_whead := kbd_next (kbd_input_buffer s) ?w,
    kbd_input_buffer_len := kbd_input_buffer_len s + 1\<rparr>"
  define s' where "s' = s1\<lparr>kbd_semaphore := ?sem\<lparr>cnt := cnt ?sem - 1\<rparr>, kbd_sleepers := ?h\<rparr>"
  have "kbd_sem s1 = (?sem, kbd_sleepers s)" by (simp add: kbd_sem_def s1_def)
  from kbd_place.signal_ready [OF this cnt(2) c, of "[]"]
  have sig: "\<exists>pid. semaphore_signal_sleep kbd_sem put_kbd_sem [] s1 = Some (Inr (s', [], pid))"
    by (simp add: s'_def put_kbd_sem_def)
  have w: "kbd_input_buffer_whead s = ?w" using ok' by simp
  have run: "kbd_store c s = Some (Inr s')" using lt old sig w by (auto simp: kbd_store_def Let_def s1_def)
  have n': "unat (kbd_input_buffer_len s + 1) = Suc ?n"
    using room by (simp add: unat_word_ariths CONFIG_KBD_INPUT_BUFFER_SIZE_def)
  have cell: "kbd_cell s' = kbd_cell s" by (simp add: fun_eq_iff kbd_cell_def s'_def s1_def)
  have "unat (kbd_next (kbd_input_buffer s) ?w) =
      kbd_slot (unat (kbd_input_buffer s)) (unat (kbd_input_buffer_rhead s)) (Suc ?n)"
    using unat_kbd_next [of "kbd_input_buffer s" ?w] unat_kbd_cell [OF ok, of ?n] ok' room
      kbd_slot_less [of "unat (kbd_input_buffer_rhead s)" "unat (kbd_input_buffer s)" ?n]
      kbd_slot_add [of "unat (kbd_input_buffer_rhead s)" "unat (kbd_input_buffer s)" ?n 1] by simp
  also have "\<dots> = unat (kbd_cell s (Suc ?n))" using unat_kbd_cell [OF ok, of "Suc ?n"] room by simp
  finally have nx: "kbd_next (kbd_input_buffer s) ?w = kbd_cell s (Suc ?n)" by (simp add: word_unat_eq_iff)
  have "unat (cnt ?sem - 1) = unat (cnt ?sem) - 1" using unat_sub_1 [OF c] .
  then have "unat (cnt ?sem - 1) + Suc ?n = ?sz" using cnt(1) room by simp
  then have "kbd_core s'" using ok' n' nx cell room by (auto simp: kbd_core_def Let_def s'_def s1_def)
  moreover have "kbd_cell s i \<noteq> ?w" if "i < ?n" for i
    using kbd_slot_inj [OF that room, of "unat (kbd_input_buffer s)" "unat (kbd_input_buffer_rhead s)"]
      unat_kbd_cell [OF ok, of i] unat_kbd_cell [OF ok, of ?n] room that by auto
  then have con: "kbd_content s' = kbd_content s @ [c]"
    using n' by (simp add: kbd_content_def cell) (simp add: s'_def s1_def)
  ultimately have "stored [c] s s'" using room by (auto simp: stored_def) (auto simp: s'_def s1_def)
  then show ?thesis using run con by (simp add: s'_def s1_def)
qed

lemma kbd_content_bound: "kbd_core s \<Longrightarrow> length (kbd_content s) \<le> CONFIG_KBD_INPUT_BUFFER_SIZE"
  by (simp add: kbd_core_def Let_def)

lemma stored_nothing: "kbd_core s \<Longrightarrow> stored [] s s"
  using kbd_content_bound [of s] by (auto simp: stored_def intro: exI [of _ "cnt (kbd_semaphore s)"])

lemma kbd_store_run:
  assumes "kbd_core s"
  shows "\<exists>s'. kbd_store c s = Some (Inr s') \<and> stored [c] s s' \<and> keymask s' = keymask s"
proof (cases "unat (kbd_input_buffer_len s) < CONFIG_KBD_INPUT_BUFFER_SIZE")
  case True
  from kbd_store_room [OF assms True, of c] show ?thesis by auto
next
  case False
  then have "kbd_store c s = Some (Inr s)" by (simp add: kbd_store_def word_less_nat_alt)
  moreover have "stored [c] s s" using False assms stored_nothing [OF assms] by (simp add: stored_def)
  ultimately show ?thesis by blast
qed

lemma release_bit: "(k AND 0x80 \<noteq> 0) = is_release k" for k :: u8
proof -
  have "unat k < 256" using unsigned_less [of k, where ?'a = nat] by simp
  have "(k AND 2 ^ 7 \<noteq> 0) = bit k 7" by (simp only: and_exp_eq_0_iff_not_bit not_not)
  also have "bit k 7 = bit (unat k) 7" by (simp add: bit_unsigned_iff)
  also have "\<dots> = odd (unat k div 128)" by (simp add: bit_iff_odd)
  also have "\<dots> = (128 \<le> unat k)"
  proof (cases "128 \<le> unat k")
    case True
    then have "unat k div 128 = 1" using \<open>unat k < 256\<close> by simp
    with True show ?thesis by simp
  qed simp
  finally show ?thesis by (simp add: is_release_def word_le_nat_alt)
qed

lemma release_index: "unat (k AND 0x7F) = unat k mod 128" for k :: u8
proof -
  have "(0x7F :: u8) = mask 7" by (simp add: mask_eq_exp_minus_1)
  then have "k AND 0x7F = take_bit 7 k" by (simp only: take_bit_eq_mask)
  then have "k AND 0x7F = k mod 128" by (simp add: take_bit_eq_mod)
  then show ?thesis by (simp add: unat_mod_distrib)
qed

lemma kbd_mask [simp]:
  "kbd_core (s\<lparr>keymask := m\<rparr>) = kbd_core s" "kbd_content (s\<lparr>keymask := m\<rparr>) = kbd_content s"
  by (simp_all add: kbd_core_def kbd_content_def kbd_cell_def)

lemma stored_mask [simp]: "stored bs (s\<lparr>keymask := m\<rparr>) s' = stored bs s s'" "stored bs s (s'\<lparr>keymask := m\<rparr>) = stored bs s s'"
  by (simp_all add: stored_def)

lemma kbd_handler_run:
  assumes "kbd_core s"
  shows "\<exists>s'. kbd_input_handler k s = Some (Inr s') \<and> stored (key_chars (keymap s) k (keymask s)) s s' \<and>
    keymask s' = key_mask (keymap s) k (keymask s)"
proof -
  let ?c = "key_code (keymap s) k"
  have km: "length (keymap s) = 128" using assms by (simp add: kbd_core_def Let_def)
  note idle = stored_nothing [OF assms]
  have d: "KBD_LEFT_SHIFT \<noteq> KBD_RIGHT_SHIFT" "KBD_LEFT_SHIFT \<noteq> KBD_ALT" "KBD_RIGHT_SHIFT \<noteq> KBD_ALT"
    by (simp_all add: kbd_keys)
  show ?thesis
  proof (cases "is_release k")
    case True
    have "readE (keymap s) (unat (k AND 0x7F)) = Inr ?c" using km by (simp add: release_index key_code_def)
    with True show ?thesis
      by (simp add: kbd_input_handler_def release_bit key_chars_def key_mask_def idle)
  next
    case False
    then have "unat k < 128" by (simp add: is_release_def word_le_nat_alt)
    then have r: "readE (keymap s) (unat k) = Inr ?c" using km by (simp add: key_code_def)
    consider "?c = KBD_LEFT_SHIFT" | "?c = KBD_RIGHT_SHIFT" | "?c \<notin> {KBD_LEFT_SHIFT, KBD_RIGHT_SHIFT}" by blast
    then show ?thesis
    proof cases
      case 3
      let ?m = "key_mask (keymap s) k (keymask s)"
      have m: "?m = (if ?c = KBD_ALT then (keymask s)\<lparr>alt := True\<rparr> else keymask s)"
        using 3 False by (simp add: key_mask_def)
      have "shifted ?m ?c = shifted (keymask s) ?c" by (simp add: m shifted_def)
      moreover have "kbd_input_handler k s = kbd_store (shifted ?m ?c) (s\<lparr>keymask := ?m\<rparr>)"
        using 3 False r by (auto simp: kbd_input_handler_def release_bit m Let_def)
      ultimately show ?thesis using kbd_store_run [of "s\<lparr>keymask := ?m\<rparr>" "shifted (keymask s) ?c"] assms 3 False
        by (auto simp: key_chars_def)
    qed (use False r d in \<open>simp_all add: kbd_input_handler_def release_bit key_chars_def key_mask_def idle\<close>)
  qed
qed

lemma key_interrupt_run:
  assumes "kbd_core s"
  shows "stored (key_chars (keymap s) k (keymask s)) s (key_interrupt k s)"
    "keymask (key_interrupt k s) = key_mask (keymap s) k (keymask s)"
  using kbd_handler_run [OF assms, of k] by (auto simp: key_interrupt_def)

text \<open>A sequence of interrupts.\<close>

fun kbd_interrupts :: "u8 list \<Rightarrow> keyboard \<Rightarrow> keyboard run" where
  "kbd_interrupts [] s = Some (Inr s)"
| "kbd_interrupts (k # keys) s = bindR (kbd_input_handler k s) (kbd_interrupts keys)"

lemma take_append_take: "take n (take n xs @ ys) = take n (xs @ ys)"
  by (cases "n \<le> length xs") simp_all

lemma kbd_interrupts_run:
  "kbd_core s \<Longrightarrow> \<exists>s'. kbd_interrupts keys s = Some (Inr s') \<and> kbd_core s' \<and>
    kbd_content s' = take CONFIG_KBD_INPUT_BUFFER_SIZE (kbd_content s @ typed (keymap s) (keymask s) keys) \<and>
    kbd_input_buffer s' = kbd_input_buffer s \<and> kbd_input_buffer_rhead s' = kbd_input_buffer_rhead s"
proof (induction keys arbitrary: s)
  case Nil
  then show ?case using kbd_content_bound by simp
next
  case (Cons k keys)
  from kbd_handler_run [OF Cons.prems, of k] obtain s1 where
    s1: "kbd_input_handler k s = Some (Inr s1)" "kbd_core s1"
    "kbd_content s1 = take CONFIG_KBD_INPUT_BUFFER_SIZE (kbd_content s @ key_chars (keymap s) k (keymask s))"
    "keymask s1 = key_mask (keymap s) k (keymask s)" "keymap s1 = keymap s"
    "kbd_input_buffer s1 = kbd_input_buffer s" "kbd_input_buffer_rhead s1 = kbd_input_buffer_rhead s"
    unfolding stored_def by blast
  from Cons.IH [OF s1(2)] s1 show ?case by (auto simp: take_append_take simp del: take_append)
qed

text \<open>Reading a character that is there.\<close>

lemma kbd_okD:
  assumes "kbd_ok s"
  shows "kbd_core s" "ms (enter (kbd_semaphore s)) = 0" "ms (exclusive (kbd_semaphore s)) = 0"
    "ms (s_waiters_lock (kbd_semaphore s)) = 0" "s_waiters (kbd_semaphore s) = NULL"
  using assms by (auto simp: kbd_ok_def kbd_core_def Let_def)

lemma kbd_count:
  assumes "kbd_core s"
  shows "cnt (kbd_semaphore s) < max_cnt (kbd_semaphore s) \<longleftrightarrow> kbd_content s \<noteq> []"
proof -
  have "kbd_content s \<noteq> [] \<longleftrightarrow> 0 < unat (kbd_input_buffer_len s)" by (metis length_kbd_content length_greater_0_conv)
  then show ?thesis using assms by (auto simp: kbd_core_def Let_def word_less_nat_alt)
qed

lemma kbd_wait_ready:
  assumes "kbd_ok s" "kbd_content s \<noteq> []"
  shows "kbd_wait gap tid w acts s =
    Some (Inr (s\<lparr>kbd_semaphore := (kbd_semaphore s)\<lparr>cnt := cnt (kbd_semaphore s) + 1\<rparr>\<rparr>, acts))"
  using kbd_place.waitsleep_ready [OF kbd_sem_def kbd_okD(2,3) [OF assms(1)], of gap tid w acts]
    kbd_count [OF kbd_okD(1) [OF assms(1)]] assms(2)
  by (simp add: kbd_wait_def put_kbd_sem_def)

lemma kbd_read_ready:
  assumes ok: "kbd_ok s" and con: "kbd_content s = c # cs"
  shows "\<exists>s'. kbd_read_loop gap tid w (Suc n) acts s =
      bindR (kbd_read_loop gap tid w n acts s') (\<lambda>(bs, s2, es). Some (Inr (c # bs, s2, es))) \<and>
    kbd_ok s' \<and> kbd_content s' = cs \<and> keymask s' = keymask s \<and> keymap s' = keymap s"
proof -
  let ?sem = "kbd_semaphore s" and ?r = "kbd_input_buffer_rhead s" and ?b = "kbd_input_buffer s"
  let ?sz = CONFIG_KBD_INPUT_BUFFER_SIZE and ?n = "unat (kbd_input_buffer_len s)"
  note core = kbd_okD(1) [OF ok]
  note ok' = core [unfolded kbd_core_def Let_def]
  have n: "?n = Suc (length cs)" using con by (metis length_kbd_content length_Cons)
  define s' where "s' = s\<lparr>kbd_semaphore := ?sem\<lparr>cnt := cnt ?sem + 1\<rparr>, kbd_input_buffer_rhead := kbd_next ?b ?r,
    kbd_input_buffer_len := kbd_input_buffer_len s - 1\<rparr>"
  have r': "unat (kbd_next ?b ?r) = kbd_slot (unat ?b) (unat ?r) 1" using unat_kbd_next ok' by blast
  have cell: "kbd_cell s' i = kbd_cell s (Suc i)" if "Suc i \<le> ?sz" for i
    using that ok' r' kbd_slot_add [of "unat ?r" "unat ?b" 1 i] by (simp add: kbd_cell_def s'_def)
  have len': "unat (kbd_input_buffer_len s - 1) = length cs"
    using n unat_sub_1 [of "kbd_input_buffer_len s"] by (simp add: word_gt_0 flip: unat_eq_zero)
  have "kbd_cell s 0 = ?r" using ok' by (simp add: kbd_cell_def kbd_slot_def)
  then have "kbd_content s = the (kbd_mem s ?r) # map (\<lambda>i. the (kbd_mem s (kbd_cell s (Suc i)))) [0 ..< length cs]"
    unfolding kbd_content_def n by (simp add: upt_conv_Cons map_Suc_upt [symmetric] del: upt_Suc map_Suc_upt)
  then have hd: "the (kbd_mem s ?r) = c" "map (\<lambda>i. the (kbd_mem s (kbd_cell s (Suc i)))) [0 ..< length cs] = cs"
    using con by simp_all
  have bnd: "length cs < ?sz" using n ok' by simp
  have "kbd_content s' = map (\<lambda>i. the (kbd_mem s (kbd_cell s' i))) [0 ..< length cs]"
    unfolding kbd_content_def using len' by (simp add: s'_def)
  also have "\<dots> = map (\<lambda>i. the (kbd_mem s (kbd_cell s (Suc i)))) [0 ..< length cs]"
    using cell bnd by (intro map_cong) auto
  also have "\<dots> = cs" by (rule hd(2))
  finally have c': "kbd_content s' = cs" .
  have "unat (cnt ?sem + 1) = Suc (unat (cnt ?sem))"
    by (rule unat_add_1) (use kbd_count [OF core] con in simp)
  moreover have "kbd_input_buffer_whead s = kbd_cell s' (length cs)" using ok' n cell [of "length cs"] bnd by simp
  moreover have "kbd_slot (unat ?b) (unat ?r) 1 < unat ?b + ?sz" "unat ?r \<le> kbd_slot (unat ?b) (unat ?r) 1 \<or>
      unat ?b \<le> kbd_slot (unat ?b) (unat ?r) 1"
    using kbd_slot_less [of "unat ?r" "unat ?b" 1] ok' kbd_size_pos by auto
  ultimately have "kbd_core s'" using ok' n len' r' by (auto simp: kbd_core_def Let_def s'_def kbd_cell_def)
  then have "kbd_ok s'" using kbd_okD [OF ok] by (simp add: kbd_ok_def Let_def s'_def)
  moreover obtain b where "kbd_mem s ?r = Some b" using kbd_cell_mapped [OF core, of 0] \<open>kbd_cell s 0 = ?r\<close> by auto
  then have "kbd_read_loop gap tid w (Suc n) acts s =
      bindR (kbd_read_loop gap tid w n acts s') (\<lambda>(bs, s2, es). Some (Inr (c # bs, s2, es)))"
    using kbd_wait_ready [OF ok, of gap tid w acts] con hd(1) by (simp add: s'_def)
  ultimately show ?thesis using c' by (auto simp: s'_def)
qed

text \<open>Waiting for one.  The reader goes to sleep with its waiter attached.\<close>

lemma put_kbd_sem_fields [simp]:
  "kbd_semaphore (put_kbd_sem x s) = fst x" "kbd_sleepers (put_kbd_sem x s) = snd x"
  "keymap (put_kbd_sem x s) = keymap s" "keymask (put_kbd_sem x s) = keymask s"
  by (simp_all add: put_kbd_sem_def)

lemma kbd_sem_other:
  assumes "cnt sem = cnt (kbd_semaphore s)" "max_cnt sem = max_cnt (kbd_semaphore s)" "enter sem = enter (kbd_semaphore s)"
  shows "kbd_core (put_kbd_sem (sem, h) s) = kbd_core s" "kbd_content (put_kbd_sem (sem, h) s) = kbd_content s"
  using assms by (simp_all add: put_kbd_sem_def kbd_core_def kbd_content_def kbd_cell_def Let_def)

lemma kbd_wait_sleeps:
  assumes ok: "kbd_ok s" "kbd_content s = []" and gap: "\<And>t. kbd_core t \<Longrightarrow> stored (bs t) t (gap t)"
  shows "\<exists>s0 s1. kbd_wait gap tid w acts s = sem_asleep kbd_sem put_kbd_sem gap take_slot tid w acts s1 \<and>
    reader_asleep w s1 \<and> kbd_core s0 \<and> keymap s0 = keymap s \<and> keymask s0 = keymask s \<and>
    kbd_content s1 = take CONFIG_KBD_INPUT_BUFFER_SIZE (bs s0) \<and>
    keymap s1 = keymap s \<and> keymask s1 = keymask (gap s0)"
proof -
  let ?sem = "(kbd_semaphore s)\<lparr>exclusive := (exclusive (kbd_semaphore s))\<lparr>ms := 1\<rparr>\<rparr>"
  note okD = kbd_okD [OF ok(1)]
  define s0 where "s0 = put_kbd_sem (?sem, kbd_sleepers s) s"
  have s0: "kbd_core s0" "kbd_content s0 = []" "keymap s0 = keymap s" "keymask s0 = keymask s"
    "kbd_semaphore s0 = ?sem" "kbd_sleepers s0 = kbd_sleepers s"
    using okD(1) ok(2) by (simp_all add: s0_def kbd_sem_other)
  from gap [OF s0(1)] obtain c where g: "kbd_core (gap s0)" "keymap (gap s0) = keymap s"
    "kbd_content (gap s0) = take CONFIG_KBD_INPUT_BUFFER_SIZE (bs s0)" "kbd_semaphore (gap s0) = ?sem\<lparr>cnt := c\<rparr>"
    using s0 by (auto simp: stored_def)
  define s1 where "s1 = put_kbd_sem (?sem\<lparr>cnt := c, s_waiters := w\<rparr>,
    (kbd_sleepers (gap s0))(w := \<lparr>w_pid = tid, w_waiting = True, w_next = NULL\<rparr>)) (gap s0)"
  have "\<not> cnt (kbd_semaphore s) < max_cnt (kbd_semaphore s)" using kbd_count [OF okD(1)] ok(2) by simp
  from kbd_place.waitsleep_sleeps [OF kbd_sem_def okD(2,3) this _ kbd_sem_def, of "gap s0" gap tid w acts] okD(4,5) g(4)
  have "kbd_wait gap tid w acts s = sem_asleep kbd_sem put_kbd_sem gap take_slot tid w acts s1"
    by (simp add: kbd_wait_def s1_def s0_def)
  moreover have "kbd_core s1" "kbd_content s1 = kbd_content (gap s0)" "keymap s1 = keymap s" "keymask s1 = keymask (gap s0)"
    using g(1,2,4) by (simp_all add: s1_def kbd_sem_other)
  moreover from this(1) have "reader_asleep w s1" using okD(4) by (simp add: reader_asleep_def Let_def s1_def)
  ultimately show ?thesis using g(3) s0(1,3,4) by (intro exI [of _ s0] exI [of _ s1]) simp
qed

text \<open>Keys that type nothing let it sleep; the first character wakes it.\<close>

lemma reader_asleep_silent:
  assumes "reader_asleep w s" "key_chars (keymap s) k (keymask s) = []"
  shows "reader_asleep w (key_interrupt k s)" "kbd_content (key_interrupt k s) = kbd_content s"
    "keymap (key_interrupt k s) = keymap s"
proof -
  have core: "kbd_core s" using assms(1) by (simp add: reader_asleep_def Let_def)
  note st = key_interrupt_run(1) [OF core, of k, unfolded assms(2) stored_def]
  then show con: "kbd_content (key_interrupt k s) = kbd_content s" using kbd_content_bound [OF core] by simp
  with st show "reader_asleep w (key_interrupt k s)" using assms(1) by (auto simp: reader_asleep_def Let_def)
  show "keymap (key_interrupt k s) = keymap s" using st by simp
qed

lemma asleep_interrupt:
  assumes "reader_asleep w s"
  shows "sem_asleep kbd_sem put_kbd_sem gap act tid w [] s = None"
    "sem_asleep kbd_sem put_kbd_sem gap act tid w (e # es) s = sem_asleep kbd_sem put_kbd_sem gap act tid w es (e s)"
proof -
  have "w_waiting (sleepers kbd_sem s w)" using assms by (simp add: reader_asleep_def Let_def kbd_sem_def)
  note step = kbd_place.asleep_step [OF this]
  show "sem_asleep kbd_sem put_kbd_sem gap act tid w [] s = None" by (simp add: step)
  show "sem_asleep kbd_sem put_kbd_sem gap act tid w (e # es) s = sem_asleep kbd_sem put_kbd_sem gap act tid w es (e s)"
    by (subst step) simp
qed

lemma asleep_forever:
  "reader_asleep w s \<Longrightarrow> typed (keymap s) (keymask s) keys = [] \<Longrightarrow>
    sem_asleep kbd_sem put_kbd_sem gap act tid w (map key_interrupt keys) s = None"
proof (induction keys arbitrary: s)
  case Nil
  then show ?case by (simp add: asleep_interrupt)
next
  case (Cons k keys)
  then have "key_chars (keymap s) k (keymask s) = []" by simp
  note silent = reader_asleep_silent [OF Cons.prems(1) this]
  have "kbd_core s" using Cons.prems(1) by (simp add: reader_asleep_def Let_def)
  with Cons.IH [OF silent(1)] Cons.prems silent(3) show ?case by (simp add: asleep_interrupt key_interrupt_run(2))
qed

lemma asleep_wakes:
  assumes "reader_asleep w s" "kbd_content s = []" "w \<noteq> NULL" "key_chars (keymap s) k (keymask s) = [c]"
  shows "\<exists>s'. sem_asleep kbd_sem put_kbd_sem gap take_slot tid w acts (key_interrupt k s) = kbd_wait gap tid w acts s' \<and>
    kbd_ok s' \<and> kbd_content s' = [c] \<and> keymap s' = keymap s \<and> keymask s' = key_mask (keymap s) k (keymask s)"
proof -
  let ?t = "key_interrupt k s"
  note asleep = assms(1) [unfolded reader_asleep_def Let_def]
  note run = key_interrupt_run [of s k, unfolded assms(4)]
  obtain d where t: "kbd_core ?t" "kbd_content ?t = [c]" "keymap ?t = keymap s" "keymask ?t = key_mask (keymap s) k (keymask s)"
    "kbd_semaphore ?t = (kbd_semaphore s)\<lparr>cnt := d\<rparr>" "kbd_sleepers ?t = wake_waiter w (kbd_sleepers s)"
    using run asleep assms(2) by (auto simp: stored_def CONFIG_KBD_INPUT_BUFFER_SIZE_def)
  let ?sem = "kbd_semaphore ?t" and ?h = "kbd_sleepers ?t"
  define s' where "s' = put_kbd_sem (?sem\<lparr>s_waiters := NULL, exclusive := (exclusive ?sem)\<lparr>ms := 0\<rparr>\<rparr>, ?h) ?t"
  have s': "kbd_core s'" "kbd_content s' = [c]" using t(1,2) by (simp_all add: s'_def kbd_sem_other)
  then have ok: "kbd_ok s'" using asleep t(5) by (simp add: kbd_ok_def Let_def s'_def)
  have "\<not> w_waiting (?h w)" "w_next (?h w) = NULL" "s_waiters ?sem = w" "ms (s_waiters_lock ?sem) = 0" "ms (enter ?sem) = 0"
    "ms (exclusive ?sem) = 1" "cnt ?sem < max_cnt ?sem"
    using asleep assms(3) t(1,2,5,6) kbd_count [OF t(1)] by (auto simp: wake_waiter_def kbd_core_def Let_def)
  from kbd_place.asleep_woken [OF kbd_sem_def this(1,2) assms(3) this(3-7), of gap tid acts]
  have "sem_asleep kbd_sem put_kbd_sem gap take_slot tid w acts ?t = kbd_wait gap tid w acts s'"
    using kbd_wait_ready [OF ok, of gap tid w acts] s'(2) by (simp add: s'_def put_kbd_sem_def)
  with ok s' t(3,4) show ?thesis by (auto simp: s'_def)
qed

lemma asleep_typed:
  "reader_asleep w s \<Longrightarrow> kbd_content s = [] \<Longrightarrow> w \<noteq> NULL \<Longrightarrow> typed (keymap s) (keymask s) keys = c # cs \<Longrightarrow>
    \<exists>s' ks. sem_asleep kbd_sem put_kbd_sem gap take_slot tid w (map key_interrupt keys) s =
        kbd_wait gap tid w (map key_interrupt ks) s' \<and> kbd_ok s' \<and> kbd_content s' = [c] \<and>
      typed (keymap s') (keymask s') ks = cs"
proof (induction keys arbitrary: s)
  case (Cons k keys)
  have core: "kbd_core s" using Cons.prems(1) by (simp add: reader_asleep_def Let_def)
  show ?case
  proof (cases "key_chars (keymap s) k (keymask s)")
    case Nil
    note silent = reader_asleep_silent [OF Cons.prems(1) Nil]
    with Nil Cons.prems Cons.IH [OF silent(1)] show ?thesis
      by (simp add: asleep_interrupt key_interrupt_run(2) [OF core])
  next
    case (Cons d ds)
    then have d: "key_chars (keymap s) k (keymask s) = [c]" "typed (keymap s) (key_mask (keymap s) k (keymask s)) keys = cs"
      using Cons.prems(4) by (auto simp: key_chars_def split: if_splits)
    from asleep_wakes [OF Cons.prems(1-3) d(1), of gap tid "map key_interrupt keys"] obtain s' where
      "sem_asleep kbd_sem put_kbd_sem gap take_slot tid w (map key_interrupt keys) (key_interrupt k s) =
        kbd_wait gap tid w (map key_interrupt keys) s'" "kbd_ok s'" "kbd_content s' = [c]"
      "keymap s' = keymap s" "keymask s' = key_mask (keymap s) k (keymask s)" by blast
    with d(2) Cons.prems(1) show ?thesis
      by (intro exI [of _ s'] exI [of _ keys]) (simp add: asleep_interrupt)
  qed
qed simp

lemma stored_id: "kbd_core t \<Longrightarrow> stored [] t (id t)"
  by (simp add: stored_nothing)

lemma kbd_wait_typed:
  assumes "kbd_ok s" "kbd_content s = []" "w \<noteq> NULL" "typed (keymap s) (keymask s) keys = c # cs"
  shows "\<exists>s' ks. kbd_wait id tid w (map key_interrupt keys) s = kbd_wait id tid w (map key_interrupt ks) s' \<and>
    kbd_ok s' \<and> kbd_content s' = [c] \<and> typed (keymap s') (keymask s') ks = cs"
proof -
  from kbd_wait_sleeps [where gap = id and bs = "\<lambda>_. []", OF assms(1,2) stored_id, of tid w "map key_interrupt keys"] obtain s1 where
    "kbd_wait id tid w (map key_interrupt keys) s =
      sem_asleep kbd_sem put_kbd_sem id take_slot tid w (map key_interrupt keys) s1"
    "reader_asleep w s1" "kbd_content s1 = []" "keymap s1 = keymap s" "keymask s1 = keymask s" by auto
  with asleep_typed [of w s1 keys c cs id tid] assms(3,4) show ?thesis by simp
qed

lemma kbd_wait_forever:
  assumes "kbd_ok s" "kbd_content s = []" "typed (keymap s) (keymask s) keys = []"
  shows "kbd_wait id tid w (map key_interrupt keys) s = None"
proof -
  from kbd_wait_sleeps [where gap = id and bs = "\<lambda>_. []", OF assms(1,2) stored_id, of tid w "map key_interrupt keys"] obtain s1 where
    "kbd_wait id tid w (map key_interrupt keys) s =
      sem_asleep kbd_sem put_kbd_sem id take_slot tid w (map key_interrupt keys) s1"
    "reader_asleep w s1" "keymap s1 = keymap s" "keymask s1 = keymask s" by auto
  with asleep_forever assms(3) show ?thesis by simp
qed

text \<open>A key that comes in the gap wakes nobody: the reader sleeps although its character is there.\<close>

lemma kbd_wait_lost:
  assumes "kbd_ok s" "kbd_content s = []" "typed (keymap s) (key_mask (keymap s) k (keymask s)) keys = []"
  shows "kbd_wait (key_interrupt k) tid w (map key_interrupt keys) s = None"
proof -
  from kbd_wait_sleeps [where gap = "key_interrupt k", OF assms(1,2) key_interrupt_run(1), of tid w "map key_interrupt keys"]
  obtain s0 s1 where
    "kbd_wait (key_interrupt k) tid w (map key_interrupt keys) s =
      sem_asleep kbd_sem put_kbd_sem (key_interrupt k) take_slot tid w (map key_interrupt keys) s1"
    "reader_asleep w s1" "keymap s1 = keymap s" "keymask s1 = keymask (key_interrupt k s0)"
    "kbd_core s0" "keymap s0 = keymap s" "keymask s0 = keymask s" by blast
  with asleep_forever [of w s1 keys "key_interrupt k"] assms(3) show ?thesis by (simp add: key_interrupt_run(2))
qed

lemma kbd_read_typed:
  assumes "kbd_ok s" "kbd_content s = []" "w \<noteq> NULL" "typed (keymap s) (keymask s) keys = c # cs"
  shows "\<exists>s' ks. kbd_read_loop id tid w (Suc n) (map key_interrupt keys) s =
      kbd_read_loop id tid w (Suc n) (map key_interrupt ks) s' \<and> kbd_ok s' \<and>
    kbd_content s' = [c] \<and> typed (keymap s') (keymask s') ks = cs"
proof -
  from kbd_wait_typed [OF assms, of tid] obtain s' ks where
    "kbd_wait id tid w (map key_interrupt keys) s = kbd_wait id tid w (map key_interrupt ks) s'"
    "kbd_ok s'" "kbd_content s' = [c]" "typed (keymap s') (keymask s') ks = cs" by blast
  moreover from this(1) have "kbd_read_loop id tid w (Suc n) (map key_interrupt keys) s =
      kbd_read_loop id tid w (Suc n) (map key_interrupt ks) s'" by (simp only: kbd_read_loop.simps)
  ultimately show ?thesis by blast
qed

lemma kbd_read_step:
  assumes "kbd_ok s" "w \<noteq> NULL" "kbd_content s @ typed (keymap s) (keymask s) keys = c # rest"
  shows "\<exists>s' ks. kbd_read_loop id tid w (Suc n) (map key_interrupt keys) s =
      bindR (kbd_read_loop id tid w n (map key_interrupt ks) s') (\<lambda>(bs, s2, es). Some (Inr (c # bs, s2, es))) \<and>
    kbd_ok s' \<and> kbd_content s' @ typed (keymap s') (keymask s') ks = rest"
proof -
  have "\<exists>s1 ks cs. kbd_read_loop id tid w (Suc n) (map key_interrupt keys) s =
        kbd_read_loop id tid w (Suc n) (map key_interrupt ks) s1 \<and> kbd_ok s1 \<and>
      kbd_content s1 = c # cs \<and> cs @ typed (keymap s1) (keymask s1) ks = rest"
  proof (cases "kbd_content s")
    case Nil
    with assms show ?thesis using kbd_read_typed [OF assms(1) Nil assms(2), of keys c rest tid n] by auto
  next
    case (Cons d cs)
    with assms show ?thesis by auto
  qed
  then obtain s1 ks cs where s1: "kbd_read_loop id tid w (Suc n) (map key_interrupt keys) s =
      kbd_read_loop id tid w (Suc n) (map key_interrupt ks) s1"
    "kbd_ok s1" "kbd_content s1 = c # cs" "cs @ typed (keymap s1) (keymask s1) ks = rest" by blast
  from kbd_read_ready [OF s1(2,3), of id tid w n "map key_interrupt ks"] obtain s2 where
    s2: "kbd_read_loop id tid w (Suc n) (map key_interrupt ks) s1 =
      bindR (kbd_read_loop id tid w n (map key_interrupt ks) s2) (\<lambda>(bs, s2, es). Some (Inr (c # bs, s2, es)))"
    "kbd_ok s2" "kbd_content s2 = cs" "keymask s2 = keymask s1" "keymap s2 = keymap s1" by blast
  have "kbd_content s2 @ typed (keymap s2) (keymask s2) ks = rest" using s1(4) s2 by simp
  with s1(1) s2(1,2) show ?thesis by (metis (no_types))
qed

lemma kbd_read_run:
  assumes "kbd_ok s" "w \<noteq> NULL" "kbd_content s @ typed (keymap s) (keymask s) keys = input" "n \<le> length input"
  shows "\<exists>s' ks. kbd_read_loop id tid w n (map key_interrupt keys) s =
      Some (Inr (take n input, s', map key_interrupt ks)) \<and> kbd_ok s' \<and>
    kbd_content s' @ typed (keymap s') (keymask s') ks = drop n input"
  using assms
proof (induction n arbitrary: s keys input)
  case 0
  then show ?case by (intro exI [of _ s] exI [of _ keys]) simp
next
  case (Suc n)
  then obtain c rest where inp: "input = c # rest" by (cases input) auto
  from kbd_read_step [OF Suc.prems(1,2) Suc.prems(3) [unfolded inp], of tid n] obtain s1 ks where
    s1: "kbd_read_loop id tid w (Suc n) (map key_interrupt keys) s =
      bindR (kbd_read_loop id tid w n (map key_interrupt ks) s1) (\<lambda>(bs, s2, es). Some (Inr (c # bs, s2, es)))"
    "kbd_ok s1" "kbd_content s1 @ typed (keymap s1) (keymask s1) ks = rest" by blast
  have "n \<le> length rest" using inp Suc.prems(4) by simp
  from Suc.IH [OF s1(2) Suc.prems(2) s1(3) this] obtain s' ks' where
    "kbd_read_loop id tid w n (map key_interrupt ks) s1 = Some (Inr (take n rest, s', map key_interrupt ks'))"
    "kbd_ok s'" "kbd_content s' @ typed (keymap s') (keymask s') ks' = drop (Suc n) input" unfolding inp drop_Suc_Cons by blast
  moreover from s1(1) this(1) have "kbd_read_loop id tid w (Suc n) (map key_interrupt keys) s =
      Some (Inr (take (Suc n) input, s', map key_interrupt ks'))" by (simp del: kbd_read_loop.simps add: inp)
  ultimately show ?case by blast
qed

lemma kbd_read_blocks:
  assumes "kbd_ok s" "w \<noteq> NULL" "length (kbd_content s @ typed (keymap s) (keymask s) keys) < n"
  shows "kbd_read_loop id tid w n (map key_interrupt keys) s = None"
  using assms
proof (induction n arbitrary: s keys)
  case (Suc n)
  show ?case
  proof (cases "kbd_content s @ typed (keymap s) (keymask s) keys")
    case Nil
    with kbd_wait_forever [OF Suc.prems(1), of keys tid w] show ?thesis by (simp del: id_apply)
  next
    case (Cons c rest)
    from kbd_read_step [OF Suc.prems(1,2) Cons, of tid n] obtain s1 ks where
      s1: "kbd_read_loop id tid w (Suc n) (map key_interrupt keys) s =
        bindR (kbd_read_loop id tid w n (map key_interrupt ks) s1) (\<lambda>(bs, s2, es). Some (Inr (c # bs, s2, es)))"
      "kbd_ok s1" "kbd_content s1 @ typed (keymap s1) (keymask s1) ks = rest" by blast
    then have "length (kbd_content s1 @ typed (keymap s1) (keymask s1) ks) < n" using Suc.prems(3) Cons by simp
    from Suc.IH [OF s1(2) Suc.prems(2) this] s1(1) show ?thesis by (simp del: kbd_read_loop.simps id_apply)
  qed
qed simp

section \<open>The input buffer as a queue\<close>

definition kbd_put :: "u8 \<Rightarrow> keyboard \<Rightarrow> keyboard option" where
  "kbd_put c s = (if kbd_input_buffer_len s < of_nat CONFIG_KBD_INPUT_BUFFER_SIZE
     then (case kbd_store c s of Some (Inr s') \<Rightarrow> Some s' | _ \<Rightarrow> None) else None)"

definition kbd_avail :: "keyboard \<Rightarrow> bool" where
  "kbd_avail s = (kbd_input_buffer_len s \<noteq> 0)"

definition kbd_get :: "i32 \<Rightarrow> addr \<Rightarrow> keyboard \<Rightarrow> u8 \<times> keyboard" where
  "kbd_get tid w s = (case kbd_read_loop id tid w 1 [] s of Some (Inr (b # _, s', _)) \<Rightarrow> (b, s') | _ \<Rightarrow> (0, s))"

lemma stored_ok: "kbd_ok s \<Longrightarrow> stored bs s s' \<Longrightarrow> kbd_ok s'"
  by (auto simp: kbd_ok_def stored_def Let_def)

interpretation kbdq: bounded_queue kbd_ok kbd_content CONFIG_KBD_INPUT_BUFFER_SIZE kbd_put kbd_avail "kbd_get tid w"
proof
  fix s c assume ok: "kbd_ok s"
  show "\<exists>s'. kbd_put c s = Some s' \<and> kbd_ok s' \<and> kbd_content s' = kbd_content s @ [c]"
    if "length (kbd_content s) < CONFIG_KBD_INPUT_BUFFER_SIZE"
    using kbd_store_room [OF kbd_okD(1) [OF ok], of c] stored_ok [OF ok] that by (auto simp: kbd_put_def word_less_nat_alt)
  show "kbd_put c s = None" if "CONFIG_KBD_INPUT_BUFFER_SIZE \<le> length (kbd_content s)"
    using that by (simp add: kbd_put_def word_less_nat_alt)
  show "kbd_avail s \<longleftrightarrow> kbd_content s \<noteq> []"
    by (metis kbd_avail_def length_kbd_content length_0_conv unat_eq_0)
  show "\<exists>s'. kbd_get tid w s = (hd (kbd_content s), s') \<and> kbd_ok s' \<and> kbd_content s' = tl (kbd_content s)"
    if "kbd_content s \<noteq> []"
  proof -
    from that obtain b cs where con: "kbd_content s = b # cs" by (cases "kbd_content s") auto
    from kbd_read_ready [OF ok con, of id tid w 0 "[]"] show ?thesis
      by (auto simp: kbd_get_def con simp del: kbd_read_loop.simps(2))
  qed
  show "length (kbd_content s) \<le> CONFIG_KBD_INPUT_BUFFER_SIZE" using kbd_okD(1) [OF ok] by (rule kbd_content_bound)
qed

section \<open>Properties\<close>

lemma kbd_init_ok:
  assumes "kbd_init_buffer buffer (kbd_statics m h) = Inr s" "unat buffer + CONFIG_KBD_INPUT_BUFFER_SIZE < 2 ^ 32"
    "\<forall>a. unat a < unat buffer + CONFIG_KBD_INPUT_BUFFER_SIZE \<longrightarrow> m a \<noteq> None"
  shows "kbd_ok s" "kbd_content s = []" "keymap s = kbdus"
    "keymask s = \<lparr>left_shift = False, right_shift = False, alt = False\<rparr>"
    "kbd_input_buffer s = buffer" "kbd_input_buffer_rhead s = NULL"
proof -
  have s: "s = (kbd_statics m h)\<lparr>keymap := kbdus, kbd_input_buffer := buffer, kbd_semaphore := SEMAPHORE_INITIALIZER
      (of_nat CONFIG_KBD_INPUT_BUFFER_SIZE) (of_nat CONFIG_KBD_INPUT_BUFFER_SIZE)\<rparr>" "buffer \<noteq> NULL"
    using assms(1) by (auto simp: kbd_init_buffer_def Let_def split: if_splits)
  have "length kbdus = 128" by (simp add: kbdus_def)
  then show "kbd_ok s" using s assms(2,3) kbd_size_pos
    by (auto simp: kbd_ok_def kbd_core_def Let_def kbd_statics_def kbd_cell_def kbd_slot_def SEMAPHORE_INITIALIZER_def
        LIGHT_MUTEX_INITIALIZER_def MUTEX_INITIALIZER_def)
qed (use assms(1) in \<open>auto simp: kbd_init_buffer_def Let_def kbd_statics_def kbd_content_def split: if_splits\<close>)


text \<open>C39. \<open>kbd_init\<close> leaves both heads of the input buffer at address zero: the characters typed after it
  are stored at the addresses 0, 1, 2 and so on, outside the buffer that was allocated.\<close>

theorem keys_overwrite_low_memory:
  assumes "kbd_init_buffer buffer (kbd_statics m h) = Inr s" "unat buffer + CONFIG_KBD_INPUT_BUFFER_SIZE < 2 ^ 32"
    "\<forall>a. unat a < unat buffer + CONFIG_KBD_INPUT_BUFFER_SIZE \<longrightarrow> m a \<noteq> None"
    "i < length (typed (keymap s) (keymask s) keys)" "i < CONFIG_KBD_INPUT_BUFFER_SIZE" "i < unat buffer"
  shows "\<exists>s'. kbd_interrupts keys s = Some (Inr s') \<and>
    kbd_mem s' (of_nat i) = Some (typed (keymap s) (keymask s) keys ! i)"
proof -
  note init = kbd_init_ok [OF assms(1-3)]
  let ?t = "typed (keymap s) (keymask s) keys"
  from kbd_interrupts_run [OF kbd_okD(1) [OF init(1)], of keys] init obtain s' where
    s': "kbd_interrupts keys s = Some (Inr s')" "kbd_core s'" "kbd_content s' = take CONFIG_KBD_INPUT_BUFFER_SIZE ?t"
    "kbd_input_buffer s' = buffer" "kbd_input_buffer_rhead s' = NULL" by auto
  have cell: "kbd_cell s' i = of_nat i" using s'(4,5) assms(6) by (simp add: kbd_cell_def kbd_slot_def)
  have n: "i < length (kbd_content s')" using s'(3) assms(4,5) by simp
  then have "kbd_content s' ! i = the (kbd_mem s' (of_nat i))" by (simp add: kbd_content_def cell)
  moreover have "kbd_content s' ! i = ?t ! i" using s'(3) assms(4,5) by simp
  moreover obtain b where "kbd_mem s' (of_nat i) = Some b" using kbd_cell_mapped [OF s'(2), of i] cell assms(5) by auto
  ultimately show ?thesis using s'(1) by auto
qed

definition keyboard_memory :: "addr \<Rightarrow> u8 option" where
  "keyboard_memory a = (if a < 0x4000 then Some 0 else None)"

lemma keyboard_memory_mapped: "unat a < 0x4000 \<Longrightarrow> keyboard_memory a \<noteq> None"
  by (simp add: keyboard_memory_def word_less_nat_alt)


theorem keys_overwrite_low_memory_witness:
  "\<exists>s s'. kbd_init_buffer 0x2000 (kbd_statics keyboard_memory (\<lambda>_. \<lparr>w_pid = 0, w_waiting = False, w_next = NULL\<rparr>)) = Inr s \<and>
    kbd_interrupts [0x1E, 0x9E, 0x30] s = Some (Inr s') \<and> kbd_mem s' 1 = Some 98"
proof -
  let ?h = "\<lambda>_. \<lparr>w_pid = 0, w_waiting = False, w_next = NULL\<rparr>"
  obtain s where s: "kbd_init_buffer 0x2000 (kbd_statics keyboard_memory ?h) = Inr s"
    by (simp add: kbd_init_buffer_def)
  note init = kbd_init_ok [OF s, simplified CONFIG_KBD_INPUT_BUFFER_SIZE_def]
  have ok: "keymap s = kbdus" "keymask s = \<lparr>left_shift = False, right_shift = False, alt = False\<rparr>"
    using init keyboard_memory_mapped by simp_all
  have "typed (keymap s) (keymask s) [0x1E, 0x9E, 0x30] = [97, 98]"
    by (simp add: ok key_chars_def key_mask_def key_code_def is_release_def shifted_def kbdus_def kbd_keys)
  then show ?thesis
    using keys_overwrite_low_memory [OF s, of 1 "[0x1E, 0x9E, 0x30]"] s keyboard_memory_mapped
    by (simp add: CONFIG_KBD_INPUT_BUFFER_SIZE_def)
qed

end
