(* ===== verification/Stack_Move.thy ===== *)
theory Stack_Move
  imports Hydrax_Prelude
begin

text \<open>
  Copying stacks when a task is forked: the kernel stack (\<open>kernel/arch/x86/scheduler.c\<close>), whose words are
  relocated when they point into the old stack, and the user stack of a cloned thread
  (\<open>include/arch/x86/scheduler.h\<close>), which is copied as it is.  Memory maps the address of a word to the word.
\<close>

section \<open>Operations\<close>

definition ARCH_STACK_START :: addr where "ARCH_STACK_START = 0xDFFFFFFC"
definition SCHED_KERNEL_STACK_SIZE :: u32 where "SCHED_KERNEL_STACK_SIZE = 4096 * 0x10"

type_synonym words = "addr \<Rightarrow> u32"

text \<open>What is stored for a word: relocated if it points into the part of the old stack in use.\<close>

definition move_word :: "addr \<Rightarrow> addr \<Rightarrow> u32 \<Rightarrow> u32 \<Rightarrow> u32" where
  "move_word start stack2_end tmpi w = (if w \<le> start \<and> w \<ge> stack2_end then w + tmpi else w)"

partial_function (option) move_words :: "addr \<Rightarrow> addr \<Rightarrow> u32 \<Rightarrow> addr \<Rightarrow> addr \<Rightarrow> addr \<Rightarrow> words \<Rightarrow> words option" where
  "move_words stack_end stack2_end tmpi start stack stack2 m =
     (if stack \<noteq> stack_end \<and> stack2 \<noteq> stack2_end
      then move_words stack_end stack2_end tmpi start (stack - 4) (stack2 - 4)
        (m(stack := move_word start stack2_end tmpi (m stack2)))
      else Some m)"

declare move_words.simps [code]

text \<open>The registers saved in the machine state, and the pointer to those of the system call.\<close>

record saved_regs =
  sv_esp :: u32
  sv_ebp :: u32
  sv_registers :: addr

text \<open>
  \<open>idle\<close> says whether the running task has id zero, \<open>old_stack\<close> and \<open>new_stack\<close> are the fields \<open>kernel_stack\<close>
  of the two machine states, \<open>regs\<close> the register pointer of the running task.  The difference of the
  two tops is computed in 64 bits and used modulo the size of an address.
\<close>

definition arch_scheduler_move_task_stack :: "bool \<Rightarrow> addr \<Rightarrow> addr \<Rightarrow> addr \<Rightarrow> saved_regs \<Rightarrow> words \<Rightarrow>
    (saved_regs \<times> words) option" where
  "arch_scheduler_move_task_stack idle old_stack regs new_stack r m =
     (let stack_end = new_stack;
          stack = stack_end + (SCHED_KERNEL_STACK_SIZE - 4);
          stack2 = (if idle then ARCH_STACK_START else old_stack + (SCHED_KERNEL_STACK_SIZE - 4));
          stack2_end = sv_esp r;
          tmpi = stack - stack2;
          r1 = r\<lparr>sv_registers := regs + tmpi\<rparr> in
      map_option (\<lambda>m'. (r1\<lparr>sv_esp := sv_esp r1 + tmpi, sv_ebp := sv_ebp r1 + tmpi\<rparr>, m'))
        (move_words stack_end stack2_end tmpi stack2 stack stack2 m))"

text \<open>The user stack, upwards to its start.\<close>

partial_function (option) copy_words :: "addr \<Rightarrow> addr \<Rightarrow> words \<Rightarrow> words option" where
  "copy_words new_stack old_stack m =
     (if old_stack \<le> ARCH_STACK_START
      then copy_words (new_stack + 4) (old_stack + 4) (m(new_stack := m old_stack))
      else Some m)"

definition arch_adj_user_stack_pointer :: "addr \<Rightarrow> u32 \<Rightarrow> addr" where
  "arch_adj_user_stack_pointer stack useresp = stack - (ARCH_STACK_START - useresp)"

definition arch_copy_user_stack :: "addr \<Rightarrow> u32 \<Rightarrow> words \<Rightarrow> words option" where
  "arch_copy_user_stack stack useresp m = copy_words (stack - (ARCH_STACK_START - useresp)) useresp m"

section \<open>Lemmas\<close>

lemma of_nat_4_neq_0: "0 < n \<Longrightarrow> n < 2 ^ 30 \<Longrightarrow> (of_nat (4 * n) :: u32) \<noteq> 0"
proof -
  assume n: "0 < n" "n < 2 ^ 30"
  then have "unat (of_nat (4 * n) :: u32) = 4 * n" by (intro unat_of_nat_u32) simp
  with n show ?thesis by (metis mult_is_0 unat_0 zero_neq_numeral less_numeral_extra(3))
qed

text \<open>The slots of a stack: \<open>n\<close> words downwards from the top.\<close>

definition slots_down :: "addr \<Rightarrow> nat \<Rightarrow> addr set" where
  "slots_down tos n = (\<lambda>k. tos - of_nat (4 * k)) ` {..<n}"

lemma slots_down_Suc: "slots_down tos (Suc n) = insert tos (slots_down (tos - 4) n)"
proof -
  have "{..<Suc n} = insert 0 (Suc ` {..<n})" by (rule lessThan_Suc_eq_insert_0)
  then show ?thesis by (simp add: slots_down_def image_image algebra_simps)
qed

lemma move_words_run:
  "stack - stack_end = of_nat (4 * K) \<Longrightarrow> stack2 - stack2_end = of_nat (4 * N) \<Longrightarrow> N \<le> K \<Longrightarrow> K < 2 ^ 30 \<Longrightarrow>
   stack = stack2 + tmpi \<Longrightarrow> slots_down stack N \<inter> slots_down stack2 N = {} \<Longrightarrow>
    move_words stack_end stack2_end tmpi start stack stack2 m =
      Some (\<lambda>a. if a \<in> slots_down stack N then move_word start stack2_end tmpi (m (a - tmpi)) else m a)"
proof (induction N arbitrary: K stack stack2 m)
  case 0
  then have "stack2 = stack2_end" by simp
  then show ?case by (subst move_words.simps) (simp add: slots_down_def)
next
  case (Suc N)
  obtain K' where K: "K = Suc K'" using Suc.prems(3) by (cases K) auto
  have "(of_nat (4 * K) :: u32) \<noteq> 0" "(of_nat (4 * Suc N) :: u32) \<noteq> 0"
    using of_nat_4_neq_0 [of K] of_nat_4_neq_0 [of "Suc N"] Suc.prems(3,4) by auto
  then have ne: "stack \<noteq> stack_end" "stack2 \<noteq> stack2_end" using Suc.prems(1,2) by auto
  let ?m = "m(stack := move_word start stack2_end tmpi (m stack2))"
  have eqs: "stack - 4 - stack_end = of_nat (4 * K')" "stack2 - 4 - stack2_end = of_nat (4 * N)"
    "stack - 4 = stack2 - 4 + tmpi" using Suc.prems(1,2,5) K by (simp_all add: algebra_simps)
  have disj: "slots_down (stack - 4) N \<inter> slots_down (stack2 - 4) N = {}" "stack \<notin> slots_down (stack2 - 4) N"
    using Suc.prems(6) by (auto simp: slots_down_Suc)
  have "move_words stack_end stack2_end tmpi start (stack - 4) (stack2 - 4) ?m =
      Some (\<lambda>a. if a \<in> slots_down (stack - 4) N then move_word start stack2_end tmpi (?m (a - tmpi)) else ?m a)"
    by (rule Suc.IH [OF eqs(1,2) _ _ eqs(3) disj(1)]) (use Suc.prems(3,4) K in simp_all)
  then have "move_words stack_end stack2_end tmpi start stack stack2 m =
      Some (\<lambda>a. if a \<in> slots_down (stack - 4) N then move_word start stack2_end tmpi (?m (a - tmpi)) else ?m a)"
    using ne by (subst move_words.simps) (simp only: simp_thms if_True)
  moreover have "a - tmpi \<in> slots_down (stack2 - 4) N" if "a \<in> slots_down (stack - 4) N" for a
    using that Suc.prems(5) by (auto simp: slots_down_def algebra_simps)
  then have "a - tmpi \<noteq> stack" if "a \<in> slots_down (stack - 4) N" for a using that disj(2) by auto
  moreover have "stack - tmpi = stack2" using Suc.prems(5) by simp
  ultimately show ?case by (auto simp: slots_down_Suc fun_eq_iff)
qed

lemma copy_words_run:
  "ARCH_STACK_START - old_stack = of_nat (4 * n) \<Longrightarrow> old_stack \<le> ARCH_STACK_START \<Longrightarrow> n < 2 ^ 29 \<Longrightarrow>
   new_stack = old_stack + d \<Longrightarrow>
   (\<forall>i \<le> n. \<forall>j \<le> n. new_stack + of_nat (4 * i) \<noteq> old_stack + of_nat (4 * j)) \<Longrightarrow>
    \<exists>m'. copy_words new_stack old_stack m = Some m' \<and>
      (\<forall>i \<le> n. m' (new_stack + of_nat (4 * i)) = m (old_stack + of_nat (4 * i))) \<and>
      (\<forall>a. (\<forall>i \<le> n. a \<noteq> new_stack + of_nat (4 * i)) \<longrightarrow> m' a = m a)"
proof (induction n arbitrary: old_stack new_stack m)
  case 0
  then have o: "old_stack = ARCH_STACK_START" by simp
  have "\<not> ARCH_STACK_START + 4 \<le> ARCH_STACK_START" by (simp add: ARCH_STACK_START_def)
  then have "copy_words (new_stack + 4) (old_stack + 4) m' = Some m'" for m'
    using o by (subst copy_words.simps) simp
  then show ?case using o by (subst copy_words.simps) simp
next
  case (Suc n)
  let ?m = "m(new_stack := m old_stack)"
  have len: "unat (of_nat (4 * Suc n) :: u32) = 4 * Suc n" using Suc.prems(3) by (intro unat_of_nat_u32) simp
  have sub: "unat ARCH_STACK_START - unat old_stack = 4 * Suc n"
    using Suc.prems(1,2) len by (metis unat_sub)
  then have "unat old_stack + 4 \<le> unat ARCH_STACK_START" by simp
  then have le: "old_stack + 4 \<le> ARCH_STACK_START" "unat (old_stack + 4) = unat old_stack + 4"
    by (auto simp: word_le_nat_alt unat_word_ariths ARCH_STACK_START_def)
  have eqs: "ARCH_STACK_START - (old_stack + 4) = of_nat (4 * n)" "new_stack + 4 = old_stack + 4 + d"
    using Suc.prems(1,4) by (simp_all add: algebra_simps)
  have dis: "new_stack + 4 + of_nat (4 * i) \<noteq> old_stack + 4 + of_nat (4 * j)" if "i \<le> n" "j \<le> n" for i j
    using Suc.prems(5) that by (auto simp: algebra_simps dest!: spec [of _ "Suc i"] spec [of _ "Suc j"])
  have "n < 2 ^ 29" "\<forall>i \<le> n. \<forall>j \<le> n. new_stack + 4 + of_nat (4 * i) \<noteq> old_stack + 4 + of_nat (4 * j)"
    using dis Suc.prems(3) by (simp, blast)
  from Suc.IH [OF eqs(1) le(1) this(1) eqs(2) this(2), of ?m] obtain m' where
    m': "copy_words (new_stack + 4) (old_stack + 4) ?m = Some m'"
    "\<forall>i \<le> n. m' (new_stack + 4 + of_nat (4 * i)) = ?m (old_stack + 4 + of_nat (4 * i))"
    "\<forall>a. (\<forall>i \<le> n. a \<noteq> new_stack + 4 + of_nat (4 * i)) \<longrightarrow> m' a = ?m a" by blast
  have run: "copy_words new_stack old_stack m = Some m'" using Suc.prems(2) m'(1) by (subst copy_words.simps) simp
  have far: "(of_nat (4 * Suc i) :: u32) \<noteq> 0" if "i \<le> n" for i
    using of_nat_4_neq_0 [of "Suc i"] that Suc.prems(3) by simp
  have first: "m' new_stack = m old_stack"
  proof -
    have "new_stack \<noteq> new_stack + 4 + of_nat (4 * i)" if "i \<le> n" for i using far [OF that] by (simp add: algebra_simps)
    then show ?thesis using m'(3) by simp
  qed
  have dis0: "new_stack \<noteq> old_stack + of_nat (4 * i)" if "i \<le> Suc n" for i
    using Suc.prems(5) [rule_format, of 0 i] that by simp
  have "m' (new_stack + of_nat (4 * i)) = m (old_stack + of_nat (4 * i))" if "i \<le> Suc n" for i
  proof (cases i)
    case 0
    then show ?thesis using first by simp
  next
    case (Suc k)
    with dis0 [OF that] that m'(2) show ?thesis by (simp add: algebra_simps)
  qed
  moreover have "m' a = m a" if "\<forall>i \<le> Suc n. a \<noteq> new_stack + of_nat (4 * i)" for a
  proof -
    have "a \<noteq> new_stack" using that [rule_format, of 0] by simp
    moreover have "a \<noteq> new_stack + 4 + of_nat (4 * i)" if "i \<le> n" for i
      using \<open>\<forall>i \<le> Suc n. a \<noteq> new_stack + of_nat (4 * i)\<close> [rule_format, of "Suc i"] that by (simp add: algebra_simps)
    ultimately show ?thesis using m'(3) by simp
  qed
  ultimately show ?case using run by blast
qed

section \<open>Properties\<close>

text \<open>C18. Moving the kernel stack of a forked task terminates and gives the child the same stack at its own
  place: every word in use above the saved stack pointer is copied to the same depth below the
  new top, the words that point into the old stack in use are relocated by the distance of the two
  stacks, the saved stack and frame pointers keep their place in it, and nothing else is written;
  so the word at the saved stack pointer itself is not copied.\<close>

theorem task_stack_relocated:
  assumes "old_tos = (if idle then ARCH_STACK_START else old_stack + (SCHED_KERNEL_STACK_SIZE - 4))"
    "new_tos = new_stack + (SCHED_KERNEL_STACK_SIZE - 4)"
    "sv_esp r = old_tos - of_nat (4 * n)" "n < 2 ^ 14" "slots_down new_tos n \<inter> slots_down old_tos n = {}"
  shows "\<exists>r' m'. arch_scheduler_move_task_stack idle old_stack regs new_stack r m = Some (r', m') \<and>
    (\<forall>k < n. m' (new_tos - of_nat (4 * k)) =
      (let w = m (old_tos - of_nat (4 * k)) in if sv_esp r \<le> w \<and> w \<le> old_tos then w + (new_tos - old_tos) else w)) \<and>
    (\<forall>a. a \<notin> slots_down new_tos n \<longrightarrow> m' a = m a) \<and>
    sv_esp r' = new_tos - of_nat (4 * n) \<and> sv_ebp r' - sv_esp r' = sv_ebp r - sv_esp r \<and>
    sv_registers r' = regs + (new_tos - old_tos)"
proof -
  let ?K = "(2 :: nat) ^ 14 - 1" and ?t = "new_tos - old_tos"
  let ?m = "\<lambda>a. if a \<in> slots_down new_tos n then move_word old_tos (sv_esp r) ?t (m (a - ?t)) else m a"
  have K: "new_tos - new_stack = of_nat (4 * ?K)" using assms(2) by (simp add: SCHED_KERNEL_STACK_SIZE_def)
  have N: "old_tos - sv_esp r = of_nat (4 * n)" using assms(3) by simp
  have run: "move_words new_stack (sv_esp r) ?t old_tos new_tos old_tos m = Some ?m"
    by (rule move_words_run [OF K N _ _ _ assms(5)]) (use assms(4) in simp_all)
  have "arch_scheduler_move_task_stack idle old_stack regs new_stack r m =
      Some (r\<lparr>sv_registers := regs + ?t, sv_esp := sv_esp r + ?t, sv_ebp := sv_ebp r + ?t\<rparr>, ?m)"
    using run unfolding arch_scheduler_move_task_stack_def Let_def assms(1) [symmetric] assms(2) [symmetric] by simp
  moreover have "?m (new_tos - of_nat (4 * k)) =
      (let w = m (old_tos - of_nat (4 * k)) in if sv_esp r \<le> w \<and> w \<le> old_tos then w + ?t else w)" if "k < n" for k
  proof -
    have "new_tos - of_nat (4 * k) \<in> slots_down new_tos n" using that by (auto simp: slots_down_def)
    moreover have "new_tos - of_nat (4 * k) - ?t = old_tos - of_nat (4 * k)" by (simp add: algebra_simps)
    ultimately show ?thesis by (auto simp: move_word_def Let_def)
  qed
  moreover have "?m a = m a" if "a \<notin> slots_down new_tos n" for a using that by simp
  moreover have "sv_esp r + ?t = new_tos - of_nat (4 * n)" using assms(3) by (simp add: algebra_simps)
  moreover have "sv_ebp r + ?t - (sv_esp r + ?t) = sv_ebp r - sv_esp r" by simp
  ultimately show ?thesis
    by (intro exI [of _ "r\<lparr>sv_registers := regs + ?t, sv_esp := sv_esp r + ?t, sv_ebp := sv_ebp r + ?t\<rparr>"]
        exI [of _ ?m]) (simp del: of_nat_mult)
qed

definition sample_words :: words where
  "sample_words a = (if a = 0xE010FFF8 then 0xE010FFFC else a)"

theorem task_stack_relocated_witness:
  "\<exists>r' m'. arch_scheduler_move_task_stack False 0xE0100000 0xE010FFF0 0xE0200000
      \<lparr>sv_esp = 0xE010FFF0, sv_ebp = 0xE010FFF4, sv_registers = 0\<rparr> sample_words = Some (r', m') \<and>
    m' 0xE020FFF8 = 0xE020FFFC \<and> sv_esp r' = 0xE020FFF0 \<and> m' 0xE010FFF8 = 0xE010FFFC"
proof -
  let ?r = "\<lparr>sv_esp = 0xE010FFF0, sv_ebp = 0xE010FFF4, sv_registers = 0\<rparr>"
  have d: "slots_down 0xE020FFFC 3 \<inter> slots_down 0xE010FFFC 3 = {}"
    by (simp add: slots_down_Suc numeral_3_eq_3) (simp add: slots_down_def)
  have e: "(0xE010FFFC :: u32) = (if False then ARCH_STACK_START else 0xE0100000 + (SCHED_KERNEL_STACK_SIZE - 4))"
    "(0xE020FFFC :: u32) = 0xE0200000 + (SCHED_KERNEL_STACK_SIZE - 4)"
    by (simp_all add: SCHED_KERNEL_STACK_SIZE_def)
  have f: "sv_esp ?r = 0xE010FFFC - of_nat (4 * 3)" by simp
  from task_stack_relocated [OF e f _ d, of "0xE010FFF0" sample_words] obtain r' m' where
    r: "arch_scheduler_move_task_stack False 0xE0100000 0xE010FFF0 0xE0200000 ?r sample_words = Some (r', m')"
    and w: "\<forall>k < 3. m' (0xE020FFFC - of_nat (4 * k)) = (let w = sample_words (0xE010FFFC - of_nat (4 * k)) in
      if sv_esp ?r \<le> w \<and> w \<le> 0xE010FFFC then w + (0xE020FFFC - 0xE010FFFC) else w)"
    and u: "\<forall>a. a \<notin> slots_down 0xE020FFFC 3 \<longrightarrow> m' a = sample_words a"
    and p: "sv_esp r' = 0xE020FFFC - of_nat (4 * 3)" by auto
  have "m' 0xE020FFF8 = 0xE020FFFC" using w [rule_format, of 1] by (simp add: sample_words_def)
  moreover have "(0xE010FFF8 :: addr) \<notin> slots_down 0xE020FFFC 3"
    by (simp add: slots_down_Suc numeral_3_eq_3) (simp add: slots_down_def)
  then have "m' 0xE010FFF8 = 0xE010FFFC" using u by (simp add: sample_words_def)
  ultimately show ?thesis using r p by auto
qed

end
