(* ===== verification/Fork.thy ===== *)
theory Fork
  imports Scheduler Io Cow Stack_Move
begin

text \<open>
  Creating tasks and threads (\<open>kernel/fork.c\<close>), composed from the parts it calls: cloning the address space and
  the page map, allocating the kernel stack, adding the directory of the task to the process file
  system, cloning the descriptor table, copying the list of buffers, moving the kernel stack and
  entering the task lists.  A new task is a structure that \<open>malloc\<close> returned: the fields that the
  source does not assign keep what was there.
\<close>

section \<open>State\<close>

text \<open>The machine state of a task, with its pointer to the registers of the system call.\<close>

record task_state_t =
  m_directory :: "dir_ref option"
  m_directory_physical :: u32
  m_memmap :: map_ref
  m_kernel_stack :: addr
  m_saved :: saved_regs

text \<open>The fields of \<open>task_t\<close> that belong to memory, descriptors and the environment.\<close>

record task_rest =
  r_machine :: task_state_t
  r_buffers :: "(addr \<times> buffer_t) list"
  r_mmaps :: "(addr \<times> mmap_info_t) list"
  r_mmaps_lock :: mutex_t
  r_env_lock :: mutex_t
  r_descriptors :: addr
  r_thread_stack :: u32
  r_argv :: addr
  r_envp :: addr

text \<open>
  The parts of the kernel, each with its view of the running task, and the static variables of
  \<open>fork.c\<close>.  \<open>kmem\<close> is the memory the stacks are in, \<open>cpu_esp\<close> and \<open>cpu_ebp\<close> the registers of the
  processor where the state of the task is saved, \<open>itoa_buf\<close> the buffer of \<open>itoa\<close>
  with the byte behind it.
\<close>

record system_t =
  sy_sys :: sys
  sy_mmu :: mmu
  sy_io :: io
  rests :: "addr \<Rightarrow> task_rest"
  kmem :: words
  cpu_esp :: u32
  cpu_ebp :: u32
  next_pid :: i32
  next_tid :: i32
  pid_lock :: light_mutex_t
  procfs :: addr
  itoa_buf :: string

abbreviation current :: "system_t \<Rightarrow> addr" where
  "current s \<equiv> current_task (sy_sys s)"

abbreviation cur_rest :: "system_t \<Rightarrow> task_rest" where
  "cur_rest s \<equiv> rests s (current s)"

definition upd_sys :: "(sys \<Rightarrow> sys) \<Rightarrow> system_t \<Rightarrow> system_t" where
  "upd_sys f s = s\<lparr>sy_sys := f (sy_sys s)\<rparr>"

definition upd_rest :: "addr \<Rightarrow> (task_rest \<Rightarrow> task_rest) \<Rightarrow> system_t \<Rightarrow> system_t" where
  "upd_rest a f s = s\<lparr>rests := (rests s)(a := f (rests s a))\<rparr>"

text \<open>
  A call into a part of the kernel.  The locks of the part are not waited for here: a call that finds
  one held has not returned.
\<close>

definition on_mmu :: "'a mm \<Rightarrow> (system_t, 'a) proc" where
  "on_mmu p = (\<lambda>es s. bindR (p [] (sy_mmu s)) (\<lambda>(x, m, _). Some (Inr (x, s\<lparr>sy_mmu := m\<rparr>, es))))"

definition on_io :: "(io \<Rightarrow> ('a \<times> io) run) \<Rightarrow> (system_t, 'a) proc" where
  "on_io p = (\<lambda>es s. bindR (p (sy_io s)) (\<lambda>(x, i). Some (Inr (x, s\<lparr>sy_io := i\<rparr>, es))))"

definition kmalloc :: "(system_t, addr) proc" where
  "kmalloc = on_mmu malloc_struct"

definition release :: "addr \<Rightarrow> (system_t, unit) proc" where
  "release a = on_mmu (free_struct a)"

section \<open>Parts of fork\<close>

definition put_pid_lock :: "light_mutex_t \<Rightarrow> system_t \<Rightarrow> system_t" where
  "put_pid_lock l s = s\<lparr>pid_lock := l\<rparr>"

text \<open>The new pid and tid, and a new tid alone.\<close>

definition take_ids :: "(system_t, i32 \<times> i32) proc" where
  "take_ids =
     bindP (waitP pid_lock put_pid_lock) (\<lambda>_.
     bindP (getP (\<lambda>s. (next_pid s, next_tid s))) (\<lambda>ids.
     bindP (updP (\<lambda>s. s\<lparr>next_pid := next_pid s + 1, next_tid := next_tid s + 1\<rparr>)) (\<lambda>_.
     bindP (releaseP pid_lock put_pid_lock) (\<lambda>_. retP ids))))"

definition take_tid :: "(system_t, i32) proc" where
  "take_tid =
     bindP (waitP pid_lock put_pid_lock) (\<lambda>_.
     bindP (getP next_tid) (\<lambda>tid.
     bindP (updP (\<lambda>s. s\<lparr>next_tid := next_tid s + 1\<rparr>)) (\<lambda>_.
     bindP (releaseP pid_lock put_pid_lock) (\<lambda>_. retP tid))))"

text \<open>\<open>ok\<close> is whether \<open>memmap_clone\<close> gets its storage.\<close>

definition clone_memmap :: "bool \<Rightarrow> addr \<Rightarrow> (system_t, bool) proc" where
  "clone_memmap ok a =
     bindP (liftP (\<lambda>s. memmap_clone ok (memmaps (sy_mmu s) (Task_Memmap a))
       (memmaps (sy_mmu s) (m_memmap (r_machine (cur_rest s)))))) (\<lambda>(r, m).
     bindP (on_mmu (updP (\<lambda>u. u\<lparr>memmaps := (memmaps u)(Task_Memmap a := m)\<rparr>))) (\<lambda>_. retP r))"

definition destroy_memmap :: "addr \<Rightarrow> (system_t, unit) proc" where
  "destroy_memmap a =
     on_mmu (updP (\<lambda>u. case memmap_destroy (Some (memmaps u (Task_Memmap a))) of
       None \<Rightarrow> u | Some m \<Rightarrow> u\<lparr>memmaps := (memmaps u)(Task_Memmap a := m)\<rparr>))"

text \<open>The functions of the process file system that its directories carry.\<close>

record procfs_fns =
  fn_open :: addr
  fn_stat :: addr
  fn_readdir :: addr

definition add_procfs_node :: "procfs_fns \<Rightarrow> addr \<Rightarrow> i32 \<Rightarrow> (system_t, unit) proc" where
  "add_procfs_node fns node tid =
     bindP (liftP (\<lambda>s. itoa (itoa_buf s) tid)) (\<lambda>b.
     bindP (updP (\<lambda>s. s\<lparr>itoa_buf := b\<rparr>)) (\<lambda>_.
     bindP (liftP (\<lambda>s. strcpy (nd_name (nodes (fs (sy_io s)) node)) b)) (\<lambda>(nm, _).
     bindP (getP procfs) (\<lambda>p.
     bindP (on_io (\<lambda>i. Some (Inr ((), i\<lparr>fs := upd_node node (\<lambda>n. n\<lparr>nd_name := nm, nd_parent := p,
         nd_open := fn_open fns, nd_stat := fn_stat fns, nd_readdir := fn_readdir fns,
         nd_flags := FS_DIRECTORY, nd_next := NULL\<rparr>) (fs i)\<rparr>)))) (\<lambda>_.
     bindP (on_io (in_fs (\<lambda>v. bindR (vfs_mknod p node [] v) (\<lambda>(r, v', _). Some (Inr (r, v')))))) (\<lambda>_.
     retP ()))))))"

text \<open>\<open>tbl\<close> and \<open>fds\<close> are what \<open>malloc\<close> returns to \<open>clone_descriptor_table\<close>.\<close>

definition clone_descriptors :: "addr \<Rightarrow> addr list \<Rightarrow> (system_t, addr) proc" where
  "clone_descriptors tbl fds =
     on_io (\<lambda>i. bindR (clone_descriptor_table tbl fds [] i) (\<lambda>(d, i', _). Some (Inr (d, i'))))"

text \<open>The copy of the buffers of the running task, with a copy of the mapping each refers to.\<close>

fun copy_buffers :: "(addr \<times> mmap_info_t) list \<Rightarrow> (addr \<times> buffer_t) list \<Rightarrow>
    (system_t, (addr \<times> buffer_t) list \<times> (addr \<times> mmap_info_t) list) proc" where
  "copy_buffers maps [] = retP ([], [])"
| "copy_buffers maps ((a, b) # bs) =
     bindP kmalloc (\<lambda>nb.
     bindP (assertP (nb \<noteq> NULL)) (\<lambda>_.
     if b_mmap b \<noteq> NULL then
       bindP kmalloc (\<lambda>nm.
       bindP (assertP (nm \<noteq> NULL)) (\<lambda>_.
       case map_of maps (b_mmap b) of
         None \<Rightarrow> trapP Out_Of_Bounds
       | Some mi \<Rightarrow>
           bindP (copy_buffers maps bs) (\<lambda>(bs', ms'). retP ((nb, b\<lparr>b_mmap := nm\<rparr>) # bs', (nm, mi) # ms'))))
     else bindP (copy_buffers maps bs) (\<lambda>(bs', ms'). retP ((nb, b) # bs', ms'))))"

text \<open>\<open>LINKED_LIST_APPEND_NEW\<close> on a task list of the system.\<close>

definition append_task :: "(sys \<Rightarrow> ll_list) \<Rightarrow> (ll_list \<Rightarrow> sys \<Rightarrow> sys) \<Rightarrow> addr \<Rightarrow> (system_t, addr) proc" where
  "append_task get put t =
     bindP kmalloc (\<lambda>a. \<lambda>es s.
       let (r, h, l) = append_new a t (items (sy_sys s), get (sy_sys s)) in
       Some (Inr (r, upd_sys (\<lambda>y. put l (y\<lparr>items := h\<rparr>)) s, es)))"

definition put_children :: "addr \<Rightarrow> ll_list \<Rightarrow> sys \<Rightarrow> sys" where
  "put_children t l = upd_task t (\<lambda>x. x\<lparr>t_children := l\<rparr>)"

definition put_threads :: "addr \<Rightarrow> ll_list \<Rightarrow> sys \<Rightarrow> sys" where
  "put_threads t l = upd_task t (\<lambda>x. x\<lparr>t_threads := l\<rparr>)"

definition task_wait :: "addr \<Rightarrow> (system_t, unit) proc" where
  "task_wait t = waitP (\<lambda>s. t_lock (tasks (sy_sys s) t)) (\<lambda>m. upd_sys (upd_task t (\<lambda>x. x\<lparr>t_lock := m\<rparr>)))"

definition task_release :: "addr \<Rightarrow> (system_t, unit) proc" where
  "task_release t = releaseP (\<lambda>s. t_lock (tasks (sy_sys s) t)) (\<lambda>m. upd_sys (upd_task t (\<lambda>x. x\<lparr>t_lock := m\<rparr>)))"

section \<open>The fork itself\<close>

text \<open>The handlers of the running task; flags and masks of the actions are not copied.\<close>

definition copy_handlers :: "sigaction_t list \<Rightarrow> sigaction_t list \<Rightarrow> sigaction_t list" where
  "copy_handlers new old = map (\<lambda>i. (new ! i)\<lparr>sa_handler := sa_handler (old ! i)\<rparr>) [0 ..< 32]"

text \<open>Up to the point where the instruction pointer of the new task is saved.\<close>

definition kfork_prepare :: "addr \<Rightarrow> dir_ref option \<Rightarrow> u32 \<Rightarrow> map_ref \<Rightarrow> addr \<Rightarrow> (system_t, unit) proc" where
  "kfork_prepare new_task directory phys memmap kernel_stack =
     bindP (updP (\<lambda>s. upd_sys (upd_task new_task (\<lambda>t. (clear_task_signals t)\<lparr>
         t_sig_action := copy_handlers (t_sig_action t) (t_sig_action (cur (sy_sys s)))\<rparr>)) s)) (\<lambda>_.
     bindP (updP (\<lambda>s. upd_rest new_task (\<lambda>r. r\<lparr>r_machine := (r_machine r)\<lparr>m_directory := directory,
         m_directory_physical := phys, m_memmap := memmap, m_kernel_stack := kernel_stack,
         m_saved := (m_saved (r_machine r))\<lparr>sv_esp := cpu_esp s, sv_ebp := cpu_ebp s\<rparr>\<rparr>\<rparr>) s)) (\<lambda>_. \<lambda>es s.
       case arch_scheduler_move_task_stack (t_id (cur (sy_sys s)) = 0) (m_kernel_stack (r_machine (cur_rest s)))
           (sv_registers (m_saved (r_machine (cur_rest s)))) kernel_stack (m_saved (r_machine (rests s new_task))) (kmem s) of
         None \<Rightarrow> None
       | Some (sv, m) \<Rightarrow>
           Some (Inr ((), upd_rest new_task (\<lambda>r. r\<lparr>r_machine := (r_machine r)\<lparr>m_saved := sv\<rparr>\<rparr>) (s\<lparr>kmem := m\<rparr>), es))))"

definition has_kernel_stack :: "system_t \<Rightarrow> addr \<Rightarrow> bool" where
  "has_kernel_stack s t = (m_kernel_stack (r_machine (rests s t)) \<noteq> NULL)"

text \<open>
  Giving up the processor with the scheduler's lock held.  \<open>others\<close> is all that happens until the
  running task is loaded again, at which time the lock is held for it.
\<close>

definition yield_prelocked :: "addr \<Rightarrow> (system_t \<Rightarrow> system_t) \<Rightarrow> (system_t, unit) proc" where
  "yield_prelocked idle others = (\<lambda>es s.
     bindR (schedule_prelocked idle False (has_kernel_stack s) (sy_sys s)) (\<lambda>(d, y).
     let s1 = s\<lparr>sy_sys := y\<rparr> in
     if d = Stay then Some (Inr ((), s1, es))
     else
       let s2 = others s1 in
       bindR (schedule_prelocked idle True (has_kernel_stack s2) (sy_sys s2)) (\<lambda>(_, y2).
       Some (Inr ((), s2\<lparr>sy_sys := y2\<rparr>, es)))))"

definition schedule_wait :: "(system_t, unit) proc" where
  "schedule_wait = waitP (\<lambda>s. schedule_lock (sy_sys s)) (\<lambda>m. upd_sys (put_schedule_lock m))"

definition schedule_release :: "(system_t, unit) proc" where
  "schedule_release = releaseP (\<lambda>s. schedule_lock (sy_sys s)) (\<lambda>m. upd_sys (put_schedule_lock m))"

text \<open>
  What follows the saved instruction pointer is executed twice: by the running task, and by the
  new one when it is first loaded.
\<close>

definition kfork_return :: "addr \<Rightarrow> (system_t \<Rightarrow> system_t) \<Rightarrow> addr \<Rightarrow> (system_t, i32) proc" where
  "kfork_return idle others new_task =
     bindP (getP current) (\<lambda>c.
     if c \<noteq> new_task then
       bindP schedule_wait (\<lambda>_.
       bindP (append_task tasks_list (\<lambda>l y. y\<lparr>tasks_list := l\<rparr>) new_task) (\<lambda>_.
       bindP (yield_prelocked idle others) (\<lambda>_.
       getP (\<lambda>s. t_errno (tasks (sy_sys s) new_task)))))
     else bindP schedule_release (\<lambda>_. retP 0))"

definition kfork :: "addr \<Rightarrow> (system_t \<Rightarrow> system_t) \<Rightarrow> addr \<Rightarrow> dir_ref option \<Rightarrow> u32 \<Rightarrow> map_ref \<Rightarrow> addr \<Rightarrow>
    (system_t, i32) proc" where
  "kfork idle others new_task directory phys memmap kernel_stack =
     bindP (kfork_prepare new_task directory phys memmap kernel_stack) (\<lambda>_. kfork_return idle others new_task)"

definition init_forked :: "addr \<Rightarrow> i32 \<Rightarrow> i32 \<Rightarrow> addr \<Rightarrow> addr \<Rightarrow> system_t \<Rightarrow> system_t" where
  "init_forked new_task pid tid node descriptors s =
     (let c = cur (sy_sys s) in
      upd_rest new_task (\<lambda>r. r\<lparr>r_argv := NULL, r_envp := NULL, r_thread_stack := 0, r_descriptors := descriptors,
          r_env_lock := MUTEX_INITIALIZER, r_mmaps_lock := MUTEX_INITIALIZER, r_mmaps := [], r_buffers := []\<rparr>)
        (upd_sys (upd_task new_task (\<lambda>t. t\<lparr>t_id := tid, t_pid := pid, t_main_thread := new_task,
          t_uid := t_uid c, t_gid := t_gid c, t_euid := t_euid c, t_egid := t_egid c,
          t_status := TASK_STATE_RUNNING, t_sigmask := t_sigmask c, t_exit_code := 0,
          t_lock := MUTEX_INITIALIZER, t_cwd := t_cwd c, t_procfs_node := node, t_parent := current s,
          t_errno := pid, t_children := LINKED_LIST_INIT, t_threads := LINKED_LIST_INIT\<rparr>)) s))"

definition running_mm :: "(system_t, mm_task) proc" where
  "running_mm = liftP (\<lambda>s. case mm_current (sy_mmu s) of None \<Rightarrow> Inl Null_Deref | Some t \<Rightarrow> Inr t)"

text \<open>
  \<open>fork\<close> from the point where everything is allocated.  The buffers of the running task are those
  of the memory manager's view of it.
\<close>

definition fork_task :: "addr \<Rightarrow> i32 \<Rightarrow> i32 \<Rightarrow> addr \<Rightarrow> addr \<Rightarrow> (system_t, unit) proc" where
  "fork_task new_task pid tid node descriptors =
     bindP (updP (init_forked new_task pid tid node descriptors)) (\<lambda>_.
     bindP (append_task (\<lambda>y. t_threads (tasks y new_task)) (put_threads new_task) new_task) (\<lambda>_.
     bindP running_mm (\<lambda>t.
     bindP (copy_buffers (mt_mmaps t) (mt_buffers t)) (\<lambda>(bs, maps).
     bindP (updP (upd_rest new_task (\<lambda>r. r\<lparr>r_buffers := bs, r_mmaps := maps\<rparr>))) (\<lambda>_.
     bindP (getP current) (\<lambda>c.
     bindP (task_wait c) (\<lambda>_.
     bindP (append_task (\<lambda>y. t_children (tasks y c)) (put_children c) new_task) (\<lambda>item.
     if item = NULL then trapP Kernel_Panic else task_release c))))))))"

text \<open>
  \<open>fork\<close>.  \<open>n\<close> bounds the nesting of \<open>kalloc\<close>; \<open>map_ok\<close>, \<open>tbl\<close> and \<open>fds\<close> are the verdicts of the
  allocations made by \<open>memmap_clone\<close> and \<open>clone_descriptor_table\<close>.  When the descriptor table cannot be
  cloned everything is released and the function goes on.
\<close>

definition fork :: "nat \<Rightarrow> procfs_fns \<Rightarrow> addr \<Rightarrow> (system_t \<Rightarrow> system_t) \<Rightarrow> bool \<Rightarrow> addr \<Rightarrow> addr list \<Rightarrow>
    (system_t, i32) proc" where
  "fork n fns idle others map_ok tbl fds =
     bindP take_ids (\<lambda>(pid, tid).
     bindP (liftP (\<lambda>s. case current_directory (sy_mmu s) of None \<Rightarrow> Inl Null_Deref | Some d \<Rightarrow> Inr d)) (\<lambda>src.
     bindP (on_mmu (mmu_clone_directory n src CLONE_COW)) (\<lambda>dir.
     case dir of
       None \<Rightarrow> retP ENOMEM
     | Some (directory, phys) \<Rightarrow>
     bindP kmalloc (\<lambda>new_task.
     if new_task = NULL then bindP (on_mmu (mmu_destroy_directory directory)) (\<lambda>_. retP ENOMEM)
     else
     bindP kmalloc (\<lambda>memmap.
     if memmap = NULL then
       bindP (on_mmu (mmu_destroy_directory directory)) (\<lambda>_. bindP (release new_task) (\<lambda>_. retP ENOMEM))
     else
     bindP (clone_memmap map_ok memmap) (\<lambda>cloned.
     if \<not> cloned then
       bindP (on_mmu (mmu_destroy_directory directory)) (\<lambda>_.
       bindP (release memmap) (\<lambda>_. bindP (release new_task) (\<lambda>_. retP ENOMEM)))
     else
     bindP (on_mmu (kalloc n SCHED_KERNEL_STACK_SIZE NULL (KALLOC_OPTN_ALIGN OR KALLOC_OPTN_KERNEL) NULL))
       (\<lambda>(kernel_stack, _).
     if kernel_stack = NULL then
       bindP (destroy_memmap memmap) (\<lambda>_. bindP (release memmap) (\<lambda>_. bindP (release new_task) (\<lambda>_.
       bindP (on_mmu (mmu_destroy_directory directory)) (\<lambda>_. retP ENOMEM))))
     else
     bindP kmalloc (\<lambda>node.
     if node = NULL then
       bindP (on_mmu (mmu_destroy_directory directory)) (\<lambda>_. bindP (destroy_memmap memmap) (\<lambda>_.
       bindP (on_mmu (kfree kernel_stack)) (\<lambda>_. bindP (release memmap) (\<lambda>_.
       bindP (release new_task) (\<lambda>_. retP ENOMEM)))))
     else
     bindP (add_procfs_node fns node tid) (\<lambda>_.
     bindP (clone_descriptors tbl fds) (\<lambda>descriptors.
     bindP (if descriptors = NULL then
         bindP (release node) (\<lambda>_. bindP (on_mmu (mmu_destroy_directory directory)) (\<lambda>_.
         bindP (destroy_memmap memmap) (\<lambda>_. bindP (on_mmu (kfree kernel_stack)) (\<lambda>_.
         bindP (release memmap) (\<lambda>_. release new_task)))))
       else retP ()) (\<lambda>_.
     bindP (fork_task new_task pid tid node descriptors) (\<lambda>_.
     kfork idle others new_task (Some directory) phys (Task_Memmap memmap) kernel_stack))))))))))))"

definition vfork :: "nat \<Rightarrow> procfs_fns \<Rightarrow> addr \<Rightarrow> (system_t \<Rightarrow> system_t) \<Rightarrow> bool \<Rightarrow> addr \<Rightarrow> addr list \<Rightarrow>
    (system_t, i32) proc" where
  "vfork = fork"

section \<open>Threads\<close>

text \<open>The user stack pointer in the registers of the system call, the fifteenth word of \<open>registers_t\<close>.\<close>

definition useresp_at :: "system_t \<Rightarrow> addr" where
  "useresp_at s = sv_registers (m_saved (r_machine (cur_rest s))) + 56"

definition arch_get_user_stack :: "system_t \<Rightarrow> u32" where
  "arch_get_user_stack s = kmem s (useresp_at s)"

definition arch_set_user_stack :: "u32 \<Rightarrow> system_t \<Rightarrow> system_t" where
  "arch_set_user_stack w s = s\<lparr>kmem := (kmem s)(useresp_at s := w)\<rparr>"

text \<open>
  \<open>mt\<close> is the memory manager's view of the running task, whose lists the new thread gets as they
  are.  The effective user and group are not set.
\<close>

definition init_cloned :: "addr \<Rightarrow> i32 \<Rightarrow> i32 \<Rightarrow> addr \<Rightarrow> u32 \<Rightarrow> mm_task \<Rightarrow> system_t \<Rightarrow> system_t" where
  "init_cloned new_task pid tid node stack mt s =
     (let c = cur (sy_sys s); r0 = cur_rest s in
      upd_rest new_task (\<lambda>r. r\<lparr>r_argv := r_argv r0, r_envp := r_envp r0, r_thread_stack := stack,
          r_env_lock := MUTEX_INITIALIZER, r_mmaps_lock := MUTEX_INITIALIZER, r_mmaps := mt_mmaps mt,
          r_buffers := mt_buffers mt, r_descriptors := descriptors_info (sy_io s)\<rparr>)
        (upd_sys (upd_task new_task (\<lambda>t. t\<lparr>t_id := tid, t_pid := pid, t_uid := t_uid c, t_gid := t_gid c,
          t_status := TASK_STATE_RUNNING, t_sigmask := t_sigmask c, t_exit_code := 0,
          t_lock := MUTEX_INITIALIZER, t_cwd := t_cwd c, t_procfs_node := node,
          t_main_thread := t_main_thread c, t_parent := t_main_thread c, t_errno := tid,
          t_children := LINKED_LIST_INIT, t_threads := LINKED_LIST_INIT\<rparr>)) s))"

text \<open>Entering the new thread in the list of the main thread.\<close>

definition add_thread :: "addr \<Rightarrow> (system_t, unit) proc" where
  "add_thread new_task =
     bindP (getP (\<lambda>s. t_main_thread (cur (sy_sys s)))) (\<lambda>m.
     bindP (task_wait m) (\<lambda>_.
     bindP (append_task (\<lambda>y. t_threads (tasks y m)) (put_threads m) new_task) (\<lambda>item.
     if item = NULL then trapP Kernel_Panic else task_release m)))"

definition copy_user_stack :: "addr \<Rightarrow> (system_t, unit) proc" where
  "copy_user_stack stack = (\<lambda>es s.
     case arch_copy_user_stack stack (arch_get_user_stack s) (kmem s) of
       None \<Rightarrow> None | Some m \<Rightarrow> Some (Inr ((), s\<lparr>kmem := m\<rparr>, es)))"

definition clone :: "nat \<Rightarrow> procfs_fns \<Rightarrow> addr \<Rightarrow> (system_t \<Rightarrow> system_t) \<Rightarrow> addr \<Rightarrow> (system_t, i32) proc" where
  "clone n fns idle others stack =
     bindP (getP (\<lambda>s. t_pid (cur (sy_sys s)))) (\<lambda>pid.
     bindP take_tid (\<lambda>tid.
     bindP kmalloc (\<lambda>new_task.
     if new_task = NULL then retP ENOMEM
     else
     bindP (on_mmu (kalloc n SCHED_KERNEL_STACK_SIZE NULL (KALLOC_OPTN_ALIGN OR KALLOC_OPTN_KERNEL) NULL))
       (\<lambda>(kernel_stack, _).
     if kernel_stack = NULL then bindP (release new_task) (\<lambda>_. retP ENOMEM)
     else
     bindP kmalloc (\<lambda>node.
     if node = NULL then
       bindP (on_mmu (kfree kernel_stack)) (\<lambda>_. bindP (release new_task) (\<lambda>_. retP ENOMEM))
     else
     bindP (add_procfs_node fns node tid) (\<lambda>_.
     bindP running_mm (\<lambda>mt.
     bindP (updP (init_cloned new_task pid tid node stack mt)) (\<lambda>_.
     bindP (add_thread new_task) (\<lambda>_.
     bindP (copy_user_stack stack) (\<lambda>_.
     bindP (getP arch_get_user_stack) (\<lambda>tmp.
     bindP (updP (arch_set_user_stack (arch_adj_user_stack_pointer stack tmp))) (\<lambda>_.
     bindP (getP (\<lambda>s. (current_directory (sy_mmu s), r_machine (cur_rest s)))) (\<lambda>(d, m).
     bindP (kfork idle others new_task d (m_directory_physical m) (m_memmap m) kernel_stack) (\<lambda>ret.
     bindP (if ret \<noteq> 0 then updP (arch_set_user_stack tmp) else retP ()) (\<lambda>_. retP ret)))))))))))))))"

section \<open>Lemmas\<close>

lemma upd_sys_simps [simp]:
  "sy_sys (upd_sys f s) = f (sy_sys s)" "sy_mmu (upd_sys f s) = sy_mmu s" "sy_io (upd_sys f s) = sy_io s"
  "rests (upd_sys f s) = rests s" "kmem (upd_sys f s) = kmem s"
  by (simp_all add: upd_sys_def)

lemma upd_rest_simps [simp]:
  "sy_sys (upd_rest a g s) = sy_sys s" "sy_mmu (upd_rest a g s) = sy_mmu s" "sy_io (upd_rest a g s) = sy_io s"
  "rests (upd_rest a g s) = (rests s)(a := g (rests s a))" "kmem (upd_rest a g s) = kmem s"
  by (simp_all add: upd_rest_def)

definition with_mallocs :: "addr list \<Rightarrow> system_t \<Rightarrow> system_t" where
  "with_mallocs l s = s\<lparr>sy_mmu := (sy_mmu s)\<lparr>mallocs := l\<rparr>\<rparr>"

lemma with_mallocs_simps [simp]:
  "sy_sys (with_mallocs l s) = sy_sys s" "sy_io (with_mallocs l s) = sy_io s" "rests (with_mallocs l s) = rests s"
  "kmem (with_mallocs l s) = kmem s" "mallocs (sy_mmu (with_mallocs l s)) = l"
  "mm_current (sy_mmu (with_mallocs l s)) = mm_current (sy_mmu s)" "with_mallocs l (with_mallocs k s) = with_mallocs l s"
  by (simp_all add: with_mallocs_def)

lemma with_mallocs_id: "mallocs (sy_mmu s) = l \<Longrightarrow> with_mallocs l s = s"
  by (cases s; cases "sy_mmu s") (simp add: with_mallocs_def)

lemma run_kmalloc: "mallocs (sy_mmu s) = a # l \<Longrightarrow> kmalloc es s = Some (Inr (a, with_mallocs l s, es))"
  by (simp add: kmalloc_def on_mmu_def malloc_struct_def with_mallocs_def)

lemma append_new_other:
  "append_new a item (h, l) = (r, h', l') \<Longrightarrow> b \<noteq> a \<Longrightarrow> b \<noteq> ll_last l \<Longrightarrow> h' b = h b"
  by (auto simp: append_new_def Let_def set_next_item_def split: if_splits)

lemma run_append_task:
  assumes "mallocs (sy_mmu s) = a # l" "append_new a t (items (sy_sys s), get (sy_sys s)) = (r, h', l')"
  shows "append_task get put t es s =
    Some (Inr (r, upd_sys (\<lambda>y. put l' (y\<lparr>items := h'\<rparr>)) (with_mallocs l s), es))"
  using assms(2) by (simp add: append_task_def run_kmalloc [OF assms(1)])

text \<open>The copy of the buffers: as many structures as needed, each with the same pages and mapping.\<close>

fun structs_needed :: "(addr \<times> buffer_t) list \<Rightarrow> nat" where
  "structs_needed [] = 0"
| "structs_needed ((a, b) # bs) = (if b_mmap b = NULL then 1 else 2) + structs_needed bs"

definition copied :: "(addr \<times> mmap_info_t) list \<Rightarrow> (addr \<times> mmap_info_t) list \<Rightarrow> buffer_t \<Rightarrow> buffer_t \<Rightarrow> bool" where
  "copied maps maps' b b' = (b_address b' = b_address b \<and> b_pages b' = b_pages b \<and>
     (b_mmap b' = NULL \<longleftrightarrow> b_mmap b = NULL) \<and>
     (b_mmap b \<noteq> NULL \<longrightarrow> map_of maps' (b_mmap b') = map_of maps (b_mmap b)))"

definition buffers_mapped :: "(addr \<times> mmap_info_t) list \<Rightarrow> (addr \<times> buffer_t) list \<Rightarrow> bool" where
  "buffers_mapped maps bs = (\<forall>(a, b) \<in> set bs. b_mmap b \<noteq> NULL \<longrightarrow> map_of maps (b_mmap b) \<noteq> None)"

lemma copied_more: "nm \<notin> fst ` set maps' \<Longrightarrow> b_mmap b' \<in> insert NULL (fst ` set maps') \<Longrightarrow>
    copied maps maps' b b' \<Longrightarrow> copied maps ((nm, mi) # maps') b b'"
  by (auto simp: copied_def)

lemma copy_buffers_run:
  "mallocs (sy_mmu s) = as @ l \<Longrightarrow> length as = structs_needed bs \<Longrightarrow> NULL \<notin> set as \<Longrightarrow> distinct as \<Longrightarrow>
   buffers_mapped maps bs \<Longrightarrow>
    \<exists>bs' maps'. copy_buffers maps bs es s = Some (Inr ((bs', maps'), with_mallocs l s, es)) \<and>
      list_all2 (copied maps maps') (map snd bs) (map snd bs') \<and> fst ` set maps' \<subseteq> set as \<and>
      (\<forall>b \<in> set (map snd bs'). b_mmap b \<in> insert NULL (fst ` set maps'))"
proof (induction bs arbitrary: s as)
  case Nil
  then show ?case by (simp add: with_mallocs_id)
next
  case (Cons x bs)
  obtain a b where x: "x = (a, b)" by (cases x)
  have bm: "buffers_mapped maps bs" using Cons.prems(5) by (simp add: buffers_mapped_def)
  obtain nb as1 where as: "as = nb # as1" using Cons.prems(2) x by (cases as) (auto split: if_splits)
  have k1: "kmalloc es s = Some (Inr (nb, with_mallocs (as1 @ l) s, es))"
    using Cons.prems(1) as by (simp add: run_kmalloc)
  show ?case
  proof (cases "b_mmap b = NULL")
    case True
    from Cons.IH [of "with_mallocs (as1 @ l) s" as1] Cons.prems as bm x True obtain bs' maps' where
      "copy_buffers maps bs es (with_mallocs (as1 @ l) s) = Some (Inr ((bs', maps'), with_mallocs l s, es))"
      "list_all2 (copied maps maps') (map snd bs) (map snd bs')" "fst ` set maps' \<subseteq> set as1"
      "\<forall>b \<in> set (map snd bs'). b_mmap b \<in> insert NULL (fst ` set maps')" by auto
    moreover have "copied maps maps' b b" using True by (simp add: copied_def)
    ultimately show ?thesis using k1 x True as Cons.prems(3) by auto
  next
    case False
    obtain nm as2 where as1: "as1 = nm # as2" using Cons.prems(2) x as False by (cases as1) auto
    obtain mi where mi: "map_of maps (b_mmap b) = Some mi" using Cons.prems(5) x False by (auto simp: buffers_mapped_def)
    have k2: "kmalloc es (with_mallocs (as1 @ l) s) = Some (Inr (nm, with_mallocs (as2 @ l) s, es))"
      using as1 by (simp add: run_kmalloc)
    from Cons.IH [of "with_mallocs (as2 @ l) s" as2] Cons.prems as as1 bm x False obtain bs' maps' where
      c: "copy_buffers maps bs es (with_mallocs (as2 @ l) s) = Some (Inr ((bs', maps'), with_mallocs l s, es))"
      "list_all2 (copied maps maps') (map snd bs) (map snd bs')" "fst ` set maps' \<subseteq> set as2"
      "\<forall>b \<in> set (map snd bs'). b_mmap b \<in> insert NULL (fst ` set maps')" by auto
    have nm: "nm \<notin> fst ` set maps'" using c(3) Cons.prems(4) as as1 by auto
    have "list_all2 (copied maps ((nm, mi) # maps')) (map snd bs) (map snd bs')"
      using c(2,4) nm by (auto simp: list_all2_conv_all_nth intro!: copied_more)
    moreover have "copied maps ((nm, mi) # maps') b (b\<lparr>b_mmap := nm\<rparr>)"
      using mi False Cons.prems(3) as as1 by (auto simp: copied_def)
    ultimately show ?thesis using k1 k2 c x False mi as as1 Cons.prems(3) by auto
  qed
qed

lemma ll_ok_frame:
  assumes "ll_ok h l xs" "\<And>b. b \<in> set xs \<Longrightarrow> h' b = h b"
  shows "ll_ok h' l xs" "vals h' xs = vals h xs"
  using assms chain_cong [of xs "next_of_item h'" "next_of_item h"]
  by (auto simp: ll_ok_def vals_def next_of_item_def)

lemma ll_ok_nonnull: "ll_ok h l xs \<Longrightarrow> NULL \<notin> set xs"
  by (auto simp: ll_ok_def dest: chain_cells)

text \<open>The first item of an empty list; the store through the null \<open>last\<close> pointer goes to address zero.\<close>

lemma append_first:
  assumes "a \<noteq> NULL"
  shows "\<exists>h' l'. append_new a t (h, LINKED_LIST_INIT) = (a, h', l') \<and> ll_ok h' l' [a] \<and> vals h' [a] = [t] \<and>
    (\<forall>b. b \<noteq> a \<longrightarrow> b \<noteq> NULL \<longrightarrow> h' b = h b)"
proof -
  have ok: "ll_ok h LINKED_LIST_INIT []" by (simp add: ll_ok_def LINKED_LIST_INIT_def)
  obtain h' l' where a: "append_new a t (h, LINKED_LIST_INIT) = (a, h', l')" "ll_ok h' l' [a]" "vals h' [a] = [t]"
    by (rule append_new_ok [OF ok _ assms, of t]) (auto simp: vals_def)
  with append_new_other [OF a(1)] show ?thesis by (auto simp: LINKED_LIST_INIT_def)
qed

text \<open>What the new task has of the running one.\<close>

definition inherits :: "task_t \<Rightarrow> task_t \<Rightarrow> bool" where
  "inherits c t = (t_uid t = t_uid c \<and> t_gid t = t_gid c \<and> t_euid t = t_euid c \<and> t_egid t = t_egid c \<and>
     t_sigmask t = t_sigmask c \<and> t_cwd t = t_cwd c)"

text \<open>Entering the global task list keeps the state the scheduler expects.\<close>

lemma append_new_current:
  "append_new a item (h, l) = (r, h', l') \<Longrightarrow> ll_first l \<noteq> NULL \<Longrightarrow> ll_current l \<noteq> NULL \<Longrightarrow>
    ll_current l' = ll_current l"
  by (auto simp: append_new_def Let_def split: if_splits)

lemma sched_ok_append:
  assumes ok: "sched_ok idle y xs" and run: "current_task y \<noteq> idle" and len: "Suc (length xs) < 2 ^ 32"
    and t: "t \<noteq> NULL" "t \<noteq> idle" "t \<notin> set (vals (items y) xs)" and a: "a \<noteq> NULL" "a \<notin> set xs"
  shows "\<exists>h' l'. append_new a t (items y, tasks_list y) = (a, h', l') \<and>
    sched_ok idle (y\<lparr>items := h', tasks_list := l'\<rparr>) (xs @ [a]) \<and> vals h' (xs @ [a]) = vals (items y) xs @ [t]"
proof -
  let ?l = "tasks_list y"
  have ll: "ll_ok (items y) ?l xs" using ok by (simp add: sched_ok_def task_list_ok_def)
  have c: "ll_current ?l \<in> set xs" "item_val (items y (ll_current ?l)) = current_task y" using ok run by (auto simp: sched_ok_def)
  then have cn: "ll_current ?l \<noteq> NULL" using ll_ok_nonnull [OF ll] by auto
  obtain h' l' where n: "append_new a t (items y, ?l) = (a, h', l')" "ll_ok h' l' (xs @ [a])"
    "vals h' (xs @ [a]) = vals (items y) xs @ [t]" "\<And>b. b \<noteq> a \<Longrightarrow> item_val (h' b) = item_val (items y b)"
    by (rule append_new_ok [OF ll disjI2 [OF cn] a, of t]) blast
  have "ll_first ?l \<noteq> NULL" using ll c(1) by (cases xs) (auto simp: ll_ok_def)
  then have "ll_current l' = ll_current ?l" using append_new_current [OF n(1)] cn by simp
  moreover have "ll_current ?l \<noteq> a" using c(1) a(2) by auto
  ultimately have "sched_ok idle (y\<lparr>items := h', tasks_list := l'\<rparr>) (xs @ [a])"
    using ok n(2-4) t c len by (auto simp: sched_ok_def task_list_ok_def)
  with n show ?thesis by blast
qed

lemma find_runnable_child:
  assumes "ll_current (tasks_list y) \<in> set xs" "a \<notin> set xs" "current_task y \<noteq> idle" "runnable (item_task y a)"
  shows "\<exists>c \<in> set (xs @ [a]). next_task idle y (xs @ [a]) = item_val (items y c)"
proof -
  let ?c = "ll_current (tasks_list y)"
  obtain us vs where xs: "xs = us @ ?c # vs" "?c \<notin> set us" using split_list_first [OF assms(1)] by blast
  have t: "turn_order idle y (xs @ [a]) = vs @ [a] @ us @ [?c]"
    using xs assms(3) by (simp add: turn_order_def Let_def dropWhile_append takeWhile_append)
  have "find (\<lambda>c. runnable (item_task y c)) (vs @ [a] @ us @ [?c]) \<noteq> None"
    using assms(4) by (auto simp: find_None_iff)
  then obtain c where c: "find (\<lambda>c. runnable (item_task y c)) (vs @ [a] @ us @ [?c]) = Some c" by blast
  then have "c \<in> set (vs @ [a] @ us @ [?c])" using find_Some_in by fast
  moreover have "set xs = set us \<union> {?c} \<union> set vs" using arg_cong [OF xs(1), of set] by auto
  ultimately have "c \<in> set (xs @ [a])" by auto
  with c t show ?thesis by (auto simp: next_task_def)
qed

section \<open>Properties\<close>

text \<open>C16. Once its resources are allocated, \<open>fork\<close> enters the new task: it has the new identifiers, the
  credentials, signal mask and working directory of its parent and a copy of every buffer with its
  mapping; it is appended to the parent's list of children and alone in its own list of threads;
  the parent changes in nothing but its list of children, and no other task changes.\<close>

theorem fork_task_effect:
  assumes "c = current s" "t \<noteq> c" "ms (t_lock (tasks (sy_sys s) c)) = 0" "mm_current (sy_mmu s) = Some mt"
    "mallocs (sy_mmu s) = a1 # as @ a2 # l" "length as = structs_needed (mt_buffers mt)" "NULL \<notin> set as" "distinct as"
    "buffers_mapped (mt_mmaps mt) (mt_buffers mt)"
    "ll_ok (items (sy_sys s)) (t_children (tasks (sy_sys s) c)) xs"
    "xs = [] \<or> ll_current (t_children (tasks (sy_sys s) c)) \<noteq> NULL"
    "a1 \<noteq> NULL" "a2 \<noteq> NULL" "a1 \<noteq> a2" "a1 \<notin> set xs" "a2 \<notin> set xs"
  shows "\<exists>s' l'. fork_task t pid tid node d es s = Some (Inr ((), s', es)) \<and>
    t_id (tasks (sy_sys s') t) = tid \<and> t_pid (tasks (sy_sys s') t) = pid \<and> t_parent (tasks (sy_sys s') t) = c \<and>
    t_errno (tasks (sy_sys s') t) = pid \<and> t_status (tasks (sy_sys s') t) = TASK_STATE_RUNNING \<and>
    inherits (tasks (sy_sys s) c) (tasks (sy_sys s') t) \<and>
    list_all2 (copied (mt_mmaps mt) (r_mmaps (rests s' t))) (map snd (mt_buffers mt)) (map snd (r_buffers (rests s' t))) \<and>
    ll_ok (items (sy_sys s')) (t_threads (tasks (sy_sys s') t)) [a1] \<and> vals (items (sy_sys s')) [a1] = [t] \<and>
    ll_ok (items (sy_sys s')) l' (xs @ [a2]) \<and> vals (items (sy_sys s')) (xs @ [a2]) = vals (items (sy_sys s)) xs @ [t] \<and>
    tasks (sy_sys s') c = (tasks (sy_sys s) c)\<lparr>t_children := l'\<rparr> \<and>
    (\<forall>b. b \<noteq> t \<longrightarrow> b \<noteq> c \<longrightarrow> tasks (sy_sys s') b = tasks (sy_sys s) b)"
proof -
  let ?y = "sy_sys s" and ?c = "tasks (sy_sys s) c"
  define s1 where "s1 = init_forked t pid tid node d s"
  have y1: "tasks (sy_sys s1) t = (tasks ?y t)\<lparr>t_id := tid, t_pid := pid, t_main_thread := t,
          t_uid := t_uid ?c, t_gid := t_gid ?c, t_euid := t_euid ?c, t_egid := t_egid ?c,
          t_status := TASK_STATE_RUNNING, t_sigmask := t_sigmask ?c, t_exit_code := 0,
          t_lock := MUTEX_INITIALIZER, t_cwd := t_cwd ?c, t_procfs_node := node, t_parent := c,
          t_errno := pid, t_children := LINKED_LIST_INIT, t_threads := LINKED_LIST_INIT\<rparr>"
    "\<And>b. b \<noteq> t \<Longrightarrow> tasks (sy_sys s1) b = tasks ?y b" "items (sy_sys s1) = items ?y" "sy_mmu s1 = sy_mmu s"
    "current s1 = c"
    using assms(1) by (simp_all add: s1_def init_forked_def Let_def)
  obtain h1 l1 where h1: "append_new a1 t (items ?y, LINKED_LIST_INIT) = (a1, h1, l1)" "ll_ok h1 l1 [a1]"
    "vals h1 [a1] = [t]" "\<And>b. b \<noteq> a1 \<Longrightarrow> b \<noteq> NULL \<Longrightarrow> h1 b = items ?y b"
    using append_first [OF assms(12)] by blast
  define s2 where "s2 = upd_sys (\<lambda>y. put_threads t l1 (y\<lparr>items := h1\<rparr>)) (with_mallocs (as @ a2 # l) s1)"
  have r1: "append_task (\<lambda>y. t_threads (tasks y t)) (put_threads t) t es s1 = Some (Inr (a1, s2, es))"
    unfolding s2_def by (rule run_append_task) (use assms(5) y1 h1(1) in simp_all)
  have y2: "tasks (sy_sys s2) = (tasks (sy_sys s1))(t := (tasks (sy_sys s1) t)\<lparr>t_threads := l1\<rparr>)" "items (sy_sys s2) = h1"
    "current s2 = c" "mm_current (sy_mmu s2) = Some mt" "mallocs (sy_mmu s2) = as @ a2 # l"
    using y1(4,5) assms(4) by (simp_all add: s2_def put_threads_def)
  from copy_buffers_run [OF y2(5) assms(6-9), of es] obtain bs' maps' where
    cb: "copy_buffers (mt_mmaps mt) (mt_buffers mt) es s2 = Some (Inr ((bs', maps'), with_mallocs (a2 # l) s2, es))"
    "list_all2 (copied (mt_mmaps mt) maps') (map snd (mt_buffers mt)) (map snd bs')" by blast
  define s3 where "s3 = upd_rest t (\<lambda>r. r\<lparr>r_buffers := bs', r_mmaps := maps'\<rparr>) (with_mallocs (a2 # l) s2)"
  define s4 where "s4 = upd_sys (upd_task c (\<lambda>x. x\<lparr>t_lock := (t_lock ?c)\<lparr>ms := 1\<rparr>\<rparr>)) s3"
  have c3: "tasks (sy_sys s3) c = ?c" using y2(1) y1(2) assms(2) by (simp add: s3_def)
  have r4: "task_wait c es s3 = Some (Inr ((), s4, es))"
    unfolding s4_def task_wait_def using c3 assms(3) by (subst run_waitP) simp_all
  have "h1 b = items ?y b" if "b \<in> set xs" for b
    using h1(4) [of b] that assms(15) ll_ok_nonnull [OF assms(10)] by auto
  note sub = ll_ok_frame [OF assms(10) this]
  obtain h2 l2 where h2: "append_new a2 t (h1, t_children ?c) = (a2, h2, l2)" "ll_ok h2 l2 (xs @ [a2])"
    "vals h2 (xs @ [a2]) = vals h1 xs @ [t]"
    by (rule append_new_ok [OF sub(1) assms(11,13,16), of t]) blast
  have c4: "tasks (sy_sys s4) c = ?c\<lparr>t_lock := (t_lock ?c)\<lparr>ms := 1\<rparr>\<rparr>" "items (sy_sys s4) = h1"
    "mallocs (sy_mmu s4) = a2 # l" using c3 y2(2) by (simp_all add: s4_def s3_def)
  define s5 where "s5 = upd_sys (\<lambda>y. put_children c l2 (y\<lparr>items := h2\<rparr>)) (with_mallocs l s4)"
  have r5: "append_task (\<lambda>y. t_children (tasks y c)) (put_children c) t es s4 = Some (Inr (a2, s5, es))"
    unfolding s5_def by (rule run_append_task) (use c4 h2(1) in simp_all)
  have c5: "tasks (sy_sys s5) c = ?c\<lparr>t_lock := (t_lock ?c)\<lparr>ms := 1\<rparr>, t_children := l2\<rparr>" using c4(1) by (simp add: s5_def put_children_def)
  define s6 where "s6 = upd_sys (upd_task c (\<lambda>x. x\<lparr>t_lock := (t_lock ?c)\<lparr>ms := 0\<rparr>\<rparr>)) s5"
  have r6: "task_release c es s5 = Some (Inr ((), s6, es))"
    unfolding s6_def task_release_def using c5 by (subst run_releaseP) simp_all
  have run: "fork_task t pid tid node d es s = Some (Inr ((), s6, es))"
    using r1 r4 r5 r6 cb(1) y2(3,4) assms(13)
    by (simp add: fork_task_def running_mm_def s1_def [symmetric] s3_def [symmetric])
      (simp add: s3_def)
  have same: "(t_lock ?c)\<lparr>ms := 0\<rparr> = t_lock ?c" using assms(3) by (cases "t_lock ?c") simp
  have far: "ll_last (t_children ?c) \<noteq> a1"
    using assms(10,12,15) by (auto simp: ll_ok_def split: if_splits)
  have "h2 a1 = h1 a1" using append_new_other [OF h2(1)] assms(14) far by auto
  then have th: "ll_ok h2 l1 [a1]" "vals h2 [a1] = [t]" using ll_ok_frame [OF h1(2), of h2] h1(3) by auto
  have t6: "tasks (sy_sys s6) t = (tasks (sy_sys s1) t)\<lparr>t_threads := l1\<rparr>" "items (sy_sys s6) = h2"
    "rests s6 t = (rests s2 t)\<lparr>r_buffers := bs', r_mmaps := maps'\<rparr>"
    using y2(1) assms(2) by (simp_all add: s6_def s5_def s4_def s3_def put_children_def)
  have c6: "tasks (sy_sys s6) c = ?c\<lparr>t_children := l2\<rparr>"
    using c5 same by (cases ?c) (simp add: s6_def)
  have o6: "tasks (sy_sys s6) b = tasks ?y b" if "b \<noteq> t" "b \<noteq> c" for b
    using that y2(1) y1(2) by (simp add: s6_def s5_def s4_def s3_def put_children_def)
  show ?thesis using run t6 y1(1) th h2(2,3) sub(2) c6 o6 cb(2)
    by (intro exI [of _ s6] exI [of _ l2]) (simp add: inherits_def)
qed

text \<open>C17. \<open>fork\<close> returns twice.  In the parent, the new task is entered in the task list, another task is
  loaded, and when the parent runs again the scheduler's lock is released and the result is what
  the \<open>errno\<close> field of the new task holds by then, which \<open>fork\<close> had set to the new pid.  In the child,
  the lock taken by its parent is released and the result is zero.\<close>

theorem fork_returns_twice:
  assumes "sched_ok idle (sy_sys s) xs" "Suc (length xs) < 2 ^ 32" "current s \<noteq> idle" "current s \<noteq> t"
    "ms (schedule_lock (sy_sys s)) = 0" "mallocs (sy_mmu s) = a # l" "a \<noteq> NULL" "a \<notin> set xs"
    "t \<noteq> NULL" "t \<noteq> idle" "t \<notin> set (vals (items (sy_sys s)) xs)" "t_status (tasks (sy_sys s) t) = TASK_STATE_RUNNING"
    "\<forall>b \<in> insert t (set (vals (items (sy_sys s)) xs)). has_kernel_stack s b"
    "\<forall>s1. ms (schedule_lock (sy_sys (others s1))) = 1"
    "current s2 = t" "ms (schedule_lock (sy_sys s2)) = 1"
  shows "(\<exists>s1 s'. t_errno (tasks (sy_sys s1) t) = t_errno (tasks (sy_sys s) t) \<and>
      kfork_return idle others t es s = Some (Inr (t_errno (tasks (sy_sys (others s1)) t), s', es)) \<and>
      ms (schedule_lock (sy_sys s')) = 0) \<and>
    (\<exists>s'. kfork_return idle others t es s2 = Some (Inr (0, s', es)) \<and> ms (schedule_lock (sy_sys s')) = 0)"
proof -
  let ?y = "sy_sys s" and ?l1 = "(schedule_lock (sy_sys s))\<lparr>ms := 1\<rparr>"
  have wait: "schedule_wait es s = Some (Inr ((), upd_sys (put_schedule_lock ?l1) s, es))"
    unfolding schedule_wait_def using assms(5) by (subst run_waitP) simp_all
  from sched_ok_append [OF assms(1,3,2,9,10,11,7,8)] obtain h' l' where
    n: "append_new a t (items ?y, tasks_list ?y) = (a, h', l')"
    "sched_ok idle (?y\<lparr>items := h', tasks_list := l'\<rparr>) (xs @ [a])" "vals h' (xs @ [a]) = vals (items ?y) xs @ [t]" by blast
  let ?y1 = "?y\<lparr>schedule_lock := ?l1, items := h', tasks_list := l'\<rparr>"
  let ?n = "next_task idle ?y1 (xs @ [a])"
  define s1 where "s1 = upd_sys (\<lambda>y. y\<lparr>items := h', tasks_list := l'\<rparr>) (with_mallocs l (upd_sys (put_schedule_lock ?l1) s))"
  have y1: "sy_sys s1 = ?y1" "rests s1 = rests s" by (simp_all add: s1_def)
  have app: "append_task tasks_list (\<lambda>l y. y\<lparr>tasks_list := l\<rparr>) t es (upd_sys (put_schedule_lock ?l1) s) = Some (Inr (a, s1, es))"
    unfolding s1_def by (subst run_append_task [of _ a l _ _ a h' l']) (use assms(6) n(1) in simp_all)
  have ok: "sched_ok idle ?y1 (xs @ [a])" using n(2) by (simp add: sched_ok_def task_list_ok_def)
  have cur: "ll_current (tasks_list ?y1) \<in> set xs"
  proof -
    have c: "ll_current (tasks_list ?y) \<in> set xs" "ll_ok (items ?y) (tasks_list ?y) xs"
      using assms(1,3) by (auto simp: sched_ok_def task_list_ok_def)
    then have "ll_current (tasks_list ?y) \<noteq> NULL" "ll_first (tasks_list ?y) \<noteq> NULL"
      using ll_ok_nonnull [OF c(2)] by (auto simp: ll_ok_def)
    then show ?thesis using append_new_current [OF n(1)] c(1) by simp
  qed
  have v: "item_val (h' a) = t" "map (\<lambda>x. item_val (h' x)) xs = vals (items ?y) xs" using n(3) by (simp_all add: vals_def)
  have "runnable (item_task ?y1 a)" using v(1) assms(12) by (simp add: runnable_def)
  from find_runnable_child [OF cur assms(8), of idle, OF _ this] assms(3) obtain c where
    c: "c \<in> set (xs @ [a])" "next_task idle ?y1 (xs @ [a]) = item_val (h' c)" by auto
  have "item_val (h' c) \<in> insert t (set (vals (items ?y) xs))"
    using c(1) v by (auto simp flip: v(2))
  then have "has_kernel_stack s1 (next_task idle ?y1 (xs @ [a]))"
    using assms(13) c(2) y1(2) by (auto simp: has_kernel_stack_def)
  from schedule_prelocked_run [where has_stack = "has_kernel_stack s1" and b = t, OF ok _ refl this] obtain y2 where
    y2: "schedule_prelocked idle False (has_kernel_stack s1) ?y1 =
      Some (Inr (if pend (tasks ?y1 ?n) 0 = 0 then Load ?n else Load_And_Signal ?n (pend (tasks ?y1 ?n) 0), y2))"
    "t_errno (tasks y2 t) = t_errno (tasks ?y1 t)" by auto
  let ?s2 = "s1\<lparr>sy_sys := y2\<rparr>" and ?l2 = "schedule_lock (sy_sys (others (s1\<lparr>sy_sys := y2\<rparr>)))"
  have "schedule_prelocked idle True (has_kernel_stack (others ?s2)) (sy_sys (others ?s2)) =
      Some (Inr (Stay, put_schedule_lock (?l2\<lparr>ms := 0\<rparr>) (sy_sys (others ?s2))))"
    using assms(14) by (simp add: schedule_prelocked_def mutex_release_held)
  then have "yield_prelocked idle others es s1 =
      Some (Inr ((), (others ?s2)\<lparr>sy_sys := put_schedule_lock (?l2\<lparr>ms := 0\<rparr>) (sy_sys (others ?s2))\<rparr>, es))"
    using y2(1) y1(1) by (simp add: yield_prelocked_def Let_def)
  then have "kfork_return idle others t es s = Some (Inr (t_errno (tasks (sy_sys (others ?s2)) t),
      (others ?s2)\<lparr>sy_sys := put_schedule_lock (?l2\<lparr>ms := 0\<rparr>) (sy_sys (others ?s2))\<rparr>, es))"
    using assms(4) wait app by (simp add: kfork_return_def)
  then have parent: "\<exists>s1 s'. t_errno (tasks (sy_sys s1) t) = t_errno (tasks ?y t) \<and>
      kfork_return idle others t es s = Some (Inr (t_errno (tasks (sy_sys (others s1)) t), s', es)) \<and>
      ms (schedule_lock (sy_sys s')) = 0"
    using y2(2) by - (rule exI [of _ ?s2], simp)
  have "schedule_release es s2 = Some (Inr ((), upd_sys (put_schedule_lock ((schedule_lock (sy_sys s2))\<lparr>ms := 0\<rparr>)) s2, es))"
    unfolding schedule_release_def using assms(16) by (subst run_releaseP) simp_all
  then have "\<exists>s'. kfork_return idle others t es s2 = Some (Inr (0, s', es)) \<and> ms (schedule_lock (sy_sys s')) = 0"
    using assms(15) by (simp add: kfork_return_def)
  with parent show ?thesis by blast
qed

text \<open>A task with one mapped buffer, alone in the task list, forks.\<close>

definition sample_mapping :: mmap_info_t where
  "sample_mapping = \<lparr>mi_addr = 0x8000000, mi_len = 0x2000, mi_flags = 1, mi_prot = 7, mi_offset = 0, mi_fd = 3\<rparr>"

definition sample_mm_task :: mm_task where
  "sample_mm_task = \<lparr>mt_errno = 0,
     mt_buffers = [(0x300, \<lparr>b_address = 0x8000000, b_pages = 2, b_mmap = 0x310\<rparr>)],
     mt_mmaps = [(0x310, sample_mapping)], mt_mmaps_lock = MUTEX_INITIALIZER, mt_memmap = Default_Memmap\<rparr>"

definition sample_rest :: task_rest where
  "sample_rest = \<lparr>r_machine = \<lparr>m_directory = None, m_directory_physical = 0, m_memmap = Default_Memmap,
       m_kernel_stack = 0xE0100000, m_saved = \<lparr>sv_esp = 0, sv_ebp = 0, sv_registers = 0\<rparr>\<rparr>,
     r_buffers = [], r_mmaps = [], r_mmaps_lock = MUTEX_INITIALIZER, r_env_lock = MUTEX_INITIALIZER,
     r_descriptors = 0x40, r_thread_stack = 0, r_argv = NULL, r_envp = NULL\<rparr>"

definition sample_system :: system_t where
  "sample_system = \<lparr>sy_sys = sample_sys,
     sy_mmu = sample_mmu\<lparr>mm_current := Some sample_mm_task, mallocs := [0x500, 0x510, 0x520, 0x530]\<rparr>,
     sy_io = sample_io, rests = (\<lambda>_. sample_rest), kmem = (\<lambda>_. 0), cpu_esp = 0, cpu_ebp = 0,
     next_pid = 2, next_tid = 2, pid_lock = LIGHT_MUTEX_INITIALIZER, procfs = 0x100, itoa_buf = replicate 12 NUL\<rparr>"

lemma sample_system_fields:
  "sy_sys sample_system = sample_sys" "mm_current (sy_mmu sample_system) = Some sample_mm_task"
  "mallocs (sy_mmu sample_system) = [0x500, 0x510, 0x520, 0x530]" "current_task sample_sys = 4096"
  "tasks sample_sys b = sample_task" "rests sample_system b = sample_rest"
  by (simp_all add: sample_system_def sample_sys_def)

theorem fork_task_effect_witness:
  "\<exists>s'. fork_task 0x2000 2 2 0x600 0x700 [] sample_system = Some (Inr ((), s', [])) \<and>
    t_pid (tasks (sy_sys s') 0x2000) = 2 \<and> t_parent (tasks (sy_sys s') 0x2000) = 4096 \<and>
    vals (items (sy_sys s')) [0x530] = [0x2000]"
proof -
  have ll: "ll_ok (items (sy_sys sample_system)) (t_children (tasks (sy_sys sample_system) 4096)) []"
    by (simp add: sample_system_fields sample_task_def ll_ok_def LINKED_LIST_INIT_def)
  have "\<exists>s' l'. fork_task 0x2000 2 2 0x600 0x700 [] sample_system = Some (Inr ((), s', [])) \<and>
    t_id (tasks (sy_sys s') 0x2000) = 2 \<and> t_pid (tasks (sy_sys s') 0x2000) = 2 \<and>
    t_parent (tasks (sy_sys s') 0x2000) = 4096 \<and>
    t_errno (tasks (sy_sys s') 0x2000) = 2 \<and> t_status (tasks (sy_sys s') 0x2000) = TASK_STATE_RUNNING \<and>
    inherits (tasks (sy_sys sample_system) 4096) (tasks (sy_sys s') 0x2000) \<and>
    list_all2 (copied (mt_mmaps sample_mm_task) (r_mmaps (rests s' 0x2000))) (map snd (mt_buffers sample_mm_task))
      (map snd (r_buffers (rests s' 0x2000))) \<and>
    ll_ok (items (sy_sys s')) (t_threads (tasks (sy_sys s') 0x2000)) [0x500] \<and> vals (items (sy_sys s')) [0x500] = [0x2000] \<and>
    ll_ok (items (sy_sys s')) l' ([] @ [0x530]) \<and>
    vals (items (sy_sys s')) ([] @ [0x530]) = vals (items (sy_sys sample_system)) [] @ [0x2000] \<and>
    tasks (sy_sys s') 4096 = (tasks (sy_sys sample_system) 4096)\<lparr>t_children := l'\<rparr> \<and>
    (\<forall>b. b \<noteq> 0x2000 \<longrightarrow> b \<noteq> 4096 \<longrightarrow> tasks (sy_sys s') b = tasks (sy_sys sample_system) b)"
    by (rule fork_task_effect [where as = "[0x510, 0x520]" and l = "[]", OF _ _ _ sample_system_fields(2) _ _ _ _ _ ll])
      (simp_all add: sample_system_fields sample_task_def sample_mm_task_def MUTEX_INITIALIZER_def buffers_mapped_def)
  then show ?thesis by (auto simp: vals_def)
qed

text \<open>The rest of the system hands the processor back with the lock held, and the child has failed in a
  call of its own in between.\<close>

definition child_fails :: "system_t \<Rightarrow> system_t" where
  "child_fails s = upd_sys (\<lambda>y. upd_task 0x2000 (\<lambda>t. t\<lparr>t_errno := ENOENT\<rparr>)
     (y\<lparr>schedule_lock := MUTEX_INITIALIZER\<lparr>ms := 1\<rparr>\<rparr>)) s"

theorem fork_returns_twice_witness:
  "(\<exists>s'. kfork_return 512 child_fails 0x2000 [] sample_system = Some (Inr (ENOENT, s', []))) \<and>
   (\<exists>s'. kfork_return 512 child_fails 0x2000 []
     (upd_sys (\<lambda>y. y\<lparr>current_task := 0x2000, schedule_lock := MUTEX_INITIALIZER\<lparr>ms := 1\<rparr>\<rparr>) sample_system) =
       Some (Inr (0, s', [])))"
proof -
  let ?s2 = "upd_sys (\<lambda>y. y\<lparr>current_task := 0x2000, schedule_lock := MUTEX_INITIALIZER\<lparr>ms := 1\<rparr>\<rparr>) sample_system"
  have ok: "sched_ok 512 (sy_sys sample_system) [8]"
    using sample_sys_ok
    by (simp add: sample_system_fields sched_ok_def vals_def sample_sys_def sample_task_def TASK_STATE_RUNNING_def)
  have "(\<exists>s1 s'. t_errno (tasks (sy_sys s1) 0x2000) = t_errno (tasks (sy_sys sample_system) 0x2000) \<and>
      kfork_return 512 child_fails 0x2000 [] sample_system = Some (Inr (t_errno (tasks (sy_sys (child_fails s1)) 0x2000), s', [])) \<and>
      ms (schedule_lock (sy_sys s')) = 0) \<and>
    (\<exists>s'. kfork_return 512 child_fails 0x2000 [] ?s2 = Some (Inr (0, s', [])) \<and> ms (schedule_lock (sy_sys s')) = 0)"
    by (rule fork_returns_twice [OF ok, where a = "0x500" and l = "[0x510, 0x520, 0x530]"])
      (simp_all add: sample_system_fields sample_sys_def sample_task_def vals_def TASK_STATE_RUNNING_def
        MUTEX_INITIALIZER_def child_fails_def has_kernel_stack_def sample_rest_def)
  then show ?thesis by (auto simp: child_fails_def)
qed

end
