(* ===== verification/Spec2Isabelle.thy ===== *)
theory Spec2Isabelle
  imports Cow Heap_Calls Scheduler Env Io Initrd_Mount Printk Kbd Fork
begin

text \<open>
  Hydrax is a small kernel for the x86.  This development translates its parts into functions of
  HOL and proves what each of them promises.  Paths are relative to \<open>src/\<close>.

  \<^bold>\<open>Conventions.\<close>  Machine integers and addresses are words.  A computation that can fail returns an
  \<open>outcome\<close>, whose left side is the trap: a failed \<open>assert\<close>, a panic, an access through a null pointer or
  outside an object.  A computation that can also block or loop returns a \<open>run\<close>, where \<open>None\<close> means
  that it has not returned; loops without a bound are partial functions in \<open>option\<close>.  A procedure
  (\<open>proc\<close>) works on a state shared with the rest of the system and is given, as a list of state
  changes, what the others do each time it waits.  Objects in memory are functions from addresses
  to records; linked structures are related to lists by \<open>chain\<close> of theory \<open>Chains\<close>.  Results of \<open>malloc\<close>
  are arguments or part of the state, and what a theorem needs of them is among its assumptions;
  theories \<open>Bget\<close> to \<open>Heap_Calls\<close> verify the allocator the kernel has.  Calls of \<open>printk\<close> that only report
  are left out.

  \<^bold>\<open>Basis.\<close>
  \<^item> \<open>Hydrax_Prelude\<close>: words, outcomes, runs, procedures, error numbers (\<open>kernel/include/errno.h\<close>).
  \<^item> \<open>Chains\<close>: the locale \<open>linked_cells\<close> of singly linked cells, interpreted for the task,
    waiter, node and file lists.
  \<^item> \<open>Bounded_Queue\<close>: the locale of bounded first-in first-out queues, interpreted for pipes and the
    keyboard buffer and proved for the levels of each signal; \<open>Ring\<close>: the arithmetic of rings.
  \<^item> \<open>CString\<close>: \<open>kernel/string.c\<close>; numerals are those of the number they print.
  \<^item> \<open>LinkedList\<close>: the macros of \<open>kernel/include/linkedlist.h\<close> and the sequences they maintain.

  \<^bold>\<open>Synchronisation and tasks.\<close>
  \<^item> \<open>Mutex\<close> (\<open>kernel/mutex.c\<close>, \<open>include/mutex.h\<close>): mutual exclusion in every interleaving, the waiter queue,
    a sleeping task that gets the mutex after the waiters ahead of it, and the interleaving that
    loses a wake-up.
  \<^item> \<open>Semaphore\<close> (\<open>kernel/semaphore.c\<close>): accounting, blocking, exclusive access.  The sleeping operations run on
    the state of the component that has the semaphore; what they do to it is proved in the locale
    \<open>semaphore_place\<close>, interpreted for the pipe and the keyboard.
  \<^item> \<open>Task\<close>, \<open>Signal\<close> (\<open>kernel/signal.c\<close>): the four levels of a pending signal are a queue, \<open>sigqueue\<close>, and
    termination of the delivery loop.
  \<^item> \<open>Scheduler\<close> (\<open>kernel/scheduler.c\<close>): round robin selection, \<open>exit\<close>, \<open>wait\<close>, credentials.
  \<^item> \<open>Stack_Move\<close>, \<open>Fork\<close> (\<open>kernel/fork.c\<close>, \<open>kernel/arch/x86/scheduler.c\<close>): \<open>fork\<close> and \<open>clone\<close> composed from all the
    parts they call; what the new task inherits, the two returns, the relocated kernel stack.
  \<^item> \<open>Env\<close> (\<open>kernel/env.c\<close>): the environment table.

  \<^bold>\<open>Memory.\<close>
  \<^item> \<open>Memmap\<close> (\<open>kernel/memmap.c\<close>): the page bitmap; the search equals a reference first fit.
  \<^item> \<open>Mmu\<close>, \<open>Frames\<close>, \<open>Mmu_Space\<close>, \<open>Cow\<close> (\<open>kernel/mmu.c\<close>, \<open>kernel/mman.c\<close>): frames and their reference
    counters, page tables, cloning of address spaces, page faults with copy on write.
  \<^item> \<open>Bget\<close>, \<open>Heap\<close>, \<open>Heap_Calls\<close> (\<open>kernel/bget/bget.c\<close>, \<open>kernel/kheap.c\<close>): the heap stays well formed under all
    sequences of calls, \<open>malloc\<close> is best fit, \<open>free\<close> undoes it.

  \<^bold>\<open>Files and devices.\<close>
  \<^item> \<open>Vfs_Path\<close>, \<open>Vfs\<close> (\<open>kernel/vfs.c\<close>): path resolution against the tree of nodes, attaching and removing nodes.
    Driver functions are arguments.
  \<^item> \<open>Pipe\<close>, \<open>Io\<close> (\<open>kernel/io.c\<close>): pipes as queues, descriptor tables and every file call.
  \<^item> \<open>Mkinitrd\<close>, \<open>Initrd\<close>, \<open>Initrd_Image\<close>, \<open>Initrd_Mount\<close> (\<open>tools/src/mkinitrd/mkinitrd.c\<close>, \<open>kernel/initrd.c\<close>): the
    image the tool writes and its mounting; the theorem below joins the two.
  \<^item> \<open>Video\<close>, \<open>Printk\<close>, \<open>Kbd\<close> (\<open>kernel/arch/x86/video.c\<close>, \<open>kernel/printk.c\<close>, \<open>kernel/console.c\<close>,
    \<open>kernel/arch/x86/kbd.c\<close>): the display is a terminal, messages are rendered on it, reads sleep and deliver
    what was typed, and the key that does not wake the reader.

  \<^bold>\<open>Bounds and fuel.\<close>  The nesting of \<open>kalloc\<close>, which allocates page tables for itself, is bounded by an
  argument; at zero it has not returned.  The loop of \<open>mutex_waitsleep\<close> has as many rounds as there are
  actions of the others, and one more, which \<open>waitsleep_loop_enough\<close> shows to be enough.
  All other recursion is structural, has a termination proof, or is a partial function; the
  properties about a partial function say that it returns, or that it does not.

  \<^bold>\<open>Not modelled.\<close>  Assembly, port access and processor tables (\<open>isr.c\<close>, \<open>arch/x86/cpu.c\<close>, \<open>arch.c\<close>, \<open>boot.s\<close>,
  \<open>isr.s\<close>, \<open>rtc.c\<close>, \<open>cmos.c\<close>, \<open>timer.c\<close>), because their effect is outside the language; \<open>mmu_init\<close> and
  \<open>scheduler_init\<close>, which depend on linker symbols and the boot stack; \<open>execve\<close> and the ELF loader, which
  need the contents of user memory; the system call table, which calls functions of all types through
  one pointer; \<open>pthread_create\<close>, which builds a frame on the user stack; the process and device file systems
  (\<open>procfs.c\<close>, \<open>devfs.c\<close>, \<open>null.c\<close>, \<open>zero.c\<close>, \<open>tty.c\<close>), host names and symbols (\<open>system.c\<close>, \<open>symbols.c\<close>), which
  only copy data; the user library, programs and the other tools (\<open>libs\<close>, \<open>utils\<close>, \<open>tools\<close>), which are not
  part of the kernel.
\<close>

section \<open>Properties across components\<close>

text \<open>C1. The initial ram disk from end to end.  Given files under paths of plain names, none of which
  leads through another, and at most five nodes for each file, \<open>mkinitrd\<close> returns an image.  Put
  anywhere in memory and mounted by the kernel, the image shows every file: opening its absolute
  path returns its node, and reading there returns the bytes of the file, cut off at its end.\<close>

theorem initrd_files_readable:
  assumes "\<forall>e \<in> set es. entry_ok host e" "entries_apart es" "block_ok block (length es * 5)"
    and "1 + sum_list (map (\<lambda>e. length (entry_names e)) es) \<le> length es * 5"
    and "length nm = MAX_PATH + 1"
  shows "\<exists>img. mkinitrd_main host block h (entry_argv es) = Some (Inr (Some img)) \<and>
    length (im_nodes img) \<le> length es * 5 \<and> im_data img = concat (map entry_content es) \<and>
    (\<forall>offset headers mem s new. loaded img offset headers mem s \<and> fresh_node img offset new s \<longrightarrow>
      (\<exists>s'. mount_initrd new rd headers offset s = Inr s' \<and>
        (\<forall>e \<in> set es. shows_file dops nm acts rd mem s' (path_of (entry_names e)) (entry_content e))))"
proof -
  obtain m loc kids where m: "mkinitrd_main host block h (entry_argv es) =
      Some (Inr (Some (write_image host (entry_args es) (p_node m) m)))"
      "mk_ok m loc kids (layout 0 es Map.empty)" "mk_room m = length es * 5"
    by (rule mkinitrd_run [OF _ assms(2-4)]) (use assms(1) in blast)
  let ?img = "write_image host (entry_args es) (p_node m) m"
  have "\<exists>s'. mount_initrd new rd headers offset s = Inr s' \<and>
      (\<forall>e \<in> set es. shows_file dops nm acts rd mem s' (path_of (entry_names e)) (entry_content e))"
    if l: "loaded ?img offset headers mem s" "fresh_node ?img offset new s" for offset headers mem s new
  proof -
    from mount_run [OF l] obtain s' where s': "mount_initrd new rd headers offset s = Inr s'"
      "mounted m rd offset (of_nat (sizeof_initrd_header + sizeof_vfs_node * p_node m)) new s'" by blast
    have "shows_file dops nm acts rd mem s' (path_of (entry_names e)) (entry_content e)" if "e \<in> set es" for e
      using split_list [OF that] mounted_file [OF m(2) _ assms(2) _ l(1) s'(2) assms(5)] assms(1) by blast
    with s'(1) show ?thesis by blast
  qed
  moreover have "length (im_nodes ?img) \<le> length es * 5"
    using m(2,3) by (simp add: mk_ok_def write_image_def Let_def)
  moreover have "im_data ?img = concat (map entry_content es)"
    by (rule image_data) (use assms(1) in blast)
  ultimately show ?thesis using m(1) by blast
qed

text \<open>Two files, and a memory that holds their image.\<close>

definition sample_entries :: "entry list" where
  "sample_entries = [(''motd'', ''/etc/motd'', [''etc'', ''motd''], [72, 105]), (''sh'', ''bin/sh'', [''bin'', ''sh''], [7])]"

definition sample_files :: "string \<Rightarrow> u8 list option" where
  "sample_files f = map_of [(''motd'', [72, 105]), (''sh'', [7])] f"

theorem initrd_files_readable_witness:
  "\<forall>d. \<exists>img s s'.
    mkinitrd_main sample_files 0x1000 (\<lambda>_. VFS_NODE_INITIALIZER 0) (entry_argv sample_entries) = Some (Inr (Some img)) \<and>
    mount_initrd 0x100000 5 (\<lambda>_. im_header img) 0x200000 s = Inr s' \<and>
    shows_file d (replicate 256 NUL) [] 5 (image_bytes img 0x200000) s' ''/etc/motd'' [72, 105]"
proof
  fix d
  have es: "\<forall>e \<in> set sample_entries. entry_ok sample_files e" "entries_apart sample_entries"
    by (simp_all add: sample_entries_def sample_files_def entry_ok_def names_path_def plain_name_def path_of_def
        MAX_PATH_def entries_apart_def apart_def)
  have "block_ok 0x1000 (length sample_entries * 5)"
      "1 + sum_list (map (\<lambda>e. length (entry_names e)) sample_entries) \<le> length sample_entries * 5"
      "length (replicate 256 NUL) = MAX_PATH + 1"
    by (simp_all add: sample_entries_def block_ok_def sizeof_vfs_node_def MAX_PATH_def)
  from initrd_files_readable [OF es this, of "\<lambda>_. VFS_NODE_INITIALIZER 0" 5 d "[]"] obtain img where
    img: "mkinitrd_main sample_files 0x1000 (\<lambda>_. VFS_NODE_INITIALIZER 0) (entry_argv sample_entries) = Some (Inr (Some img))"
      "length (im_nodes img) \<le> length sample_entries * 5" "im_data img = concat (map entry_content sample_entries)"
    and go: "\<forall>offset headers mem s new. loaded img offset headers mem s \<and> fresh_node img offset new s \<longrightarrow>
      (\<exists>s'. mount_initrd new 5 headers offset s = Inr s' \<and> (\<forall>e \<in> set sample_entries.
        shows_file d (replicate 256 NUL) [] 5 mem s' (path_of (entry_names e)) (entry_content e)))"
    by blast
  let ?s = "sample_vfs\<lparr>nodes := image_nodes img 0x200000\<rparr>"
  have "block_ok (0x200000 + of_nat sizeof_initrd_header) 10"
    by (simp add: block_ok_def sizeof_initrd_header_def sizeof_vfs_node_def)
  then have "block_ok (0x200000 + of_nat sizeof_initrd_header) (length (im_nodes img))"
    by (rule block_ok_mono) (use img(2) in \<open>simp add: sample_entries_def\<close>)
  then have "loaded img 0x200000 (\<lambda>_. im_header img) (image_bytes img 0x200000) ?s \<and> fresh_node img 0x200000 0x100000 ?s"
    by (rule image_loaded) (simp_all add: img(3) sample_entries_def sizeof_initrd_header_def)
  with go obtain s' where s': "mount_initrd 0x100000 5 (\<lambda>_. im_header img) 0x200000 ?s = Inr s'"
      "\<forall>e \<in> set sample_entries.
        shows_file d (replicate 256 NUL) [] 5 (image_bytes img 0x200000) s' (path_of (entry_names e)) (entry_content e)"
    by blast
  have "shows_file d (replicate 256 NUL) [] 5 (image_bytes img 0x200000) s' ''/etc/motd'' [72, 105]"
    using s'(2) by (simp add: sample_entries_def path_of_def)
  with img(1) s'(1) show "\<exists>img s s'.
    mkinitrd_main sample_files 0x1000 (\<lambda>_. VFS_NODE_INITIALIZER 0) (entry_argv sample_entries) = Some (Inr (Some img)) \<and>
    mount_initrd 0x100000 5 (\<lambda>_. im_header img) 0x200000 s = Inr s' \<and>
    shows_file d (replicate 256 NUL) [] 5 (image_bytes img 0x200000) s' ''/etc/motd'' [72, 105]" by blast
qed

end
